theory Spec2Isabelle
  imports Main
begin

section \<open>Data model\<close>

text \<open>
  Modelled from the spec: the header frozen.h (the declarations of the token type, of the
  token types and of the error codes) is not among the sources. The error codes are the
  three negative sentinel values the rules return; success is the other branch of the sum.
\<close>

datatype error = JSON_STRING_INVALID | JSON_STRING_INCOMPLETE | JSON_TOKEN_ARRAY_TOO_SMALL

datatype json_type =
    JSON_TYPE_EOF | JSON_TYPE_STRING | JSON_TYPE_NUMBER | JSON_TYPE_OBJECT
  | JSON_TYPE_TRUE | JSON_TYPE_FALSE | JSON_TYPE_NULL | JSON_TYPE_ARRAY

text \<open>
  A token: \<open>ptr\<close> is kept as the offset of the pointer from the start \<open>s\<close> of the input.
  The caller's array holds arbitrary tokens before the call.
\<close>

record json_token =
  ptr :: int
  len :: int
  num_children :: int
  type :: json_type

text \<open>
  \<open>struct frozen\<close>: \<open>endp\<close> and \<open>curp\<close> are the pointers \<open>end\<close> and \<open>cur\<close> as offsets from
  \<open>s\<close>; \<open>buf\<close> is the memory that \<open>s\<close> points to; \<open>tokens\<close> is \<open>None\<close> for a null pointer.
\<close>

record frozen =
  buf :: string
  endp :: nat
  curp :: nat
  tokens :: "json_token list option"
  max_tokens :: int
  num_tokens :: int

type_synonym rc = "error + unit"

text \<open>
  The byte at offset \<open>i\<close> from \<open>s\<close>, as an unsigned value. The only read the parser can make
  at or past \<open>end\<close> is the one of \<open>get_escape_len\<close>; a region that stops before it is read
  as followed by a NUL byte.
\<close>

definition byte_at :: "frozen \<Rightarrow> nat \<Rightarrow> int" where
  "byte_at f i = (if i < length (buf f) then of_char (buf f ! i) else 0)"

definition END_OF_STRING :: int where
  "END_OF_STRING = - 1"

section \<open>Scanner\<close>

definition left :: "frozen \<Rightarrow> int" where
  "left f = int (endp f) - int (curp f)"

definition is_space :: "int \<Rightarrow> bool" where
  "is_space ch \<longleftrightarrow> ch = 32 \<or> ch = 9 \<or> ch = 13 \<or> ch = 10"

function skip_whitespaces :: "frozen \<Rightarrow> frozen" where
  "skip_whitespaces f =
     (if curp f < endp f \<and> is_space (byte_at f (curp f))
      then skip_whitespaces (f\<lparr>curp := curp f + 1\<rparr>) else f)"
  by pat_completeness auto
termination
  by (relation "measure (\<lambda>f. endp f - curp f)") auto

declare skip_whitespaces.simps [simp del]

definition cur :: "frozen \<Rightarrow> int \<times> frozen" where
  "cur f = (let f1 = skip_whitespaces f
            in (if curp f1 \<ge> endp f1 then END_OF_STRING else byte_at f1 (curp f1), f1))"

definition test_and_skip :: "frozen \<Rightarrow> int \<Rightarrow> rc \<times> frozen" where
  "test_and_skip f expected =
     (let (ch, f1) = cur f
      in if ch = expected then (Inr (), f1\<lparr>curp := curp f1 + 1\<rparr>)
         else (Inl (if ch = END_OF_STRING then JSON_STRING_INCOMPLETE
                    else JSON_STRING_INVALID), f1))"

definition is_alpha :: "int \<Rightarrow> bool" where
  "is_alpha ch \<longleftrightarrow> (ch \<ge> 97 \<and> ch \<le> 122) \<or> (ch \<ge> 65 \<and> ch \<le> 90)"

definition is_digit :: "int \<Rightarrow> bool" where
  "is_digit ch \<longleftrightarrow> ch \<ge> 48 \<and> ch \<le> 57"

definition is_hex_digit :: "int \<Rightarrow> bool" where
  "is_hex_digit ch \<longleftrightarrow>
     is_digit ch \<or> (ch \<ge> 97 \<and> ch \<le> 102) \<or> (ch \<ge> 65 \<and> ch \<le> 70)"

text \<open>
  \<open>get_escape_len f p n\<close> is \<open>get_escape_len(s, len)\<close> with \<open>s\<close> at offset \<open>p\<close> and
  \<open>len = n\<close>. The codes are: u 117, quote 34, backslash 92, slash 47, b 98, f 102, n 110,
  r 114, t 116.
\<close>

definition get_escape_len :: "frozen \<Rightarrow> nat \<Rightarrow> int \<Rightarrow> error + nat" where
  "get_escape_len f p n =
     (let c = byte_at f p in
      if c = 117 then
        (if n < 4 then Inl JSON_STRING_INCOMPLETE
         else if is_hex_digit (byte_at f p) \<and> is_hex_digit (byte_at f (p + 1)) \<and>
                 is_hex_digit (byte_at f (p + 2)) \<and> is_hex_digit (byte_at f (p + 3))
              then Inr 4 else Inl JSON_STRING_INVALID)
      else if c = 34 \<or> c = 92 \<or> c = 47 \<or> c = 98 \<or> c = 102 \<or> c = 110 \<or> c = 114 \<or> c = 116 then
        (if n < 2 then Inl JSON_STRING_INCOMPLETE else Inr 1)
      else Inl JSON_STRING_INVALID)"

section \<open>Token recorder\<close>

definition capture_ptr :: "frozen \<Rightarrow> int \<Rightarrow> json_type \<Rightarrow> rc \<times> frozen" where
  "capture_ptr f p ty =
     (case tokens f of
        None \<Rightarrow> (Inr (), f)
      | Some ts \<Rightarrow>
          if max_tokens f = 0 then (Inr (), f)
          else if num_tokens f \<ge> max_tokens f then (Inl JSON_TOKEN_ARRAY_TOO_SMALL, f)
          else (Inr (),
                f\<lparr>tokens := Some (ts[nat (num_tokens f) :=
                                      (ts ! nat (num_tokens f))\<lparr>ptr := p, type := ty\<rparr>]),
                  num_tokens := num_tokens f + 1\<rparr>))"

definition capture_len :: "frozen \<Rightarrow> int \<Rightarrow> int \<Rightarrow> rc \<times> frozen" where
  "capture_len f token_index p =
     (case tokens f of
        None \<Rightarrow> (Inr (), f)
      | Some ts \<Rightarrow>
          if max_tokens f = 0 then (Inr (), f)
          else if \<not> (token_index \<ge> 0 \<and> token_index < max_tokens f)
               then (Inl JSON_STRING_INVALID, f)
          else (Inr (),
                f\<lparr>tokens := Some (ts[nat token_index :=
                    (ts ! nat token_index)\<lparr>num_children := (num_tokens f - 1) - token_index,
                                           len := p - ptr (ts ! nat token_index)\<rparr>])\<rparr>))"

text \<open>The macro \<open>TRY\<close>: an error of the first step is returned at once.\<close>

definition TRY :: "rc \<times> frozen \<Rightarrow> (frozen \<Rightarrow> rc \<times> frozen) \<Rightarrow> rc \<times> frozen" where
  "TRY m k = (case m of (Inl e, f) \<Rightarrow> (Inl e, f) | (Inr _, f) \<Rightarrow> k f)"

section \<open>Leaf grammar rules\<close>

function identifier_loop :: "frozen \<Rightarrow> frozen" where
  "identifier_loop f =
     (if curp f < endp f \<and>
         (byte_at f (curp f) = 95 \<or> is_alpha (byte_at f (curp f)) \<or> is_digit (byte_at f (curp f)))
      then identifier_loop (f\<lparr>curp := curp f + 1\<rparr>) else f)"
  by pat_completeness auto
termination
  by (relation "measure (\<lambda>f. endp f - curp f)") auto

declare identifier_loop.simps [simp del]

definition parse_identifier :: "frozen \<Rightarrow> rc \<times> frozen" where
  "parse_identifier f =
     (let (ch, f1) = cur f in
      if \<not> is_alpha ch then (Inl JSON_STRING_INVALID, f1)
      else TRY (capture_ptr f1 (int (curp f1)) JSON_TYPE_STRING) (\<lambda>f2.
        let f3 = identifier_loop f2
        in (Inr (), snd (capture_len f3 (num_tokens f3 - 1) (int (curp f3))))))"

text \<open>
  The \<open>for\<close> loop of \<open>parse_string\<close>, with the local \<open>ch\<close> threaded through: the result is
  the value of \<open>ch\<close> when the loop is left, or the error of an \<open>EXPECT\<close>.
\<close>

function string_loop :: "int \<Rightarrow> frozen \<Rightarrow> (error + int) \<times> frozen" where
  "string_loop ch0 f =
     (if curp f < endp f then
        (let ch = byte_at f (curp f) in
         if \<not> (ch \<ge> 32 \<and> ch \<le> 127) then (Inl JSON_STRING_INVALID, f)
         else if ch = 92 then
           (case get_escape_len f (curp f + 1) (left f) of
              Inl e \<Rightarrow> (Inl e, f)
            | Inr n \<Rightarrow> string_loop ch (f\<lparr>curp := curp f + n + 1\<rparr>))
         else if ch = 34 then
           (let f1 = snd (capture_len f (num_tokens f - 1) (int (curp f)))
            in (Inr ch, f1\<lparr>curp := curp f1 + 1\<rparr>))
         else string_loop ch (f\<lparr>curp := curp f + 1\<rparr>))
      else (Inr ch0, f))"
  by pat_completeness auto
termination
  by (relation "measure (\<lambda>(ch, f). endp f - curp f)") auto

declare string_loop.simps [simp del]

definition parse_string :: "frozen \<Rightarrow> rc \<times> frozen" where
  "parse_string f =
     TRY (test_and_skip f 34) (\<lambda>f1.
     TRY (capture_ptr f1 (int (curp f1)) JSON_TYPE_STRING) (\<lambda>f2.
       case string_loop 0 f2 of
         (Inl e, f3) \<Rightarrow> (Inl e, f3)
       | (Inr ch, f3) \<Rightarrow> (if ch = 34 then Inr () else Inl JSON_STRING_INCOMPLETE, f3)))"

function number_loop :: "frozen \<Rightarrow> frozen" where
  "number_loop f =
     (if curp f < endp f \<and> is_digit (byte_at f (curp f))
      then number_loop (f\<lparr>curp := curp f + 1\<rparr>) else f)"
  by pat_completeness auto
termination
  by (relation "measure (\<lambda>f. endp f - curp f)") auto

declare number_loop.simps [simp del]

definition parse_number :: "frozen \<Rightarrow> rc \<times> frozen" where
  "parse_number f =
     (let (ch, f1) = cur f in
      TRY (capture_ptr f1 (int (curp f1)) JSON_TYPE_NUMBER) (\<lambda>f2.
        let f3 = (if ch = 45 then f2\<lparr>curp := curp f2 + 1\<rparr> else f2);
            f4 = number_loop f3
        in (Inr (), snd (capture_len f4 (num_tokens f4 - 1) (int (curp f4))))))"

function compare_loop :: "frozen \<Rightarrow> string \<Rightarrow> nat \<Rightarrow> nat \<Rightarrow> nat" where
  "compare_loop f str n i =
     (if i < n \<and> byte_at f (curp f + i) = of_char (str ! i)
      then compare_loop f str n (i + 1) else i)"
  by pat_completeness auto
termination
  by (relation "measure (\<lambda>(f, str, n, i). n - i)") auto

declare compare_loop.simps [simp del]

definition compare :: "frozen \<Rightarrow> string \<Rightarrow> nat \<Rightarrow> bool" where
  "compare f str n =
     (if left f < int n then False else compare_loop f str n 0 = n)"

text \<open>A literal: \<open>TRY(capture_ptr(f, f->cur, type)); f->cur += n; capture_len(...)\<close>.\<close>

definition parse_literal :: "frozen \<Rightarrow> json_type \<Rightarrow> nat \<Rightarrow> rc \<times> frozen" where
  "parse_literal f ty n =
     TRY (capture_ptr f (int (curp f)) ty) (\<lambda>f2.
       let f3 = f2\<lparr>curp := curp f2 + n\<rparr>
       in (Inr (), snd (capture_len f3 (num_tokens f3 - 1) (int (curp f3)))))"

definition parse_key :: "frozen \<Rightarrow> rc \<times> frozen" where
  "parse_key f =
     (let (ch, f1) = cur f in
      if is_alpha ch then parse_identifier f1
      else if ch = 34 then parse_string f1
      else (Inl (if ch = END_OF_STRING then JSON_STRING_INCOMPLETE
                 else JSON_STRING_INVALID), f1))"

section \<open>Composite grammar rules\<close>

text \<open>
  The rules call each other without a bound, so the model takes fuel: every call and
  every loop iteration uses one unit, and \<open>None\<close> is "out of fuel".
\<close>

definition separator :: "frozen \<Rightarrow> frozen" where
  "separator f = (let (ch, f1) = cur f in if ch = 44 then f1\<lparr>curp := curp f1 + 1\<rparr> else f1)"

fun parse_value :: "nat \<Rightarrow> frozen \<Rightarrow> (rc \<times> frozen) option"
  and parse_array :: "nat \<Rightarrow> frozen \<Rightarrow> (rc \<times> frozen) option"
  and array_loop :: "nat \<Rightarrow> frozen \<Rightarrow> (rc \<times> frozen) option"
  and parse_pair :: "nat \<Rightarrow> frozen \<Rightarrow> (rc \<times> frozen) option"
  and parse_object :: "nat \<Rightarrow> frozen \<Rightarrow> (rc \<times> frozen) option"
  and object_loop :: "nat \<Rightarrow> frozen \<Rightarrow> (rc \<times> frozen) option"
where
  "parse_value 0 f = None"
| "parse_value (Suc n) f =
     (let (ch, f1) = cur f in
      if ch = 34 then Some (parse_string f1)
      else if ch = 123 then parse_object n f1
      else if ch = 91 then parse_array n f1
      else if ch = 110 \<and> compare f1 ''null'' 4 then Some (parse_literal f1 JSON_TYPE_NULL 4)
      else if ch = 116 \<and> compare f1 ''true'' 4 then Some (parse_literal f1 JSON_TYPE_TRUE 4)
      else if ch = 102 \<and> compare f1 ''false'' 5 then Some (parse_literal f1 JSON_TYPE_FALSE 5)
      else if is_digit ch \<or>
              (ch = 45 \<and> curp f1 + 1 < endp f1 \<and> is_digit (byte_at f1 (curp f1 + 1)))
           then Some (parse_number f1)
      else Some (Inl (if ch = END_OF_STRING then JSON_STRING_INCOMPLETE
                      else JSON_STRING_INVALID), f1))"
| "parse_array 0 f = None"
| "parse_array (Suc n) f =
     (case test_and_skip f 91 of
        (Inl e, f1) \<Rightarrow> Some (Inl e, f1)
      | (Inr _, f1) \<Rightarrow>
         (case capture_ptr f1 (int (curp f1) - 1) JSON_TYPE_ARRAY of
            (Inl e, f2) \<Rightarrow> Some (Inl e, f2)
          | (Inr _, f2) \<Rightarrow>
             (let ind = num_tokens f2 - 1 in
              case array_loop n f2 of
                None \<Rightarrow> None
              | Some (Inl e, f3) \<Rightarrow> Some (Inl e, f3)
              | Some (Inr _, f3) \<Rightarrow>
                 (case test_and_skip f3 93 of
                    (Inl e, f4) \<Rightarrow> Some (Inl e, f4)
                  | (Inr _, f4) \<Rightarrow> Some (Inr (), snd (capture_len f4 ind (int (curp f4))))))))"
| "array_loop 0 f = None"
| "array_loop (Suc n) f =
     (let (ch, f1) = cur f in
      if ch \<noteq> 93 then
        (case parse_value n f1 of
           None \<Rightarrow> None
         | Some (Inl e, f2) \<Rightarrow> Some (Inl e, f2)
         | Some (Inr _, f2) \<Rightarrow> array_loop n (separator f2))
      else Some (Inr (), f1))"
| "parse_pair 0 f = None"
| "parse_pair (Suc n) f =
     (case parse_key f of
        (Inl e, f1) \<Rightarrow> Some (Inl e, f1)
      | (Inr _, f1) \<Rightarrow>
         (case test_and_skip f1 58 of
            (Inl e, f2) \<Rightarrow> Some (Inl e, f2)
          | (Inr _, f2) \<Rightarrow> parse_value n f2))"
| "parse_object 0 f = None"
| "parse_object (Suc n) f =
     (case test_and_skip f 123 of
        (Inl e, f1) \<Rightarrow> Some (Inl e, f1)
      | (Inr _, f1) \<Rightarrow>
         (case capture_ptr f1 (int (curp f1) - 1) JSON_TYPE_OBJECT of
            (Inl e, f2) \<Rightarrow> Some (Inl e, f2)
          | (Inr _, f2) \<Rightarrow>
             (let ind = num_tokens f2 - 1 in
              case object_loop n f2 of
                None \<Rightarrow> None
              | Some (Inl e, f3) \<Rightarrow> Some (Inl e, f3)
              | Some (Inr _, f3) \<Rightarrow>
                 (case test_and_skip f3 125 of
                    (Inl e, f4) \<Rightarrow> Some (Inl e, f4)
                  | (Inr _, f4) \<Rightarrow> Some (Inr (), snd (capture_len f4 ind (int (curp f4))))))))"
| "object_loop 0 f = None"
| "object_loop (Suc n) f =
     (let (ch, f1) = cur f in
      if ch \<noteq> 125 then
        (case parse_pair n f1 of
           None \<Rightarrow> None
         | Some (Inl e, f2) \<Rightarrow> Some (Inl e, f2)
         | Some (Inr _, f2) \<Rightarrow> object_loop n (separator f2))
      else Some (Inr (), f1))"

section \<open>Driver\<close>

definition init_frozen :: "string \<Rightarrow> int \<Rightarrow> json_token list option \<Rightarrow> int \<Rightarrow> frozen" where
  "init_frozen s s_len arr arr_len =
     \<lparr>buf = s, endp = nat s_len, curp = 0, tokens = arr, max_tokens = arr_len, num_tokens = 0\<rparr>"

definition parse_json_fuel ::
  "nat \<Rightarrow> string option \<Rightarrow> int \<Rightarrow> json_token list option \<Rightarrow> int
     \<Rightarrow> ((error + int) \<times> frozen) option" where
  "parse_json_fuel n s s_len arr arr_len =
     (let frozen = init_frozen (case s of None \<Rightarrow> [] | Some b \<Rightarrow> b) s_len arr arr_len in
      if s = None \<or> s_len < 0 then Some (Inl JSON_STRING_INVALID, frozen)
      else if s_len = 0 then Some (Inl JSON_STRING_INCOMPLETE, frozen)
      else
        (case parse_object n frozen of
           None \<Rightarrow> None
         | Some (Inl e, f1) \<Rightarrow> Some (Inl e, f1)
         | Some (Inr _, f1) \<Rightarrow>
            (case capture_ptr f1 (int (curp f1)) JSON_TYPE_EOF of
               (Inl e, f2) \<Rightarrow> Some (Inl e, f2)
             | (Inr _, f2) \<Rightarrow>
                (let f3 = snd (capture_len f2 (num_tokens f2) (int (curp f2)))
                 in Some (Inr (int (curp f3)), f3)))))"

text \<open>
  The fuel \<open>4 * s_len + 2\<close> is never used up (\<open>parse_json_fuel_total\<close> below), so
  \<open>parse_json\<close> is the result of the call: the value returned and the final state of
  \<open>struct frozen\<close>, whose \<open>tokens\<close> field is the caller's array after the call.
\<close>

definition parse_json ::
  "string option \<Rightarrow> int \<Rightarrow> json_token list option \<Rightarrow> int \<Rightarrow> (error + int) \<times> frozen" where
  "parse_json s s_len arr arr_len = the (parse_json_fuel (4 * nat s_len + 2) s s_len arr arr_len)"

section \<open>Auxiliary notions for the proofs\<close>

definition step :: "frozen \<Rightarrow> frozen \<Rightarrow> bool" where
  "step f g \<longleftrightarrow>
     buf g = buf f \<and> endp g = endp f \<and> curp f \<le> curp g \<and>
     (curp f \<le> endp f \<longrightarrow> curp g \<le> endp g) \<and>
     max_tokens g = max_tokens f \<and> num_tokens f \<le> num_tokens g \<and>
     map_option length (tokens g) = map_option length (tokens f)"

definition scan_step :: "frozen \<Rightarrow> frozen \<Rightarrow> bool" where
  "scan_step f g \<longleftrightarrow>
     buf g = buf f \<and> endp g = endp f \<and> curp f \<le> curp g \<and>
     (curp f \<le> endp f \<longrightarrow> curp g \<le> endp g) \<and>
     tokens g = tokens f \<and> max_tokens g = max_tokens f \<and> num_tokens g = num_tokens f"

definition holds ::
  "(nat \<Rightarrow> frozen \<Rightarrow> (rc \<times> frozen) option) \<Rightarrow> nat \<Rightarrow> (frozen \<Rightarrow> rc \<Rightarrow> frozen \<Rightarrow> bool) \<Rightarrow> bool" where
  "holds X n P \<longleftrightarrow> (\<forall>f r g. X n f = Some (r, g) \<longrightarrow> P f r g)"

definition adv :: "frozen \<Rightarrow> rc \<Rightarrow> frozen \<Rightarrow> bool" where
  "adv f r g \<longleftrightarrow> step f g \<and> (r = Inr () \<longrightarrow> curp f < curp g)"

datatype kind = KString | KObject | KArray | KLit json_type nat | KNumber | KError

definition value_kind :: "int \<Rightarrow> frozen \<Rightarrow> kind" where
  "value_kind ch f1 =
     (if ch = 34 then KString
      else if ch = 123 then KObject
      else if ch = 91 then KArray
      else if ch = 110 \<and> compare f1 ''null'' 4 then KLit JSON_TYPE_NULL 4
      else if ch = 116 \<and> compare f1 ''true'' 4 then KLit JSON_TYPE_TRUE 4
      else if ch = 102 \<and> compare f1 ''false'' 5 then KLit JSON_TYPE_FALSE 5
      else if is_digit ch \<or>
              (ch = 45 \<and> curp f1 + 1 < endp f1 \<and> is_digit (byte_at f1 (curp f1 + 1)))
           then KNumber
      else KError)"

definition fuel_mono :: "(nat \<Rightarrow> frozen \<Rightarrow> (rc \<times> frozen) option) \<Rightarrow> nat \<Rightarrow> bool" where
  "fuel_mono X n \<longleftrightarrow> (\<forall>f. X n f \<noteq> None \<longrightarrow> X (Suc n) f = X n f)"

definition enough :: "(nat \<Rightarrow> frozen \<Rightarrow> (rc \<times> frozen) option) \<Rightarrow> nat \<Rightarrow> nat \<Rightarrow> bool" where
  "enough X k n \<longleftrightarrow>
     (\<forall>f. curp f \<le> endp f \<longrightarrow> 4 * (endp f - curp f) + k < n \<longrightarrow> X n f \<noteq> None)"

text \<open>The driver after the root object: the end-of-input marker and the result.\<close>

definition finish :: "rc \<times> frozen \<Rightarrow> (error + int) \<times> frozen" where
  "finish v =
     (case v of
        (Inl e, f1) \<Rightarrow> (Inl e, f1)
      | (Inr _, f1) \<Rightarrow>
         (case capture_ptr f1 (int (curp f1)) JSON_TYPE_EOF of
            (Inl e, f2) \<Rightarrow> (Inl e, f2)
          | (Inr _, f2) \<Rightarrow>
             (let f3 = snd (capture_len f2 (num_tokens f2) (int (curp f2)))
              in (Inr (int (curp f3)), f3))))"


text \<open>The scanner loops as functions of the bytes, the end and the position.\<close>

definition byte :: "string \<Rightarrow> nat \<Rightarrow> int" where
  "byte b i = (if i < length b then of_char (b ! i) else 0)"

function scan_while :: "(int \<Rightarrow> bool) \<Rightarrow> string \<Rightarrow> nat \<Rightarrow> nat \<Rightarrow> nat" where
  "scan_while P b e i = (if i < e \<and> P (byte b i) then scan_while P b e (i + 1) else i)"
  by pat_completeness auto
termination
  by (relation "measure (\<lambda>(P, b, e, i). e - i)") auto

declare scan_while.simps [simp del]

datatype scan_res = Bad error nat | Stop int nat | Quote nat

function string_scan :: "string \<Rightarrow> nat \<Rightarrow> int \<Rightarrow> nat \<Rightarrow> scan_res" where
  "string_scan b e ch0 i =
     (if i < e then
        (let ch = byte b i in
         if \<not> (ch \<ge> 32 \<and> ch \<le> 127) then Bad JSON_STRING_INVALID i
         else if ch = 92 then
           (case get_escape_len \<lparr>buf = b, endp = e, curp = i, tokens = None,
                                  max_tokens = 0, num_tokens = 0\<rparr> (i + 1) (int e - int i) of
              Inl err \<Rightarrow> Bad err i
            | Inr n \<Rightarrow> string_scan b e ch (i + n + 1))
         else if ch = 34 then Quote i
         else string_scan b e ch (i + 1))
      else Stop ch0 i)"
  by pat_completeness auto
termination
  by (relation "measure (\<lambda>(b, e, ch, i). e - i)") auto

declare string_scan.simps [simp del]

definition is_ident :: "int \<Rightarrow> bool" where
  "is_ident ch \<longleftrightarrow> ch = 95 \<or> is_alpha ch \<or> is_digit ch"

text \<open>
  What a leaf rule does, as a function of the bytes: where it fails, or where it records
  its token and where it stops.
\<close>

definition ws :: "string \<Rightarrow> nat \<Rightarrow> nat \<Rightarrow> nat" where
  "ws b e i = scan_while is_space b e i"

definition peek :: "string \<Rightarrow> nat \<Rightarrow> nat \<Rightarrow> int" where
  "peek b e i = (if e \<le> ws b e i then END_OF_STRING else byte b (ws b e i))"

definition eos_error :: "int \<Rightarrow> error" where
  "eos_error ch = (if ch = END_OF_STRING then JSON_STRING_INCOMPLETE else JSON_STRING_INVALID)"

datatype plan = Fail error nat | Move nat | Token nat int json_type "(error \<times> nat) + (int \<times> nat)"

fun exec_plan :: "frozen \<Rightarrow> plan \<Rightarrow> rc \<times> frozen" where
  "exec_plan f (Fail e q) = (Inl e, f\<lparr>curp := q\<rparr>)"
| "exec_plan f (Move q) = (Inr (), f\<lparr>curp := q\<rparr>)"
| "exec_plan f (Token q p ty rest) =
     (case capture_ptr (f\<lparr>curp := q\<rparr>) p ty of
        (Inl e, f2) \<Rightarrow> (Inl e, f2)
      | (Inr _, f2) \<Rightarrow>
         (case rest of
            Inl (e, q2) \<Rightarrow> (Inl e, f2\<lparr>curp := q2\<rparr>)
          | Inr (p2, q3) \<Rightarrow>
              (Inr (), (snd (capture_len f2 (num_tokens f2 - 1) p2))\<lparr>curp := q3\<rparr>)))"

definition tas_plan :: "string \<Rightarrow> nat \<Rightarrow> nat \<Rightarrow> int \<Rightarrow> plan" where
  "tas_plan b e i c =
     (if peek b e i = c then Move (ws b e i + 1) else Fail (eos_error (peek b e i)) (ws b e i))"

definition ident_plan :: "string \<Rightarrow> nat \<Rightarrow> nat \<Rightarrow> plan" where
  "ident_plan b e i =
     (if \<not> is_alpha (peek b e i) then Fail JSON_STRING_INVALID (ws b e i)
      else Token (ws b e i) (int (ws b e i)) JSON_TYPE_STRING
             (Inr (int (scan_while is_ident b e (ws b e i)), scan_while is_ident b e (ws b e i))))"

definition string_plan :: "string \<Rightarrow> nat \<Rightarrow> nat \<Rightarrow> plan" where
  "string_plan b e i =
     (if peek b e i \<noteq> 34 then Fail (eos_error (peek b e i)) (ws b e i)
      else Token (ws b e i + 1) (int (ws b e i + 1)) JSON_TYPE_STRING
             (case string_scan b e 0 (ws b e i + 1) of
                Bad err p \<Rightarrow> Inl (err, p)
              | Stop ch p \<Rightarrow> Inl (JSON_STRING_INCOMPLETE, p)
              | Quote p \<Rightarrow> Inr (int p, p + 1)))"

definition number_plan :: "string \<Rightarrow> nat \<Rightarrow> nat \<Rightarrow> plan" where
  "number_plan b e i =
     Token (ws b e i) (int (ws b e i)) JSON_TYPE_NUMBER
       (let q = scan_while is_digit b e (if peek b e i = 45 then ws b e i + 1 else ws b e i)
        in Inr (int q, q))"

definition lit_plan :: "nat \<Rightarrow> json_type \<Rightarrow> nat \<Rightarrow> plan" where
  "lit_plan i ty n = Token i (int i) ty (Inr (int (i + n), i + n))"

definition key_plan :: "string \<Rightarrow> nat \<Rightarrow> nat \<Rightarrow> plan" where
  "key_plan b e i =
     (if is_alpha (peek b e i) then ident_plan b e i
      else if peek b e i = 34 then string_plan b e i
      else Fail (eos_error (peek b e i)) (ws b e i))"

definition cmp :: "string \<Rightarrow> nat \<Rightarrow> nat \<Rightarrow> string \<Rightarrow> nat \<Rightarrow> bool" where
  "cmp b e i str n \<longleftrightarrow> i + n \<le> e \<and> (\<forall>j < n. byte b (i + j) = of_char (str ! j))"

datatype vplan = Leaf plan | Obj nat | Arr nat

definition vkind :: "string \<Rightarrow> nat \<Rightarrow> nat \<Rightarrow> kind" where
  "vkind b e i =
     (let ch = peek b e i; q = ws b e i in
      if ch = 34 then KString
      else if ch = 123 then KObject
      else if ch = 91 then KArray
      else if ch = 110 \<and> cmp b e q ''null'' 4 then KLit JSON_TYPE_NULL 4
      else if ch = 116 \<and> cmp b e q ''true'' 4 then KLit JSON_TYPE_TRUE 4
      else if ch = 102 \<and> cmp b e q ''false'' 5 then KLit JSON_TYPE_FALSE 5
      else if is_digit ch \<or> (ch = 45 \<and> q + 1 < e \<and> is_digit (byte b (q + 1)))
           then KNumber
      else KError)"

definition value_plan :: "string \<Rightarrow> nat \<Rightarrow> nat \<Rightarrow> vplan" where
  "value_plan b e i =
     (case vkind b e i of
        KString \<Rightarrow> Leaf (string_plan b e i)
      | KObject \<Rightarrow> Obj (ws b e i)
      | KArray \<Rightarrow> Arr (ws b e i)
      | KLit ty k \<Rightarrow> Leaf (lit_plan (ws b e i) ty k)
      | KNumber \<Rightarrow> Leaf (number_plan b e i)
      | KError \<Rightarrow> Leaf (Fail (eos_error (peek b e i)) (ws b e i)))"

definition sep_pos :: "string \<Rightarrow> nat \<Rightarrow> nat \<Rightarrow> nat" where
  "sep_pos b e i = (if peek b e i = 44 then ws b e i + 1 else ws b e i)"

definition off :: "frozen \<Rightarrow> bool" where
  "off z \<longleftrightarrow> tokens z = None \<or> max_tokens z = 0"

definition same_scan :: "frozen \<Rightarrow> frozen \<Rightarrow> bool" where
  "same_scan f z \<longleftrightarrow> buf z = buf f \<and> endp z = endp f \<and> curp z = curp f"

definition sim_off :: "(nat \<Rightarrow> frozen \<Rightarrow> (rc \<times> frozen) option) \<Rightarrow> nat \<Rightarrow> bool" where
  "sim_off X n \<longleftrightarrow>
     (\<forall>f z r g. X n f = Some (r, g) \<longrightarrow> same_scan f z \<longrightarrow> off z \<longrightarrow>
        r \<noteq> Inl JSON_TOKEN_ARRAY_TOO_SMALL \<longrightarrow> X n z = Some (r, z\<lparr>curp := curp g\<rparr>))"

fun plan_rc :: "plan \<Rightarrow> rc" where
  "plan_rc (Fail e q) = Inl e"
| "plan_rc (Move q) = Inr ()"
| "plan_rc (Token q p ty rest) = (case rest of Inl (e, q2) \<Rightarrow> Inl e | Inr _ \<Rightarrow> Inr ())"

fun plan_end :: "plan \<Rightarrow> nat" where
  "plan_end (Fail e q) = q"
| "plan_end (Move q) = q"
| "plan_end (Token q p ty rest) = (case rest of Inl (e, q2) \<Rightarrow> q2 | Inr (p2, q3) \<Rightarrow> q3)"

definition off_ok :: "frozen \<Rightarrow> rc \<Rightarrow> frozen \<Rightarrow> bool" where
  "off_ok f r g \<longleftrightarrow> (off f \<longrightarrow> r \<noteq> Inl JSON_TOKEN_ARRAY_TOO_SMALL \<and> g = f\<lparr>curp := curp g\<rparr>)"

definition only_cur :: "frozen \<Rightarrow> frozen \<Rightarrow> bool" where
  "only_cur f g \<longleftrightarrow> g = f\<lparr>curp := curp g\<rparr>"

definition tok0 :: json_token where
  "tok0 = \<lparr>ptr = 0, len = 0, num_children = 0, type = JSON_TYPE_EOF\<rparr>"

definition capR :: "frozen \<Rightarrow> frozen \<Rightarrow> bool" where
  "capR f z \<longleftrightarrow>
     same_scan f z \<and> \<not> off f \<and> \<not> off z \<and> num_tokens z = num_tokens f \<and>
     num_tokens z \<le> max_tokens z"

definition capQ :: "frozen \<Rightarrow> (rc \<times> frozen) option \<Rightarrow> frozen \<Rightarrow> bool" where
  "capQ z X g \<longleftrightarrow>
     (if num_tokens g \<le> max_tokens z
      then \<exists>z'. X = Some (Inr (), z') \<and> capR g z' \<and> max_tokens z' = max_tokens z
      else \<exists>z'. X = Some (Inl JSON_TOKEN_ARRAY_TOO_SMALL, z'))"

definition cap_sim :: "(nat \<Rightarrow> frozen \<Rightarrow> (rc \<times> frozen) option) \<Rightarrow> nat \<Rightarrow> bool" where
  "cap_sim X n \<longleftrightarrow>
     (\<forall>f z g. X n f = Some (Inr (), g) \<longrightarrow> capR f z \<longrightarrow> capQ z (X n z) g)"

definition agree :: "nat \<Rightarrow> string \<Rightarrow> nat \<Rightarrow> string \<Rightarrow> nat \<Rightarrow> bool" where
  "agree k b e b' e' \<longleftrightarrow> k \<le> e \<and> k \<le> e' \<and> (\<forall>i < k. byte b i = byte b' i)"

definition rebuf :: "frozen \<Rightarrow> frozen \<Rightarrow> frozen" where
  "rebuf f' g = g\<lparr>buf := buf f', endp := endp f'\<rparr>"

definition agrS :: "nat \<Rightarrow> frozen \<Rightarrow> frozen \<Rightarrow> bool" where
  "agrS k f f' \<longleftrightarrow>
     curp f' = curp f \<and> tokens f' = tokens f \<and> max_tokens f' = max_tokens f \<and>
     num_tokens f' = num_tokens f \<and> agree k (buf f) (endp f) (buf f') (endp f')"

definition agr_sim :: "(nat \<Rightarrow> frozen \<Rightarrow> (rc \<times> frozen) option) \<Rightarrow> bool \<Rightarrow> nat \<Rightarrow> bool" where
  "agr_sim X strict n \<longleftrightarrow>
     (\<forall>f f' g k. X n f = Some (Inr (), g) \<longrightarrow> agrS k f f' \<longrightarrow>
        (if strict then curp g < k else curp g \<le> k) \<longrightarrow>
        X n f' = Some (Inr (), rebuf f' g))"

definition spaced :: "nat \<Rightarrow> string \<Rightarrow> string" where
  "spaced p b = b[p := CHR '' '']"

definition comma_at :: "nat \<Rightarrow> string \<Rightarrow> nat \<Rightarrow> bool" where
  "comma_at p b e \<longleftrightarrow> p < length b \<and> b ! p = CHR '','' \<and> p < e"


definition spf :: "nat \<Rightarrow> frozen \<Rightarrow> frozen" where
  "spf p f = f\<lparr>buf := spaced p (buf f)\<rparr>"

definition okc :: "nat \<Rightarrow> frozen \<Rightarrow> bool" where
  "okc p f \<longleftrightarrow> comma_at p (buf f) (endp f) \<and> peek (buf f) (endp f) (p + 1) \<noteq> 44"

definition hit :: "nat \<Rightarrow> rc \<Rightarrow> frozen \<Rightarrow> bool" where
  "hit p r g \<longleftrightarrow> r = Inl JSON_STRING_INVALID \<and> curp g = p"


definition inside :: "json_token \<Rightarrow> json_token \<Rightarrow> bool" where
  "inside t u \<longleftrightarrow> ptr u < ptr t \<and> ptr t + len t < ptr u + len u"

definition tok_ok :: "json_token list \<Rightarrow> nat \<Rightarrow> nat \<Rightarrow> bool" where
  "tok_ok ts m' i \<longleftrightarrow>
     0 \<le> num_children (ts ! i) \<and> int i + num_children (ts ! i) < int m' \<and>
     0 \<le> len (ts ! i) \<and>
     (type (ts ! i) \<noteq> JSON_TYPE_OBJECT \<and> type (ts ! i) \<noteq> JSON_TYPE_ARRAY \<longrightarrow>
        num_children (ts ! i) = 0) \<and>
     (\<forall>j. i < j \<and> j < m' \<longrightarrow>
        (if int j \<le> int i + num_children (ts ! i) then inside (ts ! j) (ts ! i)
         else ptr (ts ! i) + len (ts ! i) \<le> ptr (ts ! j)))"

definition seg :: "json_token list \<Rightarrow> nat \<Rightarrow> nat \<Rightarrow> nat \<Rightarrow> nat \<Rightarrow> bool" where
  "seg ts m m' lo hi \<longleftrightarrow>
     (\<forall>i. m \<le> i \<and> i < m' \<longrightarrow>
        int lo \<le> ptr (ts ! i) \<and> ptr (ts ! i) + len (ts ! i) \<le> int hi \<and> tok_ok ts m' i)"

definition toks :: "frozen \<Rightarrow> json_token list" where
  "toks f = (case tokens f of None \<Rightarrow> [] | Some ts \<Rightarrow> ts)"

definition on :: "frozen \<Rightarrow> bool" where
  "on f \<longleftrightarrow>
     tokens f \<noteq> None \<and> max_tokens f \<le> int (length (toks f)) \<and> 0 < max_tokens f \<and>
     0 \<le> num_tokens f \<and> num_tokens f \<le> max_tokens f"

definition keeps :: "frozen \<Rightarrow> frozen \<Rightarrow> bool" where
  "keeps f g \<longleftrightarrow>
     on g \<and> max_tokens g = max_tokens f \<and> num_tokens f \<le> num_tokens g \<and>
     length (toks g) = length (toks f) \<and>
     (\<forall>i < nat (num_tokens f). toks g ! i = toks f ! i)"

definition grows :: "frozen \<Rightarrow> frozen \<Rightarrow> bool" where
  "grows f g \<longleftrightarrow>
     keeps f g \<and> curp f \<le> curp g \<and>
     seg (toks g) (nat (num_tokens f)) (nat (num_tokens g)) (curp f) (curp g)"

definition plan_wf :: "nat \<Rightarrow> plan \<Rightarrow> bool" where
  "plan_wf i pl \<longleftrightarrow>
     (case pl of
        Token q p ty (Inr (p2, q3)) \<Rightarrow> int i \<le> p \<and> p \<le> p2 \<and> p2 \<le> int q3
      | Move q \<Rightarrow> i \<le> q
      | _ \<Rightarrow> True)"

definition seg_ok :: "(nat \<Rightarrow> frozen \<Rightarrow> (rc \<times> frozen) option) \<Rightarrow> nat \<Rightarrow> bool" where
  "seg_ok X n \<longleftrightarrow> (\<forall>f g. X n f = Some (Inr (), g) \<longrightarrow> on f \<longrightarrow> grows f g)"

text \<open>
  Nesting levels, from the input bytes alone. A small lexer walks the bytes: outside a
  string a bracket or brace opens or closes a level and a quote enters a string; inside a
  string a backslash protects the next byte and a quote leaves the string. None of this is
  taken from the parser: \<open>subtree_size_spec\<close> is what the recorded subtree sizes are
  compared with.
\<close>

datatype lex = LOut | LIn | LEsc

fun lex_step :: "lex \<times> int \<Rightarrow> int \<Rightarrow> lex \<times> int" where
  "lex_step (LOut, d) c =
     (if c = 34 then (LIn, d)
      else if c = 91 \<or> c = 123 then (LOut, d + 1)
      else if c = 93 \<or> c = 125 then (LOut, d - 1)
      else (LOut, d))"
| "lex_step (LIn, d) c =
     (if c = 92 then (LEsc, d) else if c = 34 then (LOut, d) else (LIn, d))"
| "lex_step (LEsc, d) c = (LIn, d)"

primrec lex_at :: "string \<Rightarrow> nat \<Rightarrow> lex \<times> int" where
  "lex_at b 0 = (LOut, 0)"
| "lex_at b (Suc p) = lex_step (lex_at b p) (byte b p)"

definition level :: "string \<Rightarrow> nat \<Rightarrow> int" where
  "level b p = snd (lex_at b p)"

definition tok_level :: "string \<Rightarrow> json_token list \<Rightarrow> nat \<Rightarrow> int" where
  "tok_level b ts j = level b (nat (ptr (ts ! j)))"

definition subtree_size_spec :: "string \<Rightarrow> json_token list \<Rightarrow> nat \<Rightarrow> nat \<Rightarrow> int" where
  "subtree_size_spec b ts n i =
     int (length (takeWhile (\<lambda>j. tok_level b ts i < tok_level b ts j) [Suc i..<n]))"

definition neutral :: "int \<Rightarrow> bool" where
  "neutral c \<longleftrightarrow> c \<noteq> 34 \<and> c \<noteq> 91 \<and> c \<noteq> 93 \<and> c \<noteq> 123 \<and> c \<noteq> 125"

definition tok_lvl :: "string \<Rightarrow> json_token list \<Rightarrow> nat \<Rightarrow> nat \<Rightarrow> bool" where
  "tok_lvl b ts m' i \<longleftrightarrow>
     0 \<le> num_children (ts ! i) \<and> int i + num_children (ts ! i) < int m' \<and>
     (type (ts ! i) \<noteq> JSON_TYPE_OBJECT \<and> type (ts ! i) \<noteq> JSON_TYPE_ARRAY \<longrightarrow>
        num_children (ts ! i) = 0) \<and>
     (\<forall>j. i < j \<and> int j \<le> int i + num_children (ts ! i) \<longrightarrow>
        tok_level b ts i < tok_level b ts j) \<and>
     (int i + num_children (ts ! i) + 1 < int m' \<longrightarrow>
        tok_level b ts (nat (int i + num_children (ts ! i) + 1)) \<le> tok_level b ts i)"

definition lseg :: "string \<Rightarrow> json_token list \<Rightarrow> nat \<Rightarrow> nat \<Rightarrow> int \<Rightarrow> bool" where
  "lseg b ts m m' d \<longleftrightarrow>
     (m < m' \<longrightarrow> tok_level b ts m = d) \<and>
     (\<forall>i. m \<le> i \<and> i < m' \<longrightarrow> d \<le> tok_level b ts i \<and> tok_lvl b ts m' i)"

definition lgrows :: "int \<Rightarrow> frozen \<Rightarrow> frozen \<Rightarrow> bool" where
  "lgrows d f g \<longleftrightarrow>
     keeps f g \<and> buf g = buf f \<and> lex_at (buf f) (curp g) = (LOut, d) \<and>
     lseg (buf f) (toks g) (nat (num_tokens f)) (nat (num_tokens g)) d"

definition plan_lex :: "string \<Rightarrow> int \<Rightarrow> plan \<Rightarrow> bool" where
  "plan_lex b d pl \<longleftrightarrow>
     (case pl of
        Token q p ty (Inr (p2, q3)) \<Rightarrow> level b (nat p) = d \<and> lex_at b q3 = (LOut, d)
      | Move q \<Rightarrow> lex_at b q = (LOut, d)
      | _ \<Rightarrow> True)"

definition lvl_ok :: "(nat \<Rightarrow> frozen \<Rightarrow> (rc \<times> frozen) option) \<Rightarrow> nat \<Rightarrow> bool" where
  "lvl_ok X n \<longleftrightarrow>
     (\<forall>f g d. X n f = Some (Inr (), g) \<longrightarrow> on f \<longrightarrow> lex_at (buf f) (curp f) = (LOut, d) \<longrightarrow>
        lgrows d f g)"

section \<open>Frames, progress and fuel\<close>

lemma step_refl: "step f f"
  by (simp add: step_def)

lemma step_trans: "step f g \<Longrightarrow> step g h \<Longrightarrow> step f h"
  unfolding step_def by auto

lemma scan_step_step: "scan_step f g \<Longrightarrow> step f g"
  by (auto simp: step_def scan_step_def)

lemma scan_step_eq: "scan_step f g \<Longrightarrow> g = f\<lparr>curp := curp g\<rparr>"
  by (simp add: scan_step_def)

lemma byte_at_curp [simp]: "byte_at (f\<lparr>curp := c\<rparr>) i = byte_at f i"
  by (simp add: byte_at_def)

lemma skip_whitespaces_scan: "scan_step f (skip_whitespaces f)"
proof (induction "endp f - curp f" arbitrary: f rule: less_induct)
  case less
  show ?case
  proof (cases "curp f < endp f \<and> is_space (byte_at f (curp f))")
    case True
    then have eq: "skip_whitespaces f = skip_whitespaces (f\<lparr>curp := curp f + 1\<rparr>)"
      by (subst skip_whitespaces.simps) simp
    have "scan_step (f\<lparr>curp := curp f + 1\<rparr>) (skip_whitespaces (f\<lparr>curp := curp f + 1\<rparr>))"
      using True by (intro less) auto
    then show ?thesis unfolding eq using True by (auto simp: scan_step_def)
  next
    case False
    then have "skip_whitespaces f = f" by (subst skip_whitespaces.simps) auto
    then show ?thesis by (simp add: scan_step_def)
  qed
qed

lemma identifier_loop_scan: "scan_step f (identifier_loop f)"
proof (induction "endp f - curp f" arbitrary: f rule: less_induct)
  case less
  show ?case
  proof (cases "curp f < endp f \<and>
         (byte_at f (curp f) = 95 \<or> is_alpha (byte_at f (curp f)) \<or> is_digit (byte_at f (curp f)))")
    case True
    then have eq: "identifier_loop f = identifier_loop (f\<lparr>curp := curp f + 1\<rparr>)"
      by (subst identifier_loop.simps) simp
    have "scan_step (f\<lparr>curp := curp f + 1\<rparr>) (identifier_loop (f\<lparr>curp := curp f + 1\<rparr>))"
      using True by (intro less) auto
    then show ?thesis unfolding eq using True by (auto simp: scan_step_def)
  next
    case False
    then have "identifier_loop f = f" by (subst identifier_loop.simps) auto
    then show ?thesis by (simp add: scan_step_def)
  qed
qed

lemma number_loop_scan: "scan_step f (number_loop f)"
proof (induction "endp f - curp f" arbitrary: f rule: less_induct)
  case less
  show ?case
  proof (cases "curp f < endp f \<and> is_digit (byte_at f (curp f))")
    case True
    then have eq: "number_loop f = number_loop (f\<lparr>curp := curp f + 1\<rparr>)"
      by (subst number_loop.simps) simp
    have "scan_step (f\<lparr>curp := curp f + 1\<rparr>) (number_loop (f\<lparr>curp := curp f + 1\<rparr>))"
      using True by (intro less) auto
    then show ?thesis unfolding eq using True by (auto simp: scan_step_def)
  next
    case False
    then have "number_loop f = f" by (subst number_loop.simps) auto
    then show ?thesis by (simp add: scan_step_def)
  qed
qed

lemma cur_scan: "cur f = (ch, f1) \<Longrightarrow> scan_step f f1"
  using skip_whitespaces_scan [of f] by (auto simp: cur_def Let_def)

lemma cur_step: "cur f = (ch, f1) \<Longrightarrow> step f f1"
  by (rule scan_step_step) (rule cur_scan)

lemma of_char_int_range: "0 \<le> (of_char c :: int) \<and> (of_char c :: int) < 256"
proof -
  have "(of_char c :: int) = int (of_char c)" by (simp add: of_nat_of_char)
  moreover have "(of_char c :: nat) < 256" by simp
  ultimately show ?thesis by simp
qed

lemma byte_at_range: "0 \<le> byte_at f i \<and> byte_at f i < 256"
  using of_char_int_range by (simp add: byte_at_def)

lemma cur_nonneg:
  "cur f = (ch, f1) \<Longrightarrow> 0 \<le> ch \<Longrightarrow> curp f1 < endp f1 \<and> ch = byte_at f1 (curp f1)"
  by (auto simp: cur_def Let_def END_OF_STRING_def split: if_splits)

lemma cur_eos: "cur f = (ch, f1) \<Longrightarrow> (ch = END_OF_STRING) = (curp f1 \<ge> endp f1)"
  using byte_at_range [of "skip_whitespaces f" "curp (skip_whitespaces f)"]
  by (auto simp: cur_def Let_def END_OF_STRING_def split: if_splits)

lemma test_and_skip_step:
  assumes "test_and_skip f c = (r, g)" and "0 \<le> c"
  shows "step f g \<and> (r = Inr () \<longrightarrow> curp f < curp g)"
proof -
  obtain ch f1 where c: "cur f = (ch, f1)" by (cases "cur f")
  have s: "step f f1" using c by (rule cur_step)
  show ?thesis
  proof (cases "ch = c")
    case True
    then have g: "g = f1\<lparr>curp := curp f1 + 1\<rparr>" and r: "r = Inr ()"
      using assms c by (auto simp: test_and_skip_def)
    have "curp f1 < endp f1" using cur_nonneg [OF c] True assms(2) by auto
    then show ?thesis using s unfolding g step_def by auto
  next
    case False
    then show ?thesis using assms c s by (auto simp: test_and_skip_def)
  qed
qed

lemma capture_ptr_step: "capture_ptr f p ty = (r, g) \<Longrightarrow> step f g \<and> curp g = curp f"
  by (auto simp: capture_ptr_def step_def split: option.splits if_splits)

lemma capture_len_step:
  "step f (snd (capture_len f i p)) \<and> curp (snd (capture_len f i p)) = curp f \<and>
   num_tokens (snd (capture_len f i p)) = num_tokens f"
  by (auto simp: capture_len_def step_def split: option.splits if_splits)

lemma get_escape_len_Inr: "get_escape_len f p n = Inr k \<Longrightarrow> k = 1 \<and> 2 \<le> n"
  by (auto simp: get_escape_len_def Let_def is_hex_digit_def is_digit_def split: if_splits)

lemma step_from_curp:
  "step (f\<lparr>curp := c\<rparr>) g \<Longrightarrow> curp f \<le> c \<Longrightarrow> c \<le> endp f \<Longrightarrow> step f g"
  by (auto simp: step_def)

text \<open>One unfolding of the string loop, by cases on the byte under the cursor.\<close>

lemma string_loop_end: "\<not> curp f < endp f \<Longrightarrow> string_loop ch0 f = (Inr ch0, f)"
  by (subst string_loop.simps) simp

lemma string_loop_bad:
  "curp f < endp f \<Longrightarrow> \<not> (byte_at f (curp f) \<ge> 32 \<and> byte_at f (curp f) \<le> 127) \<Longrightarrow>
   string_loop ch0 f = (Inl JSON_STRING_INVALID, f)"
  by (subst string_loop.simps) (simp add: Let_def)

lemma string_loop_esc_err:
  "curp f < endp f \<Longrightarrow> byte_at f (curp f) = 92 \<Longrightarrow>
   get_escape_len f (curp f + 1) (left f) = Inl e \<Longrightarrow>
   string_loop ch0 f = (Inl e, f)"
  by (subst string_loop.simps) (simp add: Let_def)

lemma string_loop_esc:
  "curp f < endp f \<Longrightarrow> byte_at f (curp f) = 92 \<Longrightarrow>
   get_escape_len f (curp f + 1) (left f) = Inr k \<Longrightarrow>
   string_loop ch0 f = string_loop 92 (f\<lparr>curp := curp f + 2\<rparr>)"
  by (subst string_loop.simps) (auto simp: Let_def dest: get_escape_len_Inr)

lemma string_loop_quote:
  "curp f < endp f \<Longrightarrow> byte_at f (curp f) = 34 \<Longrightarrow>
   string_loop ch0 f =
     (Inr 34, (snd (capture_len f (num_tokens f - 1) (int (curp f))))\<lparr>curp := curp f + 1\<rparr>)"
  using capture_len_step [of f "num_tokens f - 1" "int (curp f)"]
  by (subst string_loop.simps) (simp add: Let_def)

lemma string_loop_other:
  "curp f < endp f \<Longrightarrow> byte_at f (curp f) \<ge> 32 \<Longrightarrow> byte_at f (curp f) \<le> 127 \<Longrightarrow>
   byte_at f (curp f) \<noteq> 92 \<Longrightarrow> byte_at f (curp f) \<noteq> 34 \<Longrightarrow>
   string_loop ch0 f = string_loop (byte_at f (curp f)) (f\<lparr>curp := curp f + 1\<rparr>)"
  by (subst string_loop.simps) (simp add: Let_def)

lemma string_loop_cases [case_names stop bad esc_err esc quote other]:
  assumes "\<not> curp f < endp f \<Longrightarrow> P"
    and "curp f < endp f \<Longrightarrow> \<not> (byte_at f (curp f) \<ge> 32 \<and> byte_at f (curp f) \<le> 127) \<Longrightarrow> P"
    and "\<And>e. curp f < endp f \<Longrightarrow> byte_at f (curp f) = 92 \<Longrightarrow>
           get_escape_len f (curp f + 1) (left f) = Inl e \<Longrightarrow> P"
    and "curp f < endp f \<Longrightarrow> byte_at f (curp f) = 92 \<Longrightarrow>
           get_escape_len f (curp f + 1) (left f) = Inr 1 \<Longrightarrow> curp f + 2 \<le> endp f \<Longrightarrow> P"
    and "curp f < endp f \<Longrightarrow> byte_at f (curp f) = 34 \<Longrightarrow> P"
    and "curp f < endp f \<Longrightarrow> byte_at f (curp f) \<ge> 32 \<Longrightarrow> byte_at f (curp f) \<le> 127 \<Longrightarrow>
           byte_at f (curp f) \<noteq> 92 \<Longrightarrow> byte_at f (curp f) \<noteq> 34 \<Longrightarrow> P"
  shows P
proof (cases "curp f < endp f")
  case False
  then show ?thesis by (rule assms(1))
next
  case lt: True
  show ?thesis
  proof (cases "byte_at f (curp f) \<ge> 32 \<and> byte_at f (curp f) \<le> 127")
    case False
    with lt show ?thesis by (rule assms(2))
  next
    case rng: True
    show ?thesis
    proof (cases "byte_at f (curp f) = 92")
      case True
      show ?thesis
      proof (cases "get_escape_len f (curp f + 1) (left f)")
        case (Inl e)
        with lt True show ?thesis by (rule assms(3))
      next
        case (Inr k)
        then have "k = 1" "2 \<le> left f" using get_escape_len_Inr by blast+
        then show ?thesis using assms(4) lt True Inr by (simp add: left_def)
      qed
    next
      case n92: False
      show ?thesis
      proof (cases "byte_at f (curp f) = 34")
        case True
        with lt show ?thesis by (rule assms(5))
      next
        case False
        with lt rng n92 show ?thesis using assms(6) by blast
      qed
    qed
  qed
qed

lemma string_loop_step: "string_loop ch0 f = (r, g) \<Longrightarrow> step f g"
proof (induction "endp f - curp f" arbitrary: f ch0 rule: less_induct)
  case less
  have IH: "step f g" if "string_loop ch (f\<lparr>curp := c\<rparr>) = (r, g)" "curp f < c" "c \<le> endp f" for ch c
  proof -
    have "endp (f\<lparr>curp := c\<rparr>) - curp (f\<lparr>curp := c\<rparr>) < endp f - curp f"
      using that by simp
    from less.hyps [OF this that(1)] show ?thesis
      using that by (auto intro: step_from_curp)
  qed
  show ?case
  proof (cases f rule: string_loop_cases)
    case stop
    then show ?thesis using less.prems by (simp add: string_loop_end step_refl)
  next
    case bad
    then show ?thesis using less.prems by (simp add: string_loop_bad step_refl)
  next
    case (esc_err e)
    then show ?thesis using less.prems by (simp add: string_loop_esc_err step_refl)
  next
    case esc
    then show ?thesis using less.prems IH [of 92 "curp f + 2"] by (simp add: string_loop_esc)
  next
    case quote
    then show ?thesis using less.prems capture_len_step [of f "num_tokens f - 1" "int (curp f)"]
      by (auto simp: string_loop_quote step_def)
  next
    case other
    then show ?thesis using less.prems IH [of "byte_at f (curp f)" "curp f + 1"]
      by (simp add: string_loop_other)
  qed
qed

lemma TRY_cases:
  assumes "TRY m k = (r, g)"
  obtains (err) e where "m = (Inl e, g)" "r = Inl e"
        | (ok) f1 where "m = (Inr (), f1)" "k f1 = (r, g)"
  using assms by (cases m) (auto simp: TRY_def split: sum.splits)

lemma identifier_loop_adv:
  "curp f < endp f \<Longrightarrow> is_alpha (byte_at f (curp f)) \<Longrightarrow> curp f < curp (identifier_loop f)"
  using identifier_loop_scan [of "f\<lparr>curp := curp f + 1\<rparr>"]
  by (subst identifier_loop.simps) (auto simp: scan_step_def)

lemma number_loop_adv:
  "curp f < endp f \<Longrightarrow> is_digit (byte_at f (curp f)) \<Longrightarrow> curp f < curp (number_loop f)"
  using number_loop_scan [of "f\<lparr>curp := curp f + 1\<rparr>"]
  by (subst number_loop.simps) (auto simp: scan_step_def)

lemma is_alpha_nonneg: "is_alpha ch \<Longrightarrow> 0 \<le> ch"
  by (auto simp: is_alpha_def)

lemma is_digit_nonneg: "is_digit ch \<Longrightarrow> 0 \<le> ch"
  by (auto simp: is_digit_def)

lemma parse_identifier_step:
  assumes "parse_identifier f = (r, g)"
  shows "step f g \<and> (r = Inr () \<longrightarrow> curp f < curp g)"
proof -
  obtain ch f1 where c: "cur f = (ch, f1)" by (cases "cur f")
  have s1: "step f f1" using c by (rule cur_step)
  show ?thesis
  proof (cases "is_alpha ch")
    case False
    then show ?thesis using assms c s1 by (auto simp: parse_identifier_def)
  next
    case True
    then have b: "curp f1 < endp f1" "ch = byte_at f1 (curp f1)"
      using cur_nonneg [OF c] is_alpha_nonneg by auto
    from assms c True have
      t: "TRY (capture_ptr f1 (int (curp f1)) JSON_TYPE_STRING) (\<lambda>f2.
        let f3 = identifier_loop f2
        in (Inr (), snd (capture_len f3 (num_tokens f3 - 1) (int (curp f3))))) = (r, g)"
      by (simp add: parse_identifier_def)
    show ?thesis
    proof (cases rule: TRY_cases [OF t])
      case (1 e)
      then show ?thesis using capture_ptr_step [of f1 _ _ "Inl e" g] s1
        by (auto intro: step_trans)
    next
      case (2 f2)
      define f3 where "f3 = identifier_loop f2"
      have s2: "step f1 f2" "curp f2 = curp f1" using capture_ptr_step [OF 2(1)] by auto
      have bf: "buf f2 = buf f1" "endp f2 = endp f1" using s2 by (auto simp: step_def)
      have s3: "step f2 f3" unfolding f3_def by (rule scan_step_step) (rule identifier_loop_scan)
      have "byte_at f2 (curp f2) = byte_at f1 (curp f1)" using bf s2 by (simp add: byte_at_def)
      then have adv: "curp f2 < curp f3" unfolding f3_def
        using identifier_loop_adv [of f2] b True s2 bf by auto
      have g: "g = snd (capture_len f3 (num_tokens f3 - 1) (int (curp f3)))" "r = Inr ()"
        using 2(2) by (auto simp: f3_def Let_def)
      have s4: "step f3 g" "curp g = curp f3" unfolding g using capture_len_step by auto
      have "curp f \<le> curp f1" using s1 by (simp add: step_def)
      then show ?thesis using s1 s2 s3 s4 adv by (auto intro: step_trans)
    qed
  qed
qed

lemma parse_string_step:
  assumes "parse_string f = (r, g)"
  shows "step f g \<and> (r = Inr () \<longrightarrow> curp f < curp g)"
proof -
  note t = assms [unfolded parse_string_def]
  show ?thesis
  proof (cases rule: TRY_cases [OF t])
    case (1 e)
    then show ?thesis using test_and_skip_step [of f 34 "Inl e" g] by auto
  next
    case (2 f1)
    then have s1: "step f f1" "curp f < curp f1" using test_and_skip_step [of f 34 "Inr ()" f1] by auto
    show ?thesis
    proof (cases rule: TRY_cases [OF 2(2)])
      case (1 e)
      then show ?thesis using capture_ptr_step [of f1 _ _ "Inl e" g] s1
        by (auto intro: step_trans)
    next
      case (2 f2)
      have s2: "step f1 f2" "curp f2 = curp f1" using capture_ptr_step [OF 2(1)] by auto
      obtain r3 f3 where l: "string_loop 0 f2 = (r3, f3)" by (cases "string_loop 0 f2")
      have s3: "step f2 f3" using l by (rule string_loop_step)
      have "g = f3" using 2(2) l by (auto split: sum.splits)
      moreover have "curp f2 \<le> curp f3" using s3 by (simp add: step_def)
      ultimately show ?thesis using s1 s2 s3 by (auto intro: step_trans)
    qed
  qed
qed

lemma parse_number_step:
  assumes "parse_number f = (r, g)"
  shows "step f g \<and> (r = Inr () \<longrightarrow> fst (cur f) = 45 \<or> is_digit (fst (cur f)) \<longrightarrow> curp f < curp g)"
proof -
  obtain ch f1 where c: "cur f = (ch, f1)" by (cases "cur f")
  have s1: "step f f1" using c by (rule cur_step)
  from assms c have
    t: "TRY (capture_ptr f1 (int (curp f1)) JSON_TYPE_NUMBER) (\<lambda>f2.
        let f3 = (if ch = 45 then f2\<lparr>curp := curp f2 + 1\<rparr> else f2);
            f4 = number_loop f3
        in (Inr (), snd (capture_len f4 (num_tokens f4 - 1) (int (curp f4))))) = (r, g)"
    by (simp add: parse_number_def)
  show ?thesis
  proof (cases rule: TRY_cases [OF t])
    case (1 e)
    then show ?thesis using capture_ptr_step [of f1 _ _ "Inl e" g] s1
      by (auto intro: step_trans)
  next
    case (2 f2)
    define f3 where "f3 = (if ch = 45 then f2\<lparr>curp := curp f2 + 1\<rparr> else f2)"
    define f4 where "f4 = number_loop f3"
    have s2: "step f1 f2" "curp f2 = curp f1" using capture_ptr_step [OF 2(1)] by auto
    have bf: "buf f2 = buf f1" "endp f2 = endp f1" using s2 by (auto simp: step_def)
    have b: "curp f1 < endp f1 \<and> ch = byte_at f1 (curp f1)" if "0 \<le> ch"
      using cur_nonneg [OF c that] .
    have s3: "step f2 f3" using b s2 bf by (auto simp: f3_def step_def)
    have s4: "step f3 f4" unfolding f4_def by (rule scan_step_step) (rule number_loop_scan)
    have g: "g = snd (capture_len f4 (num_tokens f4 - 1) (int (curp f4)))" "r = Inr ()"
      using 2(2) by (auto simp: f3_def f4_def Let_def)
    have s5: "step f4 g" "curp g = curp f4" unfolding g using capture_len_step by auto
    have bb: "byte_at f2 (curp f2) = byte_at f1 (curp f1)" using bf s2 by (simp add: byte_at_def)
    have adv: "curp f2 < curp f4" if "ch = 45 \<or> is_digit ch"
    proof (cases "ch = 45")
      case True
      then have "curp f2 < curp f3" by (simp add: f3_def)
      moreover have "curp f3 \<le> curp f4" using s4 by (simp add: step_def)
      ultimately show ?thesis by simp
    next
      case False
      then have d: "is_digit ch" and e: "f3 = f2" using that by (auto simp: f3_def)
      then show ?thesis unfolding f4_def e
        using number_loop_adv [of f2] b [OF is_digit_nonneg [OF d]] s2 bf bb
        by auto
    qed
    have le: "curp f \<le> curp f1" using s1 by (simp add: step_def)
    have "step f g" using s1 s2(1) s3 s4 s5(1) by (blast intro: step_trans)
    then show ?thesis using le s2 s5 adv c by auto
  qed
qed

lemma parse_literal_step:
  assumes "parse_literal f ty n = (r, g)" "int n \<le> left f"
  shows "step f g \<and> (r = Inr () \<longrightarrow> curp g = curp f + n)"
proof -
  note t = assms(1) [unfolded parse_literal_def]
  show ?thesis
  proof (cases rule: TRY_cases [OF t])
    case (1 e)
    then show ?thesis using capture_ptr_step [of f _ _ "Inl e" g] by auto
  next
    case (2 f2)
    define f3 where "f3 = f2\<lparr>curp := curp f2 + n\<rparr>"
    have s2: "step f f2" "curp f2 = curp f" using capture_ptr_step [OF 2(1)] by auto
    have s3: "step f2 f3" using assms(2) s2 by (auto simp: f3_def step_def left_def)
    have g: "g = snd (capture_len f3 (num_tokens f3 - 1) (int (curp f3)))" "r = Inr ()"
      using 2(2) by (auto simp: f3_def Let_def)
    have s4: "step f3 g" "curp g = curp f3" unfolding g using capture_len_step by auto
    show ?thesis using s2 s3 s4 by (auto intro: step_trans simp: f3_def)
  qed
qed

lemma skip_whitespaces_stop:
  "\<not> (curp (skip_whitespaces f) < endp (skip_whitespaces f) \<and>
      is_space (byte_at (skip_whitespaces f) (curp (skip_whitespaces f))))"
proof (induction "endp f - curp f" arbitrary: f rule: less_induct)
  case less
  show ?case
  proof (cases "curp f < endp f \<and> is_space (byte_at f (curp f))")
    case True
    then have eq: "skip_whitespaces f = skip_whitespaces (f\<lparr>curp := curp f + 1\<rparr>)"
      by (subst skip_whitespaces.simps) simp
    have "endp (f\<lparr>curp := curp f + 1\<rparr>) - curp (f\<lparr>curp := curp f + 1\<rparr>) < endp f - curp f"
      using True by auto
    from less.hyps [OF this] show ?thesis unfolding eq .
  next
    case False
    then have "skip_whitespaces f = f" by (subst skip_whitespaces.simps) auto
    then show ?thesis using False by simp
  qed
qed

lemma skip_whitespaces_idem: "skip_whitespaces (skip_whitespaces f) = skip_whitespaces f"
  using skip_whitespaces_stop [of f] by (subst skip_whitespaces.simps) auto

lemma cur_idem: "cur f = (ch, f1) \<Longrightarrow> cur f1 = (ch, f1)"
  by (auto simp: cur_def Let_def skip_whitespaces_idem)

lemma parse_key_step:
  assumes "parse_key f = (r, g)"
  shows "step f g \<and> (r = Inr () \<longrightarrow> curp f < curp g)"
proof -
  obtain ch f1 where c: "cur f = (ch, f1)" by (cases "cur f")
  have s1: "step f f1" using c by (rule cur_step)
  then have le: "curp f \<le> curp f1" by (simp add: step_def)
  consider (id) "is_alpha ch" "parse_identifier f1 = (r, g)"
    | (str) "parse_string f1 = (r, g)"
    | (err) "g = f1" "r \<noteq> Inr ()"
    using assms c by (auto simp: parse_key_def split: if_splits)
  then show ?thesis
  proof cases
    case id
    then show ?thesis using parse_identifier_step [of f1 r g] s1 le by (auto intro: step_trans)
  next
    case str
    then show ?thesis using parse_string_step [of f1 r g] s1 le by (auto intro: step_trans)
  next
    case err
    then show ?thesis using s1 by auto
  qed
qed

lemma separator_scan: "scan_step f (separator f)"
proof -
  obtain ch f1 where c: "cur f = (ch, f1)" by (cases "cur f")
  have "curp f1 < endp f1" if "ch = 44" using cur_nonneg [OF c] that by simp
  then show ?thesis using cur_scan [OF c] c by (auto simp: separator_def scan_step_def)
qed

lemma separator_step: "step f (separator f)"
  by (rule scan_step_step) (rule separator_scan)

lemma holdsI: "(\<And>f r g. X n f = Some (r, g) \<Longrightarrow> P f r g) \<Longrightarrow> holds X n P"
  by (simp add: holds_def)

lemma holdsD: "holds X n P \<Longrightarrow> X n f = Some (r, g) \<Longrightarrow> P f r g"
  by (simp add: holds_def)

lemma parse_value_cases [consumes 1, case_names str obj arr lit num err]:
  assumes "parse_value (Suc n) f = Some (r, g)"
  obtains
    (str) f1 where "cur f = (34, f1)" "parse_string f1 = (r, g)"
  | (obj) f1 where "cur f = (123, f1)" "parse_object n f1 = Some (r, g)"
  | (arr) f1 where "cur f = (91, f1)" "parse_array n f1 = Some (r, g)"
  | (lit) ch f1 str ty k where "cur f = (ch, f1)" "compare f1 str k" "parse_literal f1 ty k = (r, g)"
      "(ch, str, ty, k) \<in> {(110, ''null'', JSON_TYPE_NULL, 4), (116, ''true'', JSON_TYPE_TRUE, 4),
          (102, ''false'', JSON_TYPE_FALSE, 5)}"
  | (num) ch f1 where "cur f = (ch, f1)" "parse_number f1 = (r, g)"
      "is_digit ch \<or> (ch = 45 \<and> curp f1 + 1 < endp f1 \<and> is_digit (byte_at f1 (curp f1 + 1)))"
  | (err) ch f1 where "cur f = (ch, f1)" "g = f1" 
      "r = Inl (if ch = END_OF_STRING then JSON_STRING_INCOMPLETE else JSON_STRING_INVALID)"
proof -
  obtain ch f1 where c: "cur f = (ch, f1)" by (cases "cur f")
  show ?thesis
    using assms c
    apply (simp only: parse_value.simps prod.case Let_def split: if_splits)
    using str obj arr lit num err
         apply auto
    done
qed

lemma parse_array_cases [consumes 1, case_names e1 e2 e3 e4 ok]:
  assumes "parse_array (Suc n) f = Some (r, g)"
  obtains
    (e1) e where "test_and_skip f 91 = (Inl e, g)" "r = Inl e"
  | (e2) e f1 where "test_and_skip f 91 = (Inr (), f1)"
      "capture_ptr f1 (int (curp f1) - 1) JSON_TYPE_ARRAY = (Inl e, g)" "r = Inl e"
  | (e3) e f1 f2 where "test_and_skip f 91 = (Inr (), f1)"
      "capture_ptr f1 (int (curp f1) - 1) JSON_TYPE_ARRAY = (Inr (), f2)"
      "array_loop n f2 = Some (Inl e, g)" "r = Inl e"
  | (e4) e f1 f2 f3 where "test_and_skip f 91 = (Inr (), f1)"
      "capture_ptr f1 (int (curp f1) - 1) JSON_TYPE_ARRAY = (Inr (), f2)"
      "array_loop n f2 = Some (Inr (), f3)" "test_and_skip f3 93 = (Inl e, g)" "r = Inl e"
  | (ok) f1 f2 f3 f4 where "test_and_skip f 91 = (Inr (), f1)"
      "capture_ptr f1 (int (curp f1) - 1) JSON_TYPE_ARRAY = (Inr (), f2)"
      "array_loop n f2 = Some (Inr (), f3)" "test_and_skip f3 93 = (Inr (), f4)"
      "g = snd (capture_len f4 (num_tokens f2 - 1) (int (curp f4)))" "r = Inr ()"
  using assms
  by (auto simp: Let_def split: prod.splits sum.splits option.splits)

lemma parse_object_cases [consumes 1, case_names e1 e2 e3 e4 ok]:
  assumes "parse_object (Suc n) f = Some (r, g)"
  obtains
    (e1) e where "test_and_skip f 123 = (Inl e, g)" "r = Inl e"
  | (e2) e f1 where "test_and_skip f 123 = (Inr (), f1)"
      "capture_ptr f1 (int (curp f1) - 1) JSON_TYPE_OBJECT = (Inl e, g)" "r = Inl e"
  | (e3) e f1 f2 where "test_and_skip f 123 = (Inr (), f1)"
      "capture_ptr f1 (int (curp f1) - 1) JSON_TYPE_OBJECT = (Inr (), f2)"
      "object_loop n f2 = Some (Inl e, g)" "r = Inl e"
  | (e4) e f1 f2 f3 where "test_and_skip f 123 = (Inr (), f1)"
      "capture_ptr f1 (int (curp f1) - 1) JSON_TYPE_OBJECT = (Inr (), f2)"
      "object_loop n f2 = Some (Inr (), f3)" "test_and_skip f3 125 = (Inl e, g)" "r = Inl e"
  | (ok) f1 f2 f3 f4 where "test_and_skip f 123 = (Inr (), f1)"
      "capture_ptr f1 (int (curp f1) - 1) JSON_TYPE_OBJECT = (Inr (), f2)"
      "object_loop n f2 = Some (Inr (), f3)" "test_and_skip f3 125 = (Inr (), f4)"
      "g = snd (capture_len f4 (num_tokens f2 - 1) (int (curp f4)))" "r = Inr ()"
  using assms
  by (auto simp: Let_def split: prod.splits sum.splits option.splits)

lemma array_loop_cases [consumes 1, case_names stop err iter]:
  assumes "array_loop (Suc n) f = Some (r, g)"
  obtains
    (stop) "cur f = (93, g)" "r = Inr ()"
  | (err) ch f1 e where "cur f = (ch, f1)" "ch \<noteq> 93" "parse_value n f1 = Some (Inl e, g)" "r = Inl e"
  | (iter) ch f1 f2 where "cur f = (ch, f1)" "ch \<noteq> 93" "parse_value n f1 = Some (Inr (), f2)"
      "array_loop n (separator f2) = Some (r, g)"
  using assms
  by (auto simp: Let_def split: prod.splits sum.splits option.splits if_splits)

lemma object_loop_cases [consumes 1, case_names stop err iter]:
  assumes "object_loop (Suc n) f = Some (r, g)"
  obtains
    (stop) "cur f = (125, g)" "r = Inr ()"
  | (err) ch f1 e where "cur f = (ch, f1)" "ch \<noteq> 125" "parse_pair n f1 = Some (Inl e, g)" "r = Inl e"
  | (iter) ch f1 f2 where "cur f = (ch, f1)" "ch \<noteq> 125" "parse_pair n f1 = Some (Inr (), f2)"
      "object_loop n (separator f2) = Some (r, g)"
  using assms
  by (auto simp: Let_def split: prod.splits sum.splits option.splits if_splits)

lemma parse_pair_cases [consumes 1, case_names e1 e2 val]:
  assumes "parse_pair (Suc n) f = Some (r, g)"
  obtains
    (e1) e where "parse_key f = (Inl e, g)" "r = Inl e"
  | (e2) e f1 where "parse_key f = (Inr (), f1)" "test_and_skip f1 58 = (Inl e, g)" "r = Inl e"
  | (val) f1 f2 where "parse_key f = (Inr (), f1)" "test_and_skip f1 58 = (Inr (), f2)"
      "parse_value n f2 = Some (r, g)"
  using assms
  by (auto simp: Let_def split: prod.splits sum.splits option.splits if_splits)

lemma advI: "step f g \<Longrightarrow> (r = Inr () \<Longrightarrow> curp f < curp g) \<Longrightarrow> adv f r g"
  by (simp add: adv_def)

lemma adv_seq: "step f f1 \<Longrightarrow> adv f1 r g \<Longrightarrow> adv f r g"
  by (auto simp: adv_def step_def)

lemma adv_seq2: "adv f (Inr ()) f1 \<Longrightarrow> step f1 g \<Longrightarrow> adv f r g"
  by (auto simp: adv_def step_def)

lemma compare_left: "compare f str k \<Longrightarrow> int k \<le> left f"
  by (auto simp: compare_def split: if_splits)

lemma composite_step:
  "holds parse_value n adv \<and> holds parse_array n adv \<and> holds array_loop n (\<lambda>f r g. step f g) \<and>
   holds parse_pair n adv \<and> holds parse_object n adv \<and> holds object_loop n (\<lambda>f r g. step f g)"
proof (induction n)
  case 0
  show ?case by (simp add: holds_def)
next
  case (Suc n)
  then have IHv: "holds parse_value n adv" and IHa: "holds parse_array n adv"
    and IHal: "holds array_loop n (\<lambda>f r g. step f g)" and IHp: "holds parse_pair n adv"
    and IHo: "holds parse_object n adv" and IHol: "holds object_loop n (\<lambda>f r g. step f g)"
    by auto
  have v: "holds parse_value (Suc n) adv"
  proof (rule holdsI)
    fix f r g assume a: "parse_value (Suc n) f = Some (r, g)"
    from a show "adv f r g"
    proof (cases rule: parse_value_cases)
      case (str f1)
      have "step f f1" "adv f1 r g"
        using cur_step [OF str(1)] parse_string_step [OF str(2)] by (auto simp: adv_def)
      then show ?thesis by (rule adv_seq)
    next
      case (obj f1)
      have "step f f1" "adv f1 r g"
        using cur_step [OF obj(1)] holdsD [OF IHo obj(2)] by auto
      then show ?thesis by (rule adv_seq)
    next
      case (arr f1)
      have "step f f1" "adv f1 r g"
        using cur_step [OF arr(1)] holdsD [OF IHa arr(2)] by auto
      then show ?thesis by (rule adv_seq)
    next
      case (lit ch f1 str ty k)
      then have "0 < k" by auto
      then have "step f f1" "adv f1 r g"
        using cur_step [OF lit(1)] parse_literal_step [OF lit(3) compare_left [OF lit(2)]]
        by (auto simp: adv_def)
      then show ?thesis by (rule adv_seq)
    next
      case (num ch f1)
      have "fst (cur f1) = ch" using cur_idem [OF num(1)] by simp
      then have "step f f1" "adv f1 r g"
        using num(3) cur_step [OF num(1)] parse_number_step [OF num(2)]
        by (auto simp: adv_def)
      then show ?thesis by (rule adv_seq)
    next
      case (err ch f1)
      then show ?thesis using cur_step [OF err(1)] by (auto simp: adv_def)
    qed
  qed
  have a: "holds parse_array (Suc n) adv"
  proof (rule holdsI)
    fix f r g assume a: "parse_array (Suc n) f = Some (r, g)"
    from a show "adv f r g"
    proof (cases rule: parse_array_cases)
      case (e1 e)
      then show ?thesis using test_and_skip_step [of f 91 "Inl e" g] by (simp add: adv_def)
    next
      case (e2 e f1)
      then show ?thesis using test_and_skip_step [of f 91 "Inr ()" f1] capture_ptr_step [OF e2(2)]
        by (auto simp: adv_def intro: step_trans)
    next
      case (e3 e f1 f2)
      then show ?thesis using test_and_skip_step [of f 91 "Inr ()" f1] capture_ptr_step [OF e3(2)]
          holdsD [OF IHal e3(3)]
        by (auto simp: adv_def intro: step_trans)
    next
      case (e4 e f1 f2 f3)
      have "step f f1" "step f1 f2" "step f2 f3" "step f3 g"
        using e4 test_and_skip_step [of f 91 "Inr ()" f1] capture_ptr_step [OF e4(2)]
          holdsD [OF IHal e4(3)] test_and_skip_step [of f3 93 "Inl e" g] by auto
      then have "step f g" by (blast intro: step_trans)
      then show ?thesis using e4 by (simp add: adv_def)
    next
      case (ok f1 f2 f3 f4)
      have s: "adv f (Inr ()) f1" "step f1 f2" "step f2 f3" "step f3 f4" "step f4 g"
        using ok test_and_skip_step [of f 91 "Inr ()" f1] capture_ptr_step [OF ok(2)]
          holdsD [OF IHal ok(3)] test_and_skip_step [of f3 93 "Inr ()" f4]
          capture_len_step [of f4 "num_tokens f2 - 1" "int (curp f4)"] by (auto simp: adv_def)
      then have "step f1 g" by (blast intro: step_trans)
      then show ?thesis using s(1) by (rule adv_seq2 [rotated])
    qed
  qed
  have o: "holds parse_object (Suc n) adv"
  proof (rule holdsI)
    fix f r g assume a: "parse_object (Suc n) f = Some (r, g)"
    from a show "adv f r g"
    proof (cases rule: parse_object_cases)
      case (e1 e)
      then show ?thesis using test_and_skip_step [of f 123 "Inl e" g] by (simp add: adv_def)
    next
      case (e2 e f1)
      then show ?thesis using test_and_skip_step [of f 123 "Inr ()" f1] capture_ptr_step [OF e2(2)]
        by (auto simp: adv_def intro: step_trans)
    next
      case (e3 e f1 f2)
      then show ?thesis using test_and_skip_step [of f 123 "Inr ()" f1] capture_ptr_step [OF e3(2)]
          holdsD [OF IHol e3(3)]
        by (auto simp: adv_def intro: step_trans)
    next
      case (e4 e f1 f2 f3)
      have "step f f1" "step f1 f2" "step f2 f3" "step f3 g"
        using e4 test_and_skip_step [of f 123 "Inr ()" f1] capture_ptr_step [OF e4(2)]
          holdsD [OF IHol e4(3)] test_and_skip_step [of f3 125 "Inl e" g] by auto
      then have "step f g" by (blast intro: step_trans)
      then show ?thesis using e4 by (simp add: adv_def)
    next
      case (ok f1 f2 f3 f4)
      have s: "adv f (Inr ()) f1" "step f1 f2" "step f2 f3" "step f3 f4" "step f4 g"
        using ok test_and_skip_step [of f 123 "Inr ()" f1] capture_ptr_step [OF ok(2)]
          holdsD [OF IHol ok(3)] test_and_skip_step [of f3 125 "Inr ()" f4]
          capture_len_step [of f4 "num_tokens f2 - 1" "int (curp f4)"] by (auto simp: adv_def)
      then have "step f1 g" by (blast intro: step_trans)
      then show ?thesis using s(1) by (rule adv_seq2 [rotated])
    qed
  qed
  have al: "holds array_loop (Suc n) (\<lambda>f r g. step f g)"
  proof (rule holdsI)
    fix f r g assume a: "array_loop (Suc n) f = Some (r, g)"
    from a show "step f g"
    proof (cases rule: array_loop_cases)
      case stop
      then show ?thesis by (simp add: cur_step)
    next
      case (err ch f1 e)
      then show ?thesis using cur_step [OF err(1)] holdsD [OF IHv err(3)]
        by (auto simp: adv_def intro: step_trans)
    next
      case (iter ch f1 f2)
      have "step f f1" "step f1 f2" "step f2 (separator f2)" "step (separator f2) g"
        using cur_step [OF iter(1)] holdsD [OF IHv iter(3)] separator_step holdsD [OF IHal iter(4)]
        by (auto simp: adv_def)
      then show ?thesis by (blast intro: step_trans)
    qed
  qed
  have ol: "holds object_loop (Suc n) (\<lambda>f r g. step f g)"
  proof (rule holdsI)
    fix f r g assume a: "object_loop (Suc n) f = Some (r, g)"
    from a show "step f g"
    proof (cases rule: object_loop_cases)
      case stop
      then show ?thesis by (simp add: cur_step)
    next
      case (err ch f1 e)
      then show ?thesis using cur_step [OF err(1)] holdsD [OF IHp err(3)]
        by (auto simp: adv_def intro: step_trans)
    next
      case (iter ch f1 f2)
      have "step f f1" "step f1 f2" "step f2 (separator f2)" "step (separator f2) g"
        using cur_step [OF iter(1)] holdsD [OF IHp iter(3)] separator_step holdsD [OF IHol iter(4)]
        by (auto simp: adv_def)
      then show ?thesis by (blast intro: step_trans)
    qed
  qed
  have p: "holds parse_pair (Suc n) adv"
  proof (rule holdsI)
    fix f r g assume a: "parse_pair (Suc n) f = Some (r, g)"
    from a show "adv f r g"
    proof (cases rule: parse_pair_cases)
      case (e1 e)
      then show ?thesis using parse_key_step [of f "Inl e" g] by (simp add: adv_def)
    next
      case (e2 e f1)
      then show ?thesis using parse_key_step [of f "Inr ()" f1] test_and_skip_step [of f1 58 "Inl e" g]
        by (auto simp: adv_def intro: step_trans)
    next
      case (val f1 f2)
      have "step f f1" "step f1 f2" "adv f2 r g"
        using parse_key_step [OF val(1)] test_and_skip_step [OF val(2)] holdsD [OF IHv val(3)]
        by auto
      then show ?thesis by (blast intro: step_trans adv_seq)
    qed
  qed
  show ?case using v a al p o ol by simp
qed

lemmas parse_value_adv = composite_step [THEN conjunct1, THEN holdsD]

lemmas parse_array_adv = composite_step [THEN conjunct2, THEN conjunct1, THEN holdsD]

lemmas array_loop_step = composite_step [THEN conjunct2, THEN conjunct2, THEN conjunct1, THEN holdsD]

lemmas parse_pair_adv = composite_step [THEN conjunct2, THEN conjunct2, THEN conjunct2, THEN conjunct1, THEN holdsD]

lemmas parse_object_adv = composite_step [THEN conjunct2, THEN conjunct2, THEN conjunct2, THEN conjunct2, THEN conjunct1, THEN holdsD]

lemmas object_loop_step = composite_step [THEN conjunct2, THEN conjunct2, THEN conjunct2, THEN conjunct2, THEN conjunct2, THEN holdsD]

declare parse_value.simps [simp del] parse_array.simps [simp del] array_loop.simps [simp del]
  parse_pair.simps [simp del] parse_object.simps [simp del] object_loop.simps [simp del]

lemmas parse_value_Suc = parse_value.simps(2)

lemmas parse_array_Suc = parse_array.simps(2)

lemmas array_loop_Suc = array_loop.simps(2)

lemmas parse_pair_Suc = parse_pair.simps(2)

lemmas parse_object_Suc = parse_object.simps(2)

lemmas object_loop_Suc = object_loop.simps(2)

lemma parse_value_kind:
  "parse_value (Suc n) f =
     (case cur f of (ch, f1) \<Rightarrow>
        (case value_kind ch f1 of
           KString \<Rightarrow> Some (parse_string f1)
         | KObject \<Rightarrow> parse_object n f1
         | KArray \<Rightarrow> parse_array n f1
         | KLit ty k \<Rightarrow> Some (parse_literal f1 ty k)
         | KNumber \<Rightarrow> Some (parse_number f1)
         | KError \<Rightarrow> Some (Inl (if ch = END_OF_STRING then JSON_STRING_INCOMPLETE
                                  else JSON_STRING_INVALID), f1)))"
  by (subst parse_value_Suc) (simp add: value_kind_def Let_def split: prod.splits)

lemma fuel_monoD: "fuel_mono X n \<Longrightarrow> X n f \<noteq> None \<Longrightarrow> X (Suc n) f = X n f"
  by (simp add: fuel_mono_def)

lemma fuel_monoI:
  "(\<And>f r g. X n f = Some (r, g) \<Longrightarrow> X (Suc n) f = Some (r, g)) \<Longrightarrow> fuel_mono X n"
  by (auto simp: fuel_mono_def)

lemma fuel_Suc:
  "fuel_mono parse_value n \<and> fuel_mono parse_array n \<and> fuel_mono array_loop n \<and>
   fuel_mono parse_pair n \<and> fuel_mono parse_object n \<and> fuel_mono object_loop n"
proof (induction n)
  case 0
  show ?case
    by (simp add: fuel_mono_def parse_value.simps parse_array.simps array_loop.simps
        parse_pair.simps parse_object.simps object_loop.simps)
next
  case (Suc n)
  then have IHs: "fuel_mono parse_value n" "fuel_mono parse_array n" "fuel_mono array_loop n"
    "fuel_mono parse_pair n" "fuel_mono parse_object n" "fuel_mono object_loop n"
    by auto
  note IH = IHs [THEN fuel_monoD]
  have v: "fuel_mono parse_value (Suc n)"
  proof (rule fuel_monoI)
    fix f r g assume a: "parse_value (Suc n) f = Some (r, g)"
    obtain ch f1 where c: "cur f = (ch, f1)" by (cases "cur f")
    show "parse_value (Suc (Suc n)) f = Some (r, g)"
      using a by (cases "value_kind ch f1") (simp_all add: parse_value_kind c IH)
  qed
  have a: "fuel_mono parse_array (Suc n)"
  proof (rule fuel_monoI)
    fix f r g assume a: "parse_array (Suc n) f = Some (r, g)"
    then show "parse_array (Suc (Suc n)) f = Some (r, g)"
      by (cases rule: parse_array_cases) (subst parse_array_Suc, simp add: IH)+
  qed
  have al: "fuel_mono array_loop (Suc n)"
  proof (rule fuel_monoI)
    fix f r g assume a: "array_loop (Suc n) f = Some (r, g)"
    then show "array_loop (Suc (Suc n)) f = Some (r, g)"
      by (cases rule: array_loop_cases) (subst array_loop_Suc, simp add: IH)+
  qed
  have p: "fuel_mono parse_pair (Suc n)"
  proof (rule fuel_monoI)
    fix f r g assume a: "parse_pair (Suc n) f = Some (r, g)"
    then show "parse_pair (Suc (Suc n)) f = Some (r, g)"
      by (cases rule: parse_pair_cases) (subst parse_pair_Suc, simp add: IH)+
  qed
  have o: "fuel_mono parse_object (Suc n)"
  proof (rule fuel_monoI)
    fix f r g assume a: "parse_object (Suc n) f = Some (r, g)"
    then show "parse_object (Suc (Suc n)) f = Some (r, g)"
      by (cases rule: parse_object_cases) (subst parse_object_Suc, simp add: IH)+
  qed
  have ol: "fuel_mono object_loop (Suc n)"
  proof (rule fuel_monoI)
    fix f r g assume a: "object_loop (Suc n) f = Some (r, g)"
    then show "object_loop (Suc (Suc n)) f = Some (r, g)"
      by (cases rule: object_loop_cases) (subst object_loop_Suc, simp add: IH)+
  qed
  show ?case using v a al p o ol by simp
qed

lemma parse_object_fuel: "parse_object n f = Some v \<Longrightarrow> n \<le> m \<Longrightarrow> parse_object m f = Some v"
proof (induction m)
  case 0
  then show ?case by simp
next
  case (Suc m)
  show ?case
  proof (cases "n = Suc m")
    case True
    then show ?thesis using Suc.prems by simp
  next
    case False
    then have "parse_object m f = Some v" using Suc by simp
    then show ?thesis using fuel_Suc [of m] fuel_monoD [of parse_object m f] by auto
  qed
qed

lemma parse_value_None:
  "parse_value (Suc n) f = None \<Longrightarrow>
   \<exists>ch f1. cur f = (ch, f1) \<and> (parse_object n f1 = None \<or> parse_array n f1 = None)"
  by (subst (asm) parse_value_Suc) (auto simp: Let_def split: prod.splits if_splits)

lemma parse_array_None:
  "parse_array (Suc n) f = None \<Longrightarrow>
   \<exists>f1 f2. test_and_skip f 91 = (Inr (), f1) \<and>
     capture_ptr f1 (int (curp f1) - 1) JSON_TYPE_ARRAY = (Inr (), f2) \<and> array_loop n f2 = None"
  by (subst (asm) parse_array_Suc) (auto simp: Let_def split: prod.splits sum.splits option.splits)

lemma parse_object_None:
  "parse_object (Suc n) f = None \<Longrightarrow>
   \<exists>f1 f2. test_and_skip f 123 = (Inr (), f1) \<and>
     capture_ptr f1 (int (curp f1) - 1) JSON_TYPE_OBJECT = (Inr (), f2) \<and> object_loop n f2 = None"
  by (subst (asm) parse_object_Suc) (auto simp: Let_def split: prod.splits sum.splits option.splits)

lemma array_loop_None:
  "array_loop (Suc n) f = None \<Longrightarrow>
   \<exists>ch f1. cur f = (ch, f1) \<and> (parse_value n f1 = None \<or>
      (\<exists>f2. parse_value n f1 = Some (Inr (), f2) \<and> array_loop n (separator f2) = None))"
  by (subst (asm) array_loop_Suc)
     (auto simp: Let_def split: prod.splits sum.splits option.splits if_splits)

lemma object_loop_None:
  "object_loop (Suc n) f = None \<Longrightarrow>
   \<exists>ch f1. cur f = (ch, f1) \<and> (parse_pair n f1 = None \<or>
      (\<exists>f2. parse_pair n f1 = Some (Inr (), f2) \<and> object_loop n (separator f2) = None))"
  by (subst (asm) object_loop_Suc)
     (auto simp: Let_def split: prod.splits sum.splits option.splits if_splits)

lemma parse_pair_None:
  "parse_pair (Suc n) f = None \<Longrightarrow>
   \<exists>f1 f2. parse_key f = (Inr (), f1) \<and> test_and_skip f1 58 = (Inr (), f2) \<and>
      parse_value n f2 = None"
  by (subst (asm) parse_pair_Suc) (auto simp: Let_def split: prod.splits sum.splits option.splits)

lemma enoughD:
  "enough X k n \<Longrightarrow> curp f \<le> endp f \<Longrightarrow> 4 * (endp f - curp f) + k < n \<Longrightarrow> X n f \<noteq> None"
  by (auto simp: enough_def)

lemma step_rem: "step f g \<Longrightarrow> curp f \<le> endp f \<Longrightarrow>
   curp g \<le> endp g \<and> endp g - curp g \<le> endp f - curp f \<and> endp g = endp f"
  by (auto simp: step_def)

lemma adv_rem: "adv f (Inr ()) g \<Longrightarrow> curp f \<le> endp f \<Longrightarrow>
   curp g \<le> endp g \<and> endp g - curp g < endp f - curp f \<and> endp g = endp f"
  by (auto simp: step_def adv_def)

lemma fuel_enough:
  "enough parse_value 2 n \<and> enough parse_array 1 n \<and> enough array_loop 3 n \<and>
   enough parse_pair 3 n \<and> enough parse_object 1 n \<and> enough object_loop 4 n"
proof (induction n)
  case 0
  show ?case by (simp add: enough_def)
next
  case (Suc n)
  then have IHv: "enough parse_value 2 n" and IHa: "enough parse_array 1 n"
    and IHal: "enough array_loop 3 n" and IHp: "enough parse_pair 3 n"
    and IHo: "enough parse_object 1 n" and IHol: "enough object_loop 4 n"
    by auto
  have v: "enough parse_value 2 (Suc n)"
    unfolding enough_def
  proof (intro allI impI notI)
    fix f :: frozen assume b: "curp f \<le> endp f" "4 * (endp f - curp f) + 2 < Suc n"
    assume "parse_value (Suc n) f = None"
    then obtain ch f1 where c: "cur f = (ch, f1)"
      and n: "parse_object n f1 = None \<or> parse_array n f1 = None"
      using parse_value_None by blast
    note r = step_rem [OF cur_step [OF c] b(1)]
    have "parse_object n f1 \<noteq> None" "parse_array n f1 \<noteq> None"
      using enoughD [OF IHo, of f1] enoughD [OF IHa, of f1] r b by auto
    then show False using n by auto
  qed
  have a: "enough parse_array 1 (Suc n)"
    unfolding enough_def
  proof (intro allI impI notI)
    fix f :: frozen assume b: "curp f \<le> endp f" "4 * (endp f - curp f) + 1 < Suc n"
    assume "parse_array (Suc n) f = None"
    then obtain f1 f2 where t: "test_and_skip f 91 = (Inr (), f1)"
      "capture_ptr f1 (int (curp f1) - 1) JSON_TYPE_ARRAY = (Inr (), f2)" "array_loop n f2 = None"
      using parse_array_None by blast
    have "adv f (Inr ()) f1" using test_and_skip_step [OF t(1)] by (simp add: adv_def)
    note r1 = adv_rem [OF this b(1)]
    have "step f1 f2" using capture_ptr_step [OF t(2)] by simp
    note r2 = step_rem [OF this] r1
    show False using enoughD [OF IHal, of f2] r2 b t(3) by auto
  qed
  have o: "enough parse_object 1 (Suc n)"
    unfolding enough_def
  proof (intro allI impI notI)
    fix f :: frozen assume b: "curp f \<le> endp f" "4 * (endp f - curp f) + 1 < Suc n"
    assume "parse_object (Suc n) f = None"
    then obtain f1 f2 where t: "test_and_skip f 123 = (Inr (), f1)"
      "capture_ptr f1 (int (curp f1) - 1) JSON_TYPE_OBJECT = (Inr (), f2)" "object_loop n f2 = None"
      using parse_object_None by blast
    have "adv f (Inr ()) f1" using test_and_skip_step [OF t(1)] by (simp add: adv_def)
    note r1 = adv_rem [OF this b(1)]
    have "step f1 f2" using capture_ptr_step [OF t(2)] by simp
    note r2 = step_rem [OF this] r1
    show False using enoughD [OF IHol, of f2] r2 b t(3) by auto
  qed
  have al: "enough array_loop 3 (Suc n)"
    unfolding enough_def
  proof (intro allI impI notI)
    fix f :: frozen assume b: "curp f \<le> endp f" "4 * (endp f - curp f) + 3 < Suc n"
    assume "array_loop (Suc n) f = None"
    then obtain ch f1 where c: "cur f = (ch, f1)" and n: "parse_value n f1 = None \<or>
      (\<exists>f2. parse_value n f1 = Some (Inr (), f2) \<and> array_loop n (separator f2) = None)"
      using array_loop_None by blast
    note r = step_rem [OF cur_step [OF c] b(1)]
    have 1: "parse_value n f1 \<noteq> None"
      using enoughD [OF IHv, of f1] r b by auto
    have 2: "array_loop n (separator f2) \<noteq> None" if "parse_value n f1 = Some (Inr (), f2)" for f2
    proof -
      note r2 = adv_rem [OF parse_value_adv [OF that]] r
      note r3 = step_rem [OF separator_step [of f2]] r2
      show ?thesis using enoughD [OF IHal, of "separator f2"] r r2 r3 b by auto
    qed
    show False using 1 2 n by auto
  qed
  have ol: "enough object_loop 4 (Suc n)"
    unfolding enough_def
  proof (intro allI impI notI)
    fix f :: frozen assume b: "curp f \<le> endp f" "4 * (endp f - curp f) + 4 < Suc n"
    assume "object_loop (Suc n) f = None"
    then obtain ch f1 where c: "cur f = (ch, f1)" and n: "parse_pair n f1 = None \<or>
      (\<exists>f2. parse_pair n f1 = Some (Inr (), f2) \<and> object_loop n (separator f2) = None)"
      using object_loop_None by blast
    note r = step_rem [OF cur_step [OF c] b(1)]
    have 1: "parse_pair n f1 \<noteq> None"
      using enoughD [OF IHp, of f1] r b by auto
    have 2: "object_loop n (separator f2) \<noteq> None" if "parse_pair n f1 = Some (Inr (), f2)" for f2
    proof -
      note r2 = adv_rem [OF parse_pair_adv [OF that]] r
      note r3 = step_rem [OF separator_step [of f2]] r2
      show ?thesis using enoughD [OF IHol, of "separator f2"] r r2 r3 b by auto
    qed
    show False using 1 2 n by auto
  qed
  have p: "enough parse_pair 3 (Suc n)"
    unfolding enough_def
  proof (intro allI impI notI)
    fix f :: frozen assume b: "curp f \<le> endp f" "4 * (endp f - curp f) + 3 < Suc n"
    assume "parse_pair (Suc n) f = None"
    then obtain f1 f2 where t: "parse_key f = (Inr (), f1)" "test_and_skip f1 58 = (Inr (), f2)"
      "parse_value n f2 = None"
      using parse_pair_None by blast
    have "step f f1" using parse_key_step [OF t(1)] by simp
    note r1 = step_rem [OF this b(1)]
    have "adv f1 (Inr ()) f2" using test_and_skip_step [OF t(2)] by (simp add: adv_def)
    note r2 = adv_rem [OF this] r1
    show False using enoughD [OF IHv, of f2] r1 r2 b t(3) by auto
  qed
  show ?case using v a al p o ol by simp
qed

section \<open>The driver is total\<close>

lemma init_frozen_sel [simp]:
  "buf (init_frozen s s_len arr arr_len) = s"
  "endp (init_frozen s s_len arr arr_len) = nat s_len"
  "curp (init_frozen s s_len arr arr_len) = 0"
  "tokens (init_frozen s s_len arr arr_len) = arr"
  "max_tokens (init_frozen s s_len arr arr_len) = arr_len"
  "num_tokens (init_frozen s s_len arr arr_len) = 0"
  by (simp_all add: init_frozen_def)

lemma parse_object_enough:
  "curp f \<le> endp f \<Longrightarrow> 4 * (endp f - curp f) + 2 \<le> n \<Longrightarrow> parse_object n f \<noteq> None"
  using fuel_enough [of n] enoughD [of parse_object 1 n f] by auto

lemma parse_json_fuel_Some:
  "4 * nat s_len + 2 \<le> n \<Longrightarrow> parse_json_fuel n s s_len arr arr_len \<noteq> None"
  using parse_object_enough [of "init_frozen (case s of None \<Rightarrow> [] | Some b \<Rightarrow> b) s_len arr arr_len" n]
  by (auto simp: parse_json_fuel_def Let_def split: option.splits sum.splits prod.splits)

lemma parse_json_fuel_unfold:
  "0 < s_len \<Longrightarrow>
   parse_json_fuel n (Some b) s_len arr arr_len =
     map_option finish (parse_object n (init_frozen b s_len arr arr_len))"
  by (simp add: parse_json_fuel_def finish_def Let_def split: option.splits sum.splits prod.splits)

lemma parse_json_fuel_mono:
  assumes "parse_json_fuel n s s_len arr arr_len = Some v" "n \<le> m"
  shows "parse_json_fuel m s s_len arr arr_len = Some v"
proof (cases "s = None \<or> s_len \<le> 0")
  case True
  then show ?thesis using assms(1) by (auto simp: parse_json_fuel_def Let_def)
next
  case False
  then obtain b where s: "s = Some b" and l: "0 < s_len" by auto
  obtain w where w: "parse_object n (init_frozen b s_len arr arr_len) = Some w"
    using assms(1) by (auto simp: s parse_json_fuel_unfold [OF l])
  have "parse_object m (init_frozen b s_len arr arr_len) = Some w"
    using w assms(2) by (rule parse_object_fuel)
  then show ?thesis using assms(1) w by (simp add: s parse_json_fuel_unfold [OF l])
qed

lemma parse_json_fuel_total:
  assumes "4 * nat s_len + 2 \<le> n"
  shows "parse_json_fuel n s s_len arr arr_len = Some (parse_json s s_len arr arr_len)"
proof -
  obtain v where v: "parse_json_fuel (4 * nat s_len + 2) s s_len arr arr_len = Some v"
    using parse_json_fuel_Some [of s_len "4 * nat s_len + 2" s arr arr_len] by auto
  then have "parse_json s s_len arr arr_len = v" by (simp add: parse_json_def)
  then show ?thesis using parse_json_fuel_mono [OF v assms] by simp
qed

lemma parse_json_guard:
  "s = None \<or> s_len < 0 \<Longrightarrow>
   parse_json s s_len arr arr_len =
     (Inl JSON_STRING_INVALID, init_frozen (case s of None \<Rightarrow> [] | Some b \<Rightarrow> b) s_len arr arr_len)"
  by (auto simp: parse_json_def parse_json_fuel_def Let_def)

lemma parse_json_empty:
  "parse_json (Some b) 0 arr arr_len = (Inl JSON_STRING_INCOMPLETE, init_frozen b 0 arr arr_len)"
  by (simp add: parse_json_def parse_json_fuel_def Let_def)

lemma parse_json_unfold:
  assumes "0 < s_len"
  shows "parse_json (Some b) s_len arr arr_len =
     finish (the (parse_object (4 * nat s_len + 2) (init_frozen b s_len arr arr_len)))"
proof -
  have "parse_object (4 * nat s_len + 2) (init_frozen b s_len arr arr_len) \<noteq> None"
    by (rule parse_object_enough) simp_all
  then show ?thesis
    by (auto simp: parse_json_def parse_json_fuel_unfold [OF assms])
qed

lemma parse_object_not_brace:
  assumes "cur f = (ch, f1)" "ch \<noteq> 123" "parse_object (Suc n) f = Some (r, g)"
  shows "r = Inl (if ch = END_OF_STRING then JSON_STRING_INCOMPLETE else JSON_STRING_INVALID) \<and> g = f1"
  using assms by (subst (asm) parse_object_Suc) (simp add: test_and_skip_def)


section \<open>The driver's guards and the root rule\<close>

text \<open>
  C10, as the code has it. The claim says that a null pointer with a zero length gives
  Incomplete; the null-pointer guard comes first, so that call gives Invalid.
\<close>

theorem C10_null_zero_counterexample:
  "fst (parse_json None 0 None 0) \<noteq> Inl JSON_STRING_INCOMPLETE"
  by (simp add: parse_json_guard)

text \<open>
  C10 (amended): a null input pointer or a negative length gives Invalid, whatever the
  length or the bytes are; a non-null pointer with length zero gives Incomplete, whatever
  the bytes are. In both cases the token array is the caller's, unchanged, and no token
  is counted.
\<close>

theorem C10_guards:
  "(s = None \<or> s_len < 0 \<longrightarrow>
      fst (parse_json s s_len arr arr_len) = Inl JSON_STRING_INVALID \<and>
      tokens (snd (parse_json s s_len arr arr_len)) = arr \<and>
      num_tokens (snd (parse_json s s_len arr arr_len)) = 0) \<and>
   fst (parse_json (Some b) 0 arr arr_len) = Inl JSON_STRING_INCOMPLETE \<and>
   tokens (snd (parse_json (Some b) 0 arr arr_len)) = arr \<and>
   num_tokens (snd (parse_json (Some b) 0 arr arr_len)) = 0"
  by (simp add: parse_json_guard parse_json_empty)

theorem C10_guards_witness:
  "fst (parse_json (Some ''{}'') (- 1) (Some []) 3) = Inl JSON_STRING_INVALID \<and>
   tokens (snd (parse_json (Some ''{}'') (- 1) (Some []) 3)) = Some [] \<and>
   fst (parse_json (Some ''{}'') 0 (Some []) 3) = Inl JSON_STRING_INCOMPLETE"
  using C10_guards [of "Some ''{}''" "- 1" "Some []" 3 "''{}''"] by simp

text \<open>
  C4: when the first significant character of the input (what \<open>cur\<close> returns at the
  start) is not the opening brace, the call fails: with Incomplete when there is no
  significant character at all, with Invalid otherwise. In particular the root array
  \<open>[1,2,3]\<close> gives Invalid.
\<close>

theorem C4_root_must_be_object:
  "(0 < s_len \<and> fst (cur (init_frozen b s_len arr arr_len)) \<noteq> 123 \<longrightarrow>
      fst (parse_json (Some b) s_len arr arr_len) =
        Inl (if fst (cur (init_frozen b s_len arr arr_len)) = END_OF_STRING
             then JSON_STRING_INCOMPLETE else JSON_STRING_INVALID)) \<and>
   fst (parse_json (Some ''[1,2,3]'') 7 arr arr_len) = Inl JSON_STRING_INVALID"
proof -
  have gen: "fst (parse_json (Some b) s_len arr arr_len) =
        Inl (if fst (cur (init_frozen b s_len arr arr_len)) = END_OF_STRING
             then JSON_STRING_INCOMPLETE else JSON_STRING_INVALID)"
    if l: "0 < s_len" and c: "fst (cur (init_frozen b s_len arr arr_len)) \<noteq> 123"
    for b s_len
  proof -
    define f0 where "f0 = init_frozen b s_len arr arr_len"
    obtain ch f1 where ch: "cur f0 = (ch, f1)" by (cases "cur f0")
    have "parse_object (Suc (4 * nat s_len + 1)) f0 \<noteq> None"
      by (rule parse_object_enough) (simp_all add: f0_def)
    then obtain r g where p: "parse_object (Suc (4 * nat s_len + 1)) f0 = Some (r, g)" by auto
    have "r = Inl (if ch = END_OF_STRING then JSON_STRING_INCOMPLETE else JSON_STRING_INVALID)"
      using parse_object_not_brace [OF ch _ p] c ch by (simp add: f0_def)
    then show ?thesis using p ch
      by (simp add: parse_json_unfold [OF l] f0_def [symmetric] finish_def)
  qed
  have "fst (cur (init_frozen ''[1,2,3]'' 7 arr arr_len)) = 91"
    by (simp add: cur_def init_frozen_def skip_whitespaces.simps byte_at_def is_space_def Let_def)
  then show ?thesis using gen [of 7 "''[1,2,3]''"] gen
    by (simp add: END_OF_STRING_def)
qed

theorem C4_root_must_be_object_witness:
  "fst (parse_json (Some ''17'') 2 None 0) = Inl JSON_STRING_INVALID"
proof -
  have "fst (cur (init_frozen ''17'' 2 None 0)) = 49"
    by (simp add: cur_def init_frozen_def skip_whitespaces.simps byte_at_def is_space_def Let_def)
  then show ?thesis using C4_root_must_be_object [of 2 "''17''" None 0]
    by (simp add: END_OF_STRING_def)
qed

section \<open>Escapes and the end-of-input marker, evaluated\<close>

text \<open>
  C1 at an object of 12 bytes: the bare key \<open>a\<close>, and as its value the string
  made of a backslash, \<open>u\<close> and \<open>1234\<close>. The claim says that the escape is accepted;
  \<open>get_escape_len\<close> tests \<open>s[0]\<close>, which is the \<open>u\<close>, for a hex digit, so the call gives
  Invalid.
\<close>

theorem C1_unicode_escape_rejected:
  "fst (parse_json (Some (''{a:'' @ [CHR 0x22, CHR 0x5C] @ ''u1234'' @ [CHR 0x22] @ ''}'')) 12 None 0)
     = Inl JSON_STRING_INVALID"
  by code_simp

text \<open>
  C2 at the input \<open>{}\<close> with a two-slot array whose slots hold length 7 and subtree size 7
  before the call: the claim says that the marker has length zero and subtree size zero;
  the driver passes index \<open>num_tokens\<close>, one past the marker, to \<open>capture_len\<close>, so the
  marker keeps what the slot held.
\<close>

theorem C2_marker_length_not_set:
  "tokens (snd (parse_json (Some ''{}'') 2
      (Some [\<lparr>ptr = 7, len = 7, num_children = 7, type = JSON_TYPE_NULL\<rparr>,
             \<lparr>ptr = 7, len = 7, num_children = 7, type = JSON_TYPE_NULL\<rparr>]) 2)) =
   Some [\<lparr>ptr = 0, len = 2, num_children = 0, type = JSON_TYPE_OBJECT\<rparr>,
         \<lparr>ptr = 2, len = 7, num_children = 7, type = JSON_TYPE_EOF\<rparr>]"
  by code_simp

section \<open>The scanner loops as functions of the bytes\<close>

lemma byte_at_byte: "byte_at f i = byte (buf f) i"
  by (simp add: byte_at_def byte_def)

lemma get_escape_len_buf: "buf f = buf f' \<Longrightarrow> get_escape_len f p n = get_escape_len f' p n"
  unfolding get_escape_len_def byte_at_byte by (simp only:)

lemma scan_while_ge: "i \<le> scan_while P b e i"
proof (induction "e - i" arbitrary: i rule: less_induct)
  case less
  show ?case
  proof (cases "i < e \<and> P (byte b i)")
    case True
    then have "i + 1 \<le> scan_while P b e (i + 1)" by (intro less) auto
    then show ?thesis using True by (subst scan_while.simps) simp
  next
    case False
    then show ?thesis by (subst scan_while.simps) auto
  qed
qed

lemma scan_while_le: "i \<le> e \<Longrightarrow> scan_while P b e i \<le> e"
proof (induction "e - i" arbitrary: i rule: less_induct)
  case less
  show ?case
  proof (cases "i < e \<and> P (byte b i)")
    case True
    then have "scan_while P b e (i + 1) \<le> e" by (intro less) auto
    then show ?thesis using True by (subst scan_while.simps) simp
  next
    case False
    then show ?thesis using less.prems by (subst scan_while.simps) auto
  qed
qed

lemma scan_while_unique:
  assumes "i \<le> q" "\<forall>j. i \<le> j \<and> j < q \<longrightarrow> j < e \<and> P (byte b j)" "\<not> (q < e \<and> P (byte b q))"
  shows "scan_while P b e i = q"
  using assms
proof (induction "q - i" arbitrary: i rule: less_induct)
  case less
  show ?case
  proof (cases "i = q")
    case True
    then show ?thesis using less.prems by (subst scan_while.simps) auto
  next
    case False
    then have lt: "i < q" using less.prems by simp
    then have c: "i < e \<and> P (byte b i)" using less.prems by auto
    have "scan_while P b e (i + 1) = q" using lt less.prems by (intro less) auto
    then show ?thesis using c by (subst scan_while.simps) simp
  qed
qed

lemma scan_while_spec:
  "(\<forall>j. i \<le> j \<and> j < scan_while P b e i \<longrightarrow> j < e \<and> P (byte b j)) \<and>
   \<not> (scan_while P b e i < e \<and> P (byte b (scan_while P b e i)))"
proof (induction "e - i" arbitrary: i rule: less_induct)
  case less
  show ?case
  proof (cases "i < e \<and> P (byte b i)")
    case True
    then have eq: "scan_while P b e i = scan_while P b e (i + 1)"
      by (subst scan_while.simps) simp
    have IH: "(\<forall>j. i + 1 \<le> j \<and> j < scan_while P b e (i + 1) \<longrightarrow> j < e \<and> P (byte b j)) \<and>
       \<not> (scan_while P b e (i + 1) < e \<and> P (byte b (scan_while P b e (i + 1))))"
      using True by (intro less) auto
    have "j < e \<and> P (byte b j)" if j: "i \<le> j \<and> j < scan_while P b e (i + 1)" for j
    proof (cases "j = i")
      case True
      then show ?thesis using \<open>i < e \<and> P (byte b i)\<close> by simp
    next
      case False
      then have "i + 1 \<le> j" using j by simp
      then show ?thesis using IH j by blast
    qed
    then show ?thesis unfolding eq using IH by blast
  next
    case False
    then have "scan_while P b e i = i" by (subst scan_while.simps) auto
    then show ?thesis using False by auto
  qed
qed

lemma skip_whitespaces_pure:
  "skip_whitespaces f = f\<lparr>curp := scan_while is_space (buf f) (endp f) (curp f)\<rparr>"
proof (induction "endp f - curp f" arbitrary: f rule: less_induct)
  case less
  show ?case
  proof (cases "curp f < endp f \<and> is_space (byte_at f (curp f))")
    case True
    have "skip_whitespaces (f\<lparr>curp := curp f + 1\<rparr>) =
      f\<lparr>curp := curp f + 1\<rparr>\<lparr>curp := scan_while is_space (buf f) (endp f) (curp f + 1)\<rparr>"
      using less [of "f\<lparr>curp := curp f + 1\<rparr>"] True by auto
    then show ?thesis using True
      by (subst skip_whitespaces.simps, subst scan_while.simps) (simp add: byte_at_byte)
  next
    case False
    then show ?thesis
      by (subst skip_whitespaces.simps, subst scan_while.simps) (auto simp: byte_at_byte)
  qed
qed

lemma identifier_loop_pure:
  "identifier_loop f = f\<lparr>curp := scan_while is_ident (buf f) (endp f) (curp f)\<rparr>"
proof (induction "endp f - curp f" arbitrary: f rule: less_induct)
  case less
  show ?case
  proof (cases "curp f < endp f \<and> is_ident (byte_at f (curp f))")
    case True
    have "identifier_loop (f\<lparr>curp := curp f + 1\<rparr>) =
      f\<lparr>curp := curp f + 1\<rparr>\<lparr>curp := scan_while is_ident (buf f) (endp f) (curp f + 1)\<rparr>"
      using less [of "f\<lparr>curp := curp f + 1\<rparr>"] True by auto
    then show ?thesis using True
      by (subst identifier_loop.simps, subst scan_while.simps) (simp add: byte_at_byte is_ident_def)
  next
    case False
    then show ?thesis
      by (subst identifier_loop.simps, subst scan_while.simps) (auto simp: byte_at_byte is_ident_def)
  qed
qed

lemma number_loop_pure:
  "number_loop f = f\<lparr>curp := scan_while is_digit (buf f) (endp f) (curp f)\<rparr>"
proof (induction "endp f - curp f" arbitrary: f rule: less_induct)
  case less
  show ?case
  proof (cases "curp f < endp f \<and> is_digit (byte_at f (curp f))")
    case True
    have "number_loop (f\<lparr>curp := curp f + 1\<rparr>) =
      f\<lparr>curp := curp f + 1\<rparr>\<lparr>curp := scan_while is_digit (buf f) (endp f) (curp f + 1)\<rparr>"
      using less [of "f\<lparr>curp := curp f + 1\<rparr>"] True by auto
    then show ?thesis using True
      by (subst number_loop.simps, subst scan_while.simps) (simp add: byte_at_byte)
  next
    case False
    then show ?thesis
      by (subst number_loop.simps, subst scan_while.simps) (auto simp: byte_at_byte)
  qed
qed

lemma compare_loop_pure:
  "i \<le> n \<Longrightarrow> (compare_loop f str n i = n) =
     (\<forall>j. i \<le> j \<and> j < n \<longrightarrow> byte (buf f) (curp f + j) = of_char (str ! j))"
proof (induction "n - i" arbitrary: i rule: less_induct)
  case less
  show ?case
  proof (cases "i < n \<and> byte_at f (curp f + i) = of_char (str ! i)")
    case True
    then have eq: "compare_loop f str n i = compare_loop f str n (i + 1)"
      by (subst compare_loop.simps) simp
    have h: "(compare_loop f str n (i + 1) = n) =
       (\<forall>j. i + 1 \<le> j \<and> j < n \<longrightarrow> byte (buf f) (curp f + j) = of_char (str ! j))"
      using True by (intro less) auto
    have "byte (buf f) (curp f + j) = of_char (str ! j)"
      if "\<forall>j. i + 1 \<le> j \<and> j < n \<longrightarrow> byte (buf f) (curp f + j) = of_char (str ! j)"
         "i \<le> j" "j < n" for j
    proof (cases "j = i")
      case True
      then show ?thesis using \<open>i < n \<and> byte_at f (curp f + i) = of_char (str ! i)\<close>
        by (simp add: byte_at_byte)
    next
      case False
      then show ?thesis using that by simp
    qed
    then show ?thesis unfolding eq h by auto
  next
    case False
    then have eq: "compare_loop f str n i = i" by (subst compare_loop.simps) auto
    show ?thesis unfolding eq using False less.prems by (auto simp: byte_at_byte)
  qed
qed

lemma compare_pure:
  "compare f str n \<longleftrightarrow>
     curp f + n \<le> endp f \<and> (\<forall>j < n. byte (buf f) (curp f + j) = of_char (str ! j))"
  using compare_loop_pure [of 0 n f str] by (auto simp: compare_def left_def)

lemma string_loop_pure:
  "string_loop ch0 f =
     (case string_scan (buf f) (endp f) ch0 (curp f) of
        Bad e q \<Rightarrow> (Inl e, f\<lparr>curp := q\<rparr>)
      | Stop ch q \<Rightarrow> (Inr ch, f\<lparr>curp := q\<rparr>)
      | Quote q \<Rightarrow> (Inr 34, (snd (capture_len (f\<lparr>curp := q\<rparr>) (num_tokens f - 1) (int q)))
                               \<lparr>curp := q + 1\<rparr>))"
proof (induction "endp f - curp f" arbitrary: f ch0 rule: less_induct)
  case less
  have ge: "get_escape_len \<lparr>buf = buf f, endp = endp f, curp = curp f, tokens = None,
                                  max_tokens = 0, num_tokens = 0\<rparr> p n = get_escape_len f p n" for p n
    by (rule get_escape_len_buf) simp
  have IH: "string_loop ch (f\<lparr>curp := c\<rparr>) =
     (case string_scan (buf f) (endp f) ch c of
        Bad e q \<Rightarrow> (Inl e, f\<lparr>curp := q\<rparr>)
      | Stop ch q \<Rightarrow> (Inr ch, f\<lparr>curp := q\<rparr>)
      | Quote q \<Rightarrow> (Inr 34, (snd (capture_len (f\<lparr>curp := q\<rparr>) (num_tokens f - 1) (int q)))
                               \<lparr>curp := q + 1\<rparr>))" if "curp f < c" "curp f < endp f" for c ch
  proof -
    have "endp (f\<lparr>curp := c\<rparr>) - curp (f\<lparr>curp := c\<rparr>) < endp f - curp f"
      using that by simp
    from less [OF this, of ch] show ?thesis by (simp split: scan_res.splits)
  qed
  show ?case
  proof (cases f rule: string_loop_cases)
    case stop
    then show ?thesis by (subst string_scan.simps) (simp add: string_loop_end)
  next
    case bad
    then show ?thesis by (subst string_scan.simps) (simp add: string_loop_bad byte_at_byte Let_def)
  next
    case (esc_err e)
    then show ?thesis
      by (subst string_scan.simps) (simp add: string_loop_esc_err byte_at_byte [symmetric] Let_def ge left_def)
  next
    case esc
    then show ?thesis using IH [of "curp f + 2" 92]
      by (subst string_scan.simps) (simp add: string_loop_esc byte_at_byte [symmetric] Let_def ge left_def)
  next
    case quote
    then show ?thesis
      by (subst string_scan.simps) (simp add: string_loop_quote byte_at_byte [symmetric] Let_def)
  next
    case other
    then show ?thesis using IH [of "curp f + 1" "byte_at f (curp f)"]
      by (subst string_scan.simps) (simp add: string_loop_other byte_at_byte [symmetric] Let_def)
  qed
qed

section \<open>The leaf rules as plans\<close>

lemma ws_idem [simp]: "ws b e (ws b e i) = ws b e i"
  unfolding ws_def using scan_while_spec [of i is_space b e]
  by (intro scan_while_unique) auto

lemma peek_ws [simp]: "peek b e (ws b e i) = peek b e i"
  by (simp add: peek_def)

lemma cur_pure:
  "cur f = (peek (buf f) (endp f) (curp f), f\<lparr>curp := ws (buf f) (endp f) (curp f)\<rparr>)"
  by (simp add: cur_def Let_def skip_whitespaces_pure peek_def ws_def byte_at_byte)

lemma test_and_skip_plan:
  "test_and_skip f c = exec_plan f (tas_plan (buf f) (endp f) (curp f) c)"
  by (simp add: test_and_skip_def cur_pure tas_plan_def eos_error_def)

lemma separator_pure: "separator f = f\<lparr>curp := sep_pos (buf f) (endp f) (curp f)\<rparr>"
  by (simp add: separator_def cur_pure sep_pos_def)

lemma capture_ptr_scan:
  "capture_ptr f p ty = (r, g) \<Longrightarrow> buf g = buf f \<and> endp g = endp f \<and> curp g = curp f"
  by (auto simp: capture_ptr_def split: option.splits if_splits)

lemma capture_len_curp:
  "snd (capture_len (f\<lparr>curp := c\<rparr>) i p) = (snd (capture_len f i p))\<lparr>curp := c\<rparr>"
  by (auto simp: capture_len_def split: option.splits)

lemma capture_len_scan [simp]:
  "buf (snd (capture_len f i p)) = buf f" "endp (snd (capture_len f i p)) = endp f"
  "curp (snd (capture_len f i p)) = curp f"
  by (auto simp: capture_len_def split: option.splits)

lemma parse_identifier_plan:
  "parse_identifier f = exec_plan f (ident_plan (buf f) (endp f) (curp f))"
proof (cases "is_alpha (peek (buf f) (endp f) (curp f))")
  case False
  then show ?thesis by (simp add: parse_identifier_def cur_pure ident_plan_def)
next
  case True
  define f1 where "f1 = f\<lparr>curp := ws (buf f) (endp f) (curp f)\<rparr>"
  obtain r g where c: "capture_ptr f1 (int (curp f1)) JSON_TYPE_STRING = (r, g)"
    by (cases "capture_ptr f1 (int (curp f1)) JSON_TYPE_STRING")
  have s: "buf g = buf f" "endp g = endp f" "curp g = ws (buf f) (endp f) (curp f)"
    using capture_ptr_scan [OF c] by (auto simp: f1_def)
  show ?thesis using True c s
    by (cases r)
       (simp_all add: parse_identifier_def cur_pure ident_plan_def f1_def [symmetric] TRY_def
          identifier_loop_pure Let_def capture_len_curp, simp_all add: f1_def)
qed

lemma string_scan_Stop:
  "string_scan b e ch0 i = Stop ch p \<Longrightarrow> ch0 \<noteq> 34 \<Longrightarrow> ch \<noteq> 34"
proof (induction "e - i" arbitrary: i ch0 rule: less_induct)
  case less
  show ?case
  proof (cases "i < e")
    case False
    then show ?thesis using less.prems by (subst (asm) string_scan.simps) simp
  next
    case True
    have IH: "ch \<noteq> 34" if "string_scan b e c j = Stop ch p" "i < j" "c \<noteq> 34" for c j
      using less.hyps [of j c] that True by auto
    show ?thesis
      using less.prems(1) True
      apply (subst (asm) string_scan.simps)
      apply (simp add: Let_def split: if_splits sum.splits)
       apply (rule IH, assumption, simp, simp)
      apply (rule IH, assumption, simp, simp)
      done
  qed
qed

lemma parse_string_plan:
  "parse_string f = exec_plan f (string_plan (buf f) (endp f) (curp f))"
proof (cases "peek (buf f) (endp f) (curp f) = 34")
  case False
  then show ?thesis
    by (simp add: parse_string_def test_and_skip_plan tas_plan_def string_plan_def TRY_def)
next
  case True
  define f1 where "f1 = f\<lparr>curp := ws (buf f) (endp f) (curp f) + 1\<rparr>"
  obtain r g where c: "capture_ptr f1 (int (curp f1)) JSON_TYPE_STRING = (r, g)"
    by (cases "capture_ptr f1 (int (curp f1)) JSON_TYPE_STRING")
  have s: "buf g = buf f" "endp g = endp f" "curp g = ws (buf f) (endp f) (curp f) + 1"
    using capture_ptr_scan [OF c] by (auto simp: f1_def)
  have st: "ch \<noteq> 34" if "string_scan (buf f) (endp f) 0 (ws (buf f) (endp f) (curp f) + 1) = Stop ch q"
    for ch q using string_scan_Stop [OF that] by simp
  show ?thesis using True c s st
    by (cases r)
       (simp_all add: parse_string_def test_and_skip_plan tas_plan_def string_plan_def TRY_def
          f1_def [symmetric] string_loop_pure capture_len_curp split: scan_res.splits,
        simp_all add: f1_def capture_len_curp)
qed

lemma parse_number_plan:
  "parse_number f = exec_plan f (number_plan (buf f) (endp f) (curp f))"
proof -
  define f1 where "f1 = f\<lparr>curp := ws (buf f) (endp f) (curp f)\<rparr>"
  obtain r g where c: "capture_ptr f1 (int (curp f1)) JSON_TYPE_NUMBER = (r, g)"
    by (cases "capture_ptr f1 (int (curp f1)) JSON_TYPE_NUMBER")
  have s: "buf g = buf f" "endp g = endp f" "curp g = ws (buf f) (endp f) (curp f)"
    using capture_ptr_scan [OF c] by (auto simp: f1_def)
  show ?thesis using c s
    by (cases r)
       (simp_all add: parse_number_def cur_pure number_plan_def f1_def [symmetric] TRY_def
          number_loop_pure Let_def capture_len_curp, simp_all add: f1_def)
qed

lemma parse_literal_plan: "parse_literal f ty n = exec_plan f (lit_plan (curp f) ty n)"
proof -
  obtain r g where c: "capture_ptr f (int (curp f)) ty = (r, g)"
    by (cases "capture_ptr f (int (curp f)) ty")
  show ?thesis using c capture_ptr_scan [OF c]
    by (cases r) (simp_all add: parse_literal_def lit_plan_def TRY_def Let_def capture_len_curp)
qed

lemma exec_plan_curp [simp]: "exec_plan (f\<lparr>curp := c\<rparr>) p = exec_plan f p"
  by (cases p) simp_all

lemma parse_key_plan: "parse_key f = exec_plan f (key_plan (buf f) (endp f) (curp f))"
  by (simp add: parse_key_def cur_pure key_plan_def parse_identifier_plan parse_string_plan
      ident_plan_def string_plan_def eos_error_def)

lemma compare_cmp: "compare f str n = cmp (buf f) (endp f) (curp f) str n"
  by (simp add: compare_pure cmp_def)

lemma plan_ws [simp]:
  "string_plan b e (ws b e i) = string_plan b e i"
  "number_plan b e (ws b e i) = number_plan b e i"
  "ident_plan b e (ws b e i) = ident_plan b e i"
  "key_plan b e (ws b e i) = key_plan b e i"
  "tas_plan b e (ws b e i) c = tas_plan b e i c"
  by (simp_all add: string_plan_def number_plan_def ident_plan_def key_plan_def tas_plan_def)

lemma value_kind_vkind:
  "value_kind (peek (buf f) (endp f) (curp f)) (f\<lparr>curp := ws (buf f) (endp f) (curp f)\<rparr>) =
     vkind (buf f) (endp f) (curp f)"
  by (simp add: value_kind_def vkind_def compare_cmp byte_at_byte Let_def)

lemma parse_value_plan:
  "parse_value (Suc n) f =
     (case value_plan (buf f) (endp f) (curp f) of
        Leaf p \<Rightarrow> Some (exec_plan f p)
      | Obj q \<Rightarrow> parse_object n (f\<lparr>curp := q\<rparr>)
      | Arr q \<Rightarrow> parse_array n (f\<lparr>curp := q\<rparr>))"
  unfolding parse_value_kind cur_pure prod.case value_kind_vkind value_plan_def
  by (cases "vkind (buf f) (endp f) (curp f)")
     (simp_all add: parse_string_plan parse_number_plan parse_literal_plan eos_error_def)

section \<open>Validation only: the recorder switched off\<close>

lemma sim_offD:
  "sim_off X n \<Longrightarrow> X n f = Some (r, g) \<Longrightarrow> same_scan f z \<Longrightarrow> off z \<Longrightarrow>
   r \<noteq> Inl JSON_TOKEN_ARRAY_TOO_SMALL \<Longrightarrow> X n z = Some (r, z\<lparr>curp := curp g\<rparr>)"
  unfolding sim_off_def by blast

lemma same_scan_curp: "same_scan f z \<Longrightarrow> same_scan (f\<lparr>curp := c\<rparr>) (z\<lparr>curp := c\<rparr>)"
  by (simp add: same_scan_def)

lemma same_scanI: "buf g = buf z \<Longrightarrow> endp g = endp z \<Longrightarrow> same_scan g (z\<lparr>curp := curp g\<rparr>)"
  by (simp add: same_scan_def)

lemma off_curp [simp]: "off (z\<lparr>curp := c\<rparr>) = off z"
  by (simp add: off_def)

lemma off_capture_ptr: "off z \<Longrightarrow> capture_ptr z p ty = (Inr (), z)"
  by (auto simp: off_def capture_ptr_def split: option.splits)

lemma off_capture_len: "off z \<Longrightarrow> capture_len z i p = (Inr (), z)"
  by (auto simp: off_def capture_len_def split: option.splits)

lemma capture_ptr_rc:
  "capture_ptr f p ty = (r, g) \<Longrightarrow> r \<noteq> Inl JSON_TOKEN_ARRAY_TOO_SMALL \<Longrightarrow> r = Inr ()"
  by (auto simp: capture_ptr_def split: option.splits if_splits)

lemma off_exec_plan:
  assumes "same_scan f z" "off z" "exec_plan f p = (r, g)" "r \<noteq> Inl JSON_TOKEN_ARRAY_TOO_SMALL"
  shows "exec_plan z p = (r, z\<lparr>curp := curp g\<rparr>)"
proof (cases p)
  case (Fail e q)
  then show ?thesis using assms by auto
next
  case (Move q)
  then show ?thesis using assms by auto
next
  case (Token q pt ty rest)
  obtain r1 f2 where c: "capture_ptr (f\<lparr>curp := q\<rparr>) pt ty = (r1, f2)"
    by (cases "capture_ptr (f\<lparr>curp := q\<rparr>) pt ty")
  have r1: "r1 = Inr ()"
  proof (rule capture_ptr_rc [OF c])
    show "r1 \<noteq> Inl JSON_TOKEN_ARRAY_TOO_SMALL"
    proof
      assume "r1 = Inl JSON_TOKEN_ARRAY_TOO_SMALL"
      then have "r = Inl JSON_TOKEN_ARRAY_TOO_SMALL" using assms(3) Token c by simp
      then show False using assms(4) by simp
    qed
  qed
  have s: "curp f2 = q" using capture_ptr_scan [OF c] by simp
  show ?thesis using assms(2,3) Token c r1 s
    by (cases rest) (auto simp: off_capture_ptr off_capture_len)
qed

lemma exec_plan_scan:
  "exec_plan f p = (r, g) \<Longrightarrow> buf g = buf f \<and> endp g = endp f"
proof (cases p)
  case (Token q pt ty rest)
  assume a: "exec_plan f p = (r, g)"
  obtain r1 f2 where c: "capture_ptr (f\<lparr>curp := q\<rparr>) pt ty = (r1, f2)"
    by (cases "capture_ptr (f\<lparr>curp := q\<rparr>) pt ty")
  show ?thesis using a Token c capture_ptr_scan [OF c]
    by (cases r1; cases rest) auto
qed auto

lemma off_test_and_skip:
  assumes "same_scan f z" "off z" "test_and_skip f c = (r, g)"
  shows "test_and_skip z c = (r, z\<lparr>curp := curp g\<rparr>)"
proof -
  have "r \<noteq> Inl JSON_TOKEN_ARRAY_TOO_SMALL"
    using assms(3) by (auto simp: test_and_skip_plan tas_plan_def eos_error_def split: if_splits)
  then show ?thesis
    using off_exec_plan [OF assms(1,2), of "tas_plan (buf f) (endp f) (curp f) c" r g] assms
    by (simp add: test_and_skip_plan same_scan_def)
qed

lemma off_parse_key:
  assumes "same_scan f z" "off z" "parse_key f = (r, g)" "r \<noteq> Inl JSON_TOKEN_ARRAY_TOO_SMALL"
  shows "parse_key z = (r, z\<lparr>curp := curp g\<rparr>)"
  using off_exec_plan [OF assms(1,2), of "key_plan (buf f) (endp f) (curp f)" r g] assms
  by (simp add: parse_key_plan same_scan_def)

lemma same_scan_step: "same_scan f z \<Longrightarrow> step f g \<Longrightarrow> same_scan g (z\<lparr>curp := curp g\<rparr>)"
  by (simp add: same_scan_def step_def)

lemma same_scan_cur:
  "same_scan f z \<Longrightarrow> cur f = (ch, f1) \<Longrightarrow>
   cur z = (ch, z\<lparr>curp := curp f1\<rparr>) \<and> same_scan f1 (z\<lparr>curp := curp f1\<rparr>)"
  by (auto simp: cur_pure same_scan_def)

lemma same_scan_separator:
  "same_scan f z \<Longrightarrow>
   separator z = z\<lparr>curp := curp (separator f)\<rparr> \<and> same_scan (separator f) (separator z)"
  by (auto simp: separator_pure same_scan_def)

lemma off_composite:
  "sim_off parse_value n \<and> sim_off parse_array n \<and> sim_off array_loop n \<and>
   sim_off parse_pair n \<and> sim_off parse_object n \<and> sim_off object_loop n"
proof (induction n)
  case 0
  show ?case
    by (simp add: sim_off_def parse_value.simps parse_array.simps array_loop.simps
        parse_pair.simps parse_object.simps object_loop.simps)
next
  case (Suc n)
  then have IH: "sim_off parse_value n" "sim_off parse_array n" "sim_off array_loop n"
    "sim_off parse_pair n" "sim_off parse_object n" "sim_off object_loop n"
    by auto
  have v: "sim_off parse_value (Suc n)"
    unfolding sim_off_def
  proof (intro allI impI)
    fix f z :: frozen and r g
    assume a: "parse_value (Suc n) f = Some (r, g)" and s: "same_scan f z" and o: "off z"
      and r: "r \<noteq> Inl JSON_TOKEN_ARRAY_TOO_SMALL"
    have eq: "buf z = buf f" "endp z = endp f" "curp z = curp f" using s by (auto simp: same_scan_def)
    show "parse_value (Suc n) z = Some (r, z\<lparr>curp := curp g\<rparr>)"
    proof (cases "value_plan (buf f) (endp f) (curp f)")
      case (Leaf p)
      then show ?thesis using a off_exec_plan [OF s o _ r, of p g]
        by (simp add: parse_value_plan eq)
    next
      case (Obj q)
      then have "parse_object n (f\<lparr>curp := q\<rparr>) = Some (r, g)" using a by (simp add: parse_value_plan)
      from sim_offD [OF IH(5) this same_scan_curp [OF s] _ r] o
      show ?thesis using Obj by (simp add: parse_value_plan eq)
    next
      case (Arr q)
      then have "parse_array n (f\<lparr>curp := q\<rparr>) = Some (r, g)" using a by (simp add: parse_value_plan)
      from sim_offD [OF IH(2) this same_scan_curp [OF s] _ r] o
      show ?thesis using Arr by (simp add: parse_value_plan eq)
    qed
  qed
  have a: "sim_off parse_array (Suc n)"
    unfolding sim_off_def
  proof (intro allI impI)
    fix f z :: frozen and r g
    assume a: "parse_array (Suc n) f = Some (r, g)" and s: "same_scan f z" and o: "off z"
      and r: "r \<noteq> Inl JSON_TOKEN_ARRAY_TOO_SMALL"
    from a show "parse_array (Suc n) z = Some (r, z\<lparr>curp := curp g\<rparr>)"
    proof (cases rule: parse_array_cases)
      case (e1 e)
      then show ?thesis using off_test_and_skip [OF s o e1(1)]
        by (subst parse_array_Suc) simp
    next
      case (e2 e f1)
      then show ?thesis using capture_ptr_rc [OF e2(2)] r by simp
    next
      case (e3 e f1 f2)
      note t1 = off_test_and_skip [OF s o e3(1)]
      have s1: "same_scan f2 (z\<lparr>curp := curp f1\<rparr>)"
        using test_and_skip_plan exec_plan_scan [of f _ "Inr ()" f1] e3(1) capture_ptr_scan [OF e3(2)] s
        by (simp add: same_scan_def)
      have "array_loop n (z\<lparr>curp := curp f1\<rparr>) = Some (Inl e, z\<lparr>curp := curp g\<rparr>)"
        using sim_offD [OF IH(3) e3(3) s1] o r e3(4) by simp
      then show ?thesis using t1 o e3(4)
        by (subst parse_array_Suc) (simp add: off_capture_ptr)
    next
      case (e4 e f1 f2 f3)
      note t1 = off_test_and_skip [OF s o e4(1)]
      have s1: "same_scan f2 (z\<lparr>curp := curp f1\<rparr>)"
        using test_and_skip_plan exec_plan_scan [of f _ "Inr ()" f1] e4(1) capture_ptr_scan [OF e4(2)] s
        by (simp add: same_scan_def)
      have l: "array_loop n (z\<lparr>curp := curp f1\<rparr>) = Some (Inr (), z\<lparr>curp := curp f3\<rparr>)"
        using sim_offD [OF IH(3) e4(3) s1] o by simp
      have s3: "same_scan f3 (z\<lparr>curp := curp f3\<rparr>)"
        using same_scan_step [OF s1 array_loop_step [OF e4(3)]] by simp
      have "test_and_skip (z\<lparr>curp := curp f3\<rparr>) 93 = (Inl e, z\<lparr>curp := curp g\<rparr>)"
        using off_test_and_skip [OF s3 _ e4(4)] o by simp
      then show ?thesis using t1 o e4(5) l
        by (subst parse_array_Suc) (simp add: off_capture_ptr)
    next
      case (ok f1 f2 f3 f4)
      note t1 = off_test_and_skip [OF s o ok(1)]
      have s1: "same_scan f2 (z\<lparr>curp := curp f1\<rparr>)"
        using test_and_skip_plan exec_plan_scan [of f _ "Inr ()" f1] ok(1) capture_ptr_scan [OF ok(2)] s
        by (simp add: same_scan_def)
      have l: "array_loop n (z\<lparr>curp := curp f1\<rparr>) = Some (Inr (), z\<lparr>curp := curp f3\<rparr>)"
        using sim_offD [OF IH(3) ok(3) s1] o by simp
      have s3: "same_scan f3 (z\<lparr>curp := curp f3\<rparr>)"
        using same_scan_step [OF s1 array_loop_step [OF ok(3)]] by simp
      have "test_and_skip (z\<lparr>curp := curp f3\<rparr>) 93 = (Inr (), z\<lparr>curp := curp f4\<rparr>)"
        using off_test_and_skip [OF s3 _ ok(4)] o by simp
      then show ?thesis using t1 o ok(5,6) l
        by (subst parse_array_Suc) (simp add: off_capture_ptr off_capture_len)
    qed
  qed
  have ob: "sim_off parse_object (Suc n)"
    unfolding sim_off_def
  proof (intro allI impI)
    fix f z :: frozen and r g
    assume a: "parse_object (Suc n) f = Some (r, g)" and s: "same_scan f z" and o: "off z"
      and r: "r \<noteq> Inl JSON_TOKEN_ARRAY_TOO_SMALL"
    from a show "parse_object (Suc n) z = Some (r, z\<lparr>curp := curp g\<rparr>)"
    proof (cases rule: parse_object_cases)
      case (e1 e)
      then show ?thesis using off_test_and_skip [OF s o e1(1)]
        by (subst parse_object_Suc) simp
    next
      case (e2 e f1)
      then show ?thesis using capture_ptr_rc [OF e2(2)] r by simp
    next
      case (e3 e f1 f2)
      note t1 = off_test_and_skip [OF s o e3(1)]
      have s1: "same_scan f2 (z\<lparr>curp := curp f1\<rparr>)"
        using test_and_skip_plan exec_plan_scan [of f _ "Inr ()" f1] e3(1) capture_ptr_scan [OF e3(2)] s
        by (simp add: same_scan_def)
      have "object_loop n (z\<lparr>curp := curp f1\<rparr>) = Some (Inl e, z\<lparr>curp := curp g\<rparr>)"
        using sim_offD [OF IH(6) e3(3) s1] o r e3(4) by simp
      then show ?thesis using t1 o e3(4)
        by (subst parse_object_Suc) (simp add: off_capture_ptr)
    next
      case (e4 e f1 f2 f3)
      note t1 = off_test_and_skip [OF s o e4(1)]
      have s1: "same_scan f2 (z\<lparr>curp := curp f1\<rparr>)"
        using test_and_skip_plan exec_plan_scan [of f _ "Inr ()" f1] e4(1) capture_ptr_scan [OF e4(2)] s
        by (simp add: same_scan_def)
      have l: "object_loop n (z\<lparr>curp := curp f1\<rparr>) = Some (Inr (), z\<lparr>curp := curp f3\<rparr>)"
        using sim_offD [OF IH(6) e4(3) s1] o by simp
      have s3: "same_scan f3 (z\<lparr>curp := curp f3\<rparr>)"
        using same_scan_step [OF s1 object_loop_step [OF e4(3)]] by simp
      have "test_and_skip (z\<lparr>curp := curp f3\<rparr>) 125 = (Inl e, z\<lparr>curp := curp g\<rparr>)"
        using off_test_and_skip [OF s3 _ e4(4)] o by simp
      then show ?thesis using t1 o e4(5) l
        by (subst parse_object_Suc) (simp add: off_capture_ptr)
    next
      case (ok f1 f2 f3 f4)
      note t1 = off_test_and_skip [OF s o ok(1)]
      have s1: "same_scan f2 (z\<lparr>curp := curp f1\<rparr>)"
        using test_and_skip_plan exec_plan_scan [of f _ "Inr ()" f1] ok(1) capture_ptr_scan [OF ok(2)] s
        by (simp add: same_scan_def)
      have l: "object_loop n (z\<lparr>curp := curp f1\<rparr>) = Some (Inr (), z\<lparr>curp := curp f3\<rparr>)"
        using sim_offD [OF IH(6) ok(3) s1] o by simp
      have s3: "same_scan f3 (z\<lparr>curp := curp f3\<rparr>)"
        using same_scan_step [OF s1 object_loop_step [OF ok(3)]] by simp
      have "test_and_skip (z\<lparr>curp := curp f3\<rparr>) 125 = (Inr (), z\<lparr>curp := curp f4\<rparr>)"
        using off_test_and_skip [OF s3 _ ok(4)] o by simp
      then show ?thesis using t1 o ok(5,6) l
        by (subst parse_object_Suc) (simp add: off_capture_ptr off_capture_len)
    qed
  qed
  have al: "sim_off array_loop (Suc n)"
    unfolding sim_off_def
  proof (intro allI impI)
    fix f z :: frozen and r g
    assume a: "array_loop (Suc n) f = Some (r, g)" and s: "same_scan f z" and o: "off z"
      and r: "r \<noteq> Inl JSON_TOKEN_ARRAY_TOO_SMALL"
    from a show "array_loop (Suc n) z = Some (r, z\<lparr>curp := curp g\<rparr>)"
    proof (cases rule: array_loop_cases)
      case stop
      then show ?thesis using same_scan_cur [OF s stop(1)]
        by (subst array_loop_Suc) simp
    next
      case (err ch f1 e)
      note c = same_scan_cur [OF s err(1)]
      have "parse_value n (z\<lparr>curp := curp f1\<rparr>) = Some (Inl e, z\<lparr>curp := curp g\<rparr>)"
        using sim_offD [OF IH(1) err(3) c [THEN conjunct2]] o r err(4) by simp
      then show ?thesis using c err(2,4)
        by (subst array_loop_Suc) simp
    next
      case (iter ch f1 f2)
      note c = same_scan_cur [OF s iter(1)]
      have v: "parse_value n (z\<lparr>curp := curp f1\<rparr>) = Some (Inr (), z\<lparr>curp := curp f2\<rparr>)"
        using sim_offD [OF IH(1) iter(3) c [THEN conjunct2]] o by simp
      have s2: "same_scan f2 (z\<lparr>curp := curp f2\<rparr>)"
        using same_scan_step [OF c [THEN conjunct2]] parse_value_adv [OF iter(3)]
        by (simp add: adv_def)
      note sp = same_scan_separator [OF s2]
      have "array_loop n (separator (z\<lparr>curp := curp f2\<rparr>)) = Some (r, z\<lparr>curp := curp g\<rparr>)"
        using sim_offD [OF IH(3) iter(4) sp [THEN conjunct2] _ r] o sp [THEN conjunct1] by simp
      then show ?thesis using c v iter(2)
        by (subst array_loop_Suc) simp
    qed
  qed
  have ol: "sim_off object_loop (Suc n)"
    unfolding sim_off_def
  proof (intro allI impI)
    fix f z :: frozen and r g
    assume a: "object_loop (Suc n) f = Some (r, g)" and s: "same_scan f z" and o: "off z"
      and r: "r \<noteq> Inl JSON_TOKEN_ARRAY_TOO_SMALL"
    from a show "object_loop (Suc n) z = Some (r, z\<lparr>curp := curp g\<rparr>)"
    proof (cases rule: object_loop_cases)
      case stop
      then show ?thesis using same_scan_cur [OF s stop(1)]
        by (subst object_loop_Suc) simp
    next
      case (err ch f1 e)
      note c = same_scan_cur [OF s err(1)]
      have "parse_pair n (z\<lparr>curp := curp f1\<rparr>) = Some (Inl e, z\<lparr>curp := curp g\<rparr>)"
        using sim_offD [OF IH(4) err(3) c [THEN conjunct2]] o r err(4) by simp
      then show ?thesis using c err(2,4)
        by (subst object_loop_Suc) simp
    next
      case (iter ch f1 f2)
      note c = same_scan_cur [OF s iter(1)]
      have v: "parse_pair n (z\<lparr>curp := curp f1\<rparr>) = Some (Inr (), z\<lparr>curp := curp f2\<rparr>)"
        using sim_offD [OF IH(4) iter(3) c [THEN conjunct2]] o by simp
      have s2: "same_scan f2 (z\<lparr>curp := curp f2\<rparr>)"
        using same_scan_step [OF c [THEN conjunct2]] parse_pair_adv [OF iter(3)]
        by (simp add: adv_def)
      note sp = same_scan_separator [OF s2]
      have "object_loop n (separator (z\<lparr>curp := curp f2\<rparr>)) = Some (r, z\<lparr>curp := curp g\<rparr>)"
        using sim_offD [OF IH(6) iter(4) sp [THEN conjunct2] _ r] o sp [THEN conjunct1] by simp
      then show ?thesis using c v iter(2)
        by (subst object_loop_Suc) simp
    qed
  qed
  have p: "sim_off parse_pair (Suc n)"
    unfolding sim_off_def
  proof (intro allI impI)
    fix f z :: frozen and r g
    assume a: "parse_pair (Suc n) f = Some (r, g)" and s: "same_scan f z" and o: "off z"
      and r: "r \<noteq> Inl JSON_TOKEN_ARRAY_TOO_SMALL"
    from a show "parse_pair (Suc n) z = Some (r, z\<lparr>curp := curp g\<rparr>)"
    proof (cases rule: parse_pair_cases)
      case (e1 e)
      then show ?thesis using off_parse_key [OF s o e1(1)] r
        by (subst parse_pair_Suc) simp
    next
      case (e2 e f1)
      note k = off_parse_key [OF s o e2(1)]
      have s1: "same_scan f1 (z\<lparr>curp := curp f1\<rparr>)"
        using same_scan_step [OF s] parse_key_step [OF e2(1)] by simp
      have "test_and_skip (z\<lparr>curp := curp f1\<rparr>) 58 = (Inl e, z\<lparr>curp := curp g\<rparr>)"
        using off_test_and_skip [OF s1 _ e2(2)] o by simp
      then show ?thesis using k e2(3)
        by (subst parse_pair_Suc) simp
    next
      case (val f1 f2)
      note k = off_parse_key [OF s o val(1)]
      have s1: "same_scan f1 (z\<lparr>curp := curp f1\<rparr>)"
        using same_scan_step [OF s] parse_key_step [OF val(1)] by simp
      have t: "test_and_skip (z\<lparr>curp := curp f1\<rparr>) 58 = (Inr (), z\<lparr>curp := curp f2\<rparr>)"
        using off_test_and_skip [OF s1 _ val(2)] o by simp
      have s2: "same_scan f2 (z\<lparr>curp := curp f2\<rparr>)"
        using same_scan_step [OF s1] test_and_skip_step [OF val(2)] by simp
      have "parse_value n (z\<lparr>curp := curp f2\<rparr>) = Some (r, z\<lparr>curp := curp g\<rparr>)"
        using sim_offD [OF IH(1) val(3) s2 _ r] o by simp
      then show ?thesis using k t
        by (subst parse_pair_Suc) simp
    qed
  qed
  show ?case using v a ob al ol p by simp
qed

lemma exec_plan_off: "off z \<Longrightarrow> exec_plan z p = (plan_rc p, z\<lparr>curp := plan_end p\<rparr>)"
proof (cases p)
  case (Token q pt ty rest)
  assume "off z"
  then show ?thesis using Token
    by (cases rest) (auto simp: off_capture_ptr off_capture_len)
qed auto

lemma eos_error_ne [simp]: "eos_error ch \<noteq> JSON_TOKEN_ARRAY_TOO_SMALL"
  by (simp add: eos_error_def)

lemma get_escape_len_ne: "get_escape_len f p n \<noteq> Inl JSON_TOKEN_ARRAY_TOO_SMALL"
  by (simp add: get_escape_len_def Let_def)

lemma string_scan_Bad:
  "string_scan b e ch0 i = Bad err p \<Longrightarrow> err \<noteq> JSON_TOKEN_ARRAY_TOO_SMALL"
proof (induction "e - i" arbitrary: i ch0 rule: less_induct)
  case less
  show ?case
  proof (cases "i < e")
    case False
    then show ?thesis using less.prems by (subst (asm) string_scan.simps) simp
  next
    case True
    have IH: "err \<noteq> JSON_TOKEN_ARRAY_TOO_SMALL" if "string_scan b e c j = Bad err p" "i < j" for c j
      using less.hyps [of j c] that True by auto
    show ?thesis
      using less.prems(1) True
      apply (subst (asm) string_scan.simps)
      apply (simp add: Let_def split: if_splits sum.splits)
        apply (metis get_escape_len_ne)
       apply (rule IH, assumption, simp)
      apply (rule IH, assumption, simp)
      done
  qed
qed

lemma plan_rc_leaf [simp]:
  "plan_rc (tas_plan b e i c) \<noteq> Inl JSON_TOKEN_ARRAY_TOO_SMALL"
  "plan_rc (ident_plan b e i) \<noteq> Inl JSON_TOKEN_ARRAY_TOO_SMALL"
  "plan_rc (string_plan b e i) \<noteq> Inl JSON_TOKEN_ARRAY_TOO_SMALL"
  "plan_rc (number_plan b e i) \<noteq> Inl JSON_TOKEN_ARRAY_TOO_SMALL"
  "plan_rc (lit_plan i ty k) \<noteq> Inl JSON_TOKEN_ARRAY_TOO_SMALL"
  "plan_rc (key_plan b e i) \<noteq> Inl JSON_TOKEN_ARRAY_TOO_SMALL"
  using string_scan_Bad [of b e 0 "ws b e i + 1"]
  by (auto simp: tas_plan_def ident_plan_def string_plan_def number_plan_def lit_plan_def
      key_plan_def Let_def split: scan_res.splits)

lemma value_plan_leaf:
  "value_plan b e i = Leaf p \<Longrightarrow> plan_rc p \<noteq> Inl JSON_TOKEN_ARRAY_TOO_SMALL"
  by (auto simp: value_plan_def split: kind.splits)

lemma only_cur_trans: "only_cur f g \<Longrightarrow> only_cur g h \<Longrightarrow> only_cur f h"
  unfolding only_cur_def by (metis frozen.update_convs(3) frozen.surjective frozen.select_convs(3))

lemma only_cur_off: "only_cur f g \<Longrightarrow> off g = off f"
  unfolding only_cur_def off_def by (metis frozen.select_convs(4,5) frozen.surjective frozen.update_convs(3))

lemma only_cur_upd [simp]: "only_cur f (f\<lparr>curp := c\<rparr>)"
  by (simp add: only_cur_def)

lemma only_cur_refl [simp]: "only_cur f f"
  by (simp add: only_cur_def)

lemma off_okI: "(off f \<Longrightarrow> r \<noteq> Inl JSON_TOKEN_ARRAY_TOO_SMALL \<and> only_cur f g) \<Longrightarrow> off_ok f r g"
  by (simp add: off_ok_def only_cur_def)

lemma off_okD: "off_ok f r g \<Longrightarrow> off f \<Longrightarrow> r \<noteq> Inl JSON_TOKEN_ARRAY_TOO_SMALL \<and> only_cur f g"
  by (simp add: off_ok_def only_cur_def)

lemma exec_plan_off_ok:
  "off f \<Longrightarrow> exec_plan f p = (r, g) \<Longrightarrow> r = plan_rc p \<and> only_cur f g"
  by (simp add: exec_plan_off) auto

lemma test_and_skip_off_ok:
  "off f \<Longrightarrow> test_and_skip f c = (r, g) \<Longrightarrow> r \<noteq> Inl JSON_TOKEN_ARRAY_TOO_SMALL \<and> only_cur f g"
  using exec_plan_off_ok [of f "tas_plan (buf f) (endp f) (curp f) c" r g]
  by (simp add: test_and_skip_plan)

lemma parse_key_off_ok:
  "off f \<Longrightarrow> parse_key f = (r, g) \<Longrightarrow> r \<noteq> Inl JSON_TOKEN_ARRAY_TOO_SMALL \<and> only_cur f g"
  using exec_plan_off_ok [of f "key_plan (buf f) (endp f) (curp f)" r g]
  by (simp add: parse_key_plan)

lemma cur_only_cur: "cur f = (ch, f1) \<Longrightarrow> only_cur f f1"
  by (auto simp: cur_pure)

lemma separator_only_cur: "only_cur f (separator f)"
  by (simp add: separator_pure)

lemma capture_ptr_off_ok: "off f \<Longrightarrow> capture_ptr f p ty = (r, g) \<Longrightarrow> r = Inr () \<and> g = f"
  by (simp add: off_capture_ptr)

lemma off_ok_composite:
  "holds parse_value n off_ok \<and> holds parse_array n off_ok \<and> holds array_loop n off_ok \<and>
   holds parse_pair n off_ok \<and> holds parse_object n off_ok \<and> holds object_loop n off_ok"
proof (induction n)
  case 0
  show ?case
    by (simp add: holds_def parse_value.simps parse_array.simps array_loop.simps
        parse_pair.simps parse_object.simps object_loop.simps)
next
  case (Suc n)
  then have IH: "holds parse_value n off_ok" "holds parse_array n off_ok"
    "holds array_loop n off_ok" "holds parse_pair n off_ok" "holds parse_object n off_ok"
    "holds object_loop n off_ok"
    by auto
  have v: "holds parse_value (Suc n) off_ok"
  proof (rule holdsI, rule off_okI)
    fix f r g assume a: "parse_value (Suc n) f = Some (r, g)" and o: "off f"
    show "r \<noteq> Inl JSON_TOKEN_ARRAY_TOO_SMALL \<and> only_cur f g"
    proof (cases "value_plan (buf f) (endp f) (curp f)")
      case (Leaf p)
      then show ?thesis using a exec_plan_off_ok [OF o, of p r g] value_plan_leaf [OF Leaf]
        by (simp add: parse_value_plan)
    next
      case (Obj q)
      then have "parse_object n (f\<lparr>curp := q\<rparr>) = Some (r, g)" using a by (simp add: parse_value_plan)
      from off_okD [OF holdsD [OF IH(5) this]] o
      show ?thesis using only_cur_trans [of f "f\<lparr>curp := q\<rparr>" g] by simp
    next
      case (Arr q)
      then have "parse_array n (f\<lparr>curp := q\<rparr>) = Some (r, g)" using a by (simp add: parse_value_plan)
      from off_okD [OF holdsD [OF IH(2) this]] o
      show ?thesis using only_cur_trans [of f "f\<lparr>curp := q\<rparr>" g] by simp
    qed
  qed
  have a: "holds parse_array (Suc n) off_ok"
  proof (rule holdsI, rule off_okI)
    fix f r g assume a: "parse_array (Suc n) f = Some (r, g)" and o: "off f"
    from a show "r \<noteq> Inl JSON_TOKEN_ARRAY_TOO_SMALL \<and> only_cur f g"
    proof (cases rule: parse_array_cases)
      case (e1 e)
      then show ?thesis using test_and_skip_off_ok [OF o e1(1)] by simp
    next
      case (e2 e f1)
      have o1: "off f1" using test_and_skip_off_ok [OF o e2(1)] only_cur_off o by blast
      show ?thesis using capture_ptr_off_ok [OF o1 e2(2)] by simp
    next
      case (e3 e f1 f2)
      note t = test_and_skip_off_ok [OF o e3(1)]
      have o1: "off f1" using t only_cur_off o by blast
      have f2: "f2 = f1" using capture_ptr_off_ok [OF o1 e3(2)] by simp
      note l = off_okD [OF holdsD [OF IH(3) e3(3)], unfolded f2, OF o1]
      show ?thesis using t l e3(4) only_cur_trans by blast
    next
      case (e4 e f1 f2 f3)
      note t = test_and_skip_off_ok [OF o e4(1)]
      have o1: "off f1" using t only_cur_off o by blast
      have f2: "f2 = f1" using capture_ptr_off_ok [OF o1 e4(2)] by simp
      note l = off_okD [OF holdsD [OF IH(3) e4(3)], unfolded f2, OF o1]
      have o3: "off f3" using l only_cur_off o1 by blast
      note t2 = test_and_skip_off_ok [OF o3 e4(4)]
      show ?thesis using t l t2 e4(5) only_cur_trans by blast
    next
      case (ok f1 f2 f3 f4)
      note t = test_and_skip_off_ok [OF o ok(1)]
      have o1: "off f1" using t only_cur_off o by blast
      have f2: "f2 = f1" using capture_ptr_off_ok [OF o1 ok(2)] by simp
      note l = off_okD [OF holdsD [OF IH(3) ok(3)], unfolded f2, OF o1]
      have o3: "off f3" using l only_cur_off o1 by blast
      note t2 = test_and_skip_off_ok [OF o3 ok(4)]
      have o4: "off f4" using t2 only_cur_off o3 by blast
      have "g = f4" using ok(5) o4 by (simp add: off_capture_len)
      then show ?thesis using t l t2 ok(6) only_cur_trans by blast
    qed
  qed
  have ob: "holds parse_object (Suc n) off_ok"
  proof (rule holdsI, rule off_okI)
    fix f r g assume a: "parse_object (Suc n) f = Some (r, g)" and o: "off f"
    from a show "r \<noteq> Inl JSON_TOKEN_ARRAY_TOO_SMALL \<and> only_cur f g"
    proof (cases rule: parse_object_cases)
      case (e1 e)
      then show ?thesis using test_and_skip_off_ok [OF o e1(1)] by simp
    next
      case (e2 e f1)
      have o1: "off f1" using test_and_skip_off_ok [OF o e2(1)] only_cur_off o by blast
      show ?thesis using capture_ptr_off_ok [OF o1 e2(2)] by simp
    next
      case (e3 e f1 f2)
      note t = test_and_skip_off_ok [OF o e3(1)]
      have o1: "off f1" using t only_cur_off o by blast
      have f2: "f2 = f1" using capture_ptr_off_ok [OF o1 e3(2)] by simp
      note l = off_okD [OF holdsD [OF IH(6) e3(3)], unfolded f2, OF o1]
      show ?thesis using t l e3(4) only_cur_trans by blast
    next
      case (e4 e f1 f2 f3)
      note t = test_and_skip_off_ok [OF o e4(1)]
      have o1: "off f1" using t only_cur_off o by blast
      have f2: "f2 = f1" using capture_ptr_off_ok [OF o1 e4(2)] by simp
      note l = off_okD [OF holdsD [OF IH(6) e4(3)], unfolded f2, OF o1]
      have o3: "off f3" using l only_cur_off o1 by blast
      note t2 = test_and_skip_off_ok [OF o3 e4(4)]
      show ?thesis using t l t2 e4(5) only_cur_trans by blast
    next
      case (ok f1 f2 f3 f4)
      note t = test_and_skip_off_ok [OF o ok(1)]
      have o1: "off f1" using t only_cur_off o by blast
      have f2: "f2 = f1" using capture_ptr_off_ok [OF o1 ok(2)] by simp
      note l = off_okD [OF holdsD [OF IH(6) ok(3)], unfolded f2, OF o1]
      have o3: "off f3" using l only_cur_off o1 by blast
      note t2 = test_and_skip_off_ok [OF o3 ok(4)]
      have o4: "off f4" using t2 only_cur_off o3 by blast
      have "g = f4" using ok(5) o4 by (simp add: off_capture_len)
      then show ?thesis using t l t2 ok(6) only_cur_trans by blast
    qed
  qed
  have al: "holds array_loop (Suc n) off_ok"
  proof (rule holdsI, rule off_okI)
    fix f r g assume a: "array_loop (Suc n) f = Some (r, g)" and o: "off f"
    from a show "r \<noteq> Inl JSON_TOKEN_ARRAY_TOO_SMALL \<and> only_cur f g"
    proof (cases rule: array_loop_cases)
      case stop
      then show ?thesis using cur_only_cur by simp
    next
      case (err ch f1 e)
      note c = cur_only_cur [OF err(1)]
      have o1: "off f1" using c only_cur_off o by blast
      note v = off_okD [OF holdsD [OF IH(1) err(3)] o1]
      show ?thesis using c v err(4) only_cur_trans by blast
    next
      case (iter ch f1 f2)
      note c = cur_only_cur [OF iter(1)]
      have o1: "off f1" using c only_cur_off o by blast
      note v = off_okD [OF holdsD [OF IH(1) iter(3)] o1]
      have o2: "off (separator f2)" using v separator_only_cur [of f2] only_cur_off o1 by blast
      note l = off_okD [OF holdsD [OF IH(3) iter(4)] o2]
      have "only_cur f g" using c v separator_only_cur [of f2] l only_cur_trans by blast
      then show ?thesis using l by simp
    qed
  qed
  have ol: "holds object_loop (Suc n) off_ok"
  proof (rule holdsI, rule off_okI)
    fix f r g assume a: "object_loop (Suc n) f = Some (r, g)" and o: "off f"
    from a show "r \<noteq> Inl JSON_TOKEN_ARRAY_TOO_SMALL \<and> only_cur f g"
    proof (cases rule: object_loop_cases)
      case stop
      then show ?thesis using cur_only_cur by simp
    next
      case (err ch f1 e)
      note c = cur_only_cur [OF err(1)]
      have o1: "off f1" using c only_cur_off o by blast
      note v = off_okD [OF holdsD [OF IH(4) err(3)] o1]
      show ?thesis using c v err(4) only_cur_trans by blast
    next
      case (iter ch f1 f2)
      note c = cur_only_cur [OF iter(1)]
      have o1: "off f1" using c only_cur_off o by blast
      note v = off_okD [OF holdsD [OF IH(4) iter(3)] o1]
      have o2: "off (separator f2)" using v separator_only_cur [of f2] only_cur_off o1 by blast
      note l = off_okD [OF holdsD [OF IH(6) iter(4)] o2]
      have "only_cur f g" using c v separator_only_cur [of f2] l only_cur_trans by blast
      then show ?thesis using l by simp
    qed
  qed
  have p: "holds parse_pair (Suc n) off_ok"
  proof (rule holdsI, rule off_okI)
    fix f r g assume a: "parse_pair (Suc n) f = Some (r, g)" and o: "off f"
    from a show "r \<noteq> Inl JSON_TOKEN_ARRAY_TOO_SMALL \<and> only_cur f g"
    proof (cases rule: parse_pair_cases)
      case (e1 e)
      then show ?thesis using parse_key_off_ok [OF o e1(1)] by simp
    next
      case (e2 e f1)
      note k = parse_key_off_ok [OF o e2(1)]
      have o1: "off f1" using k only_cur_off o by blast
      note t = test_and_skip_off_ok [OF o1 e2(2)]
      show ?thesis using k t e2(3) only_cur_trans by blast
    next
      case (val f1 f2)
      note k = parse_key_off_ok [OF o val(1)]
      have o1: "off f1" using k only_cur_off o by blast
      note t = test_and_skip_off_ok [OF o1 val(2)]
      have o2: "off f2" using t only_cur_off o1 by blast
      note v = off_okD [OF holdsD [OF IH(1) val(3)] o2]
      show ?thesis using k t v only_cur_trans by blast
    qed
  qed
  show ?case using v a ob al ol p by simp
qed

lemmas parse_object_sim_off =
  off_composite [THEN conjunct2, THEN conjunct2, THEN conjunct2, THEN conjunct2, THEN conjunct1, THEN sim_offD]

lemmas parse_object_off_ok =
  off_ok_composite [THEN conjunct2, THEN conjunct2, THEN conjunct2, THEN conjunct2, THEN conjunct1, THEN holdsD, THEN off_okD]

lemma parse_object_total:
  "curp f \<le> endp f \<Longrightarrow> \<exists>r g. parse_object (4 * (endp f - curp f) + 2) f = Some (r, g)"
  using parse_object_enough [of f "4 * (endp f - curp f) + 2"] by auto

lemma finish_off:
  assumes "off h"
  shows "finish (r, h) = (case r of Inl e \<Rightarrow> Inl e | Inr _ \<Rightarrow> Inr (int (curp h)), h)"
  using assms by (cases r) (simp_all add: finish_def off_capture_ptr off_capture_len)

lemma finish_rc:
  assumes "fst (finish (r, g)) \<noteq> Inl JSON_TOKEN_ARRAY_TOO_SMALL"
  shows "r \<noteq> Inl JSON_TOKEN_ARRAY_TOO_SMALL \<and>
         fst (finish (r, g)) = (case r of Inl e \<Rightarrow> Inl e | Inr _ \<Rightarrow> Inr (int (curp g)))"
proof (cases r)
  case (Inl e)
  then show ?thesis using assms by (simp add: finish_def)
next
  case (Inr u)
  obtain r2 g2 where c: "capture_ptr g (int (curp g)) JSON_TYPE_EOF = (r2, g2)"
    by (cases "capture_ptr g (int (curp g)) JSON_TYPE_EOF")
  have "r2 \<noteq> Inl JSON_TOKEN_ARRAY_TOO_SMALL" using assms Inr c by (auto simp: finish_def)
  then have "r2 = Inr ()" using capture_ptr_rc [OF c] by simp
  then show ?thesis using Inr c capture_ptr_scan [OF c] by (simp add: finish_def Let_def)
qed

text \<open>
  C5: with an absent or zero-capacity token array the call never gives TooManyTokens,
  leaves the array as it was and counts no token; and whenever the same input with any
  other array does not run out of slots, the two calls return the same value (the same
  number of bytes or the same error).
\<close>

theorem C5_validation_only:
  assumes "arr0 = None \<or> len0 = 0"
  shows "fst (parse_json s s_len arr0 len0) \<noteq> Inl JSON_TOKEN_ARRAY_TOO_SMALL \<and>
         tokens (snd (parse_json s s_len arr0 len0)) = arr0 \<and>
         num_tokens (snd (parse_json s s_len arr0 len0)) = 0 \<and>
         (fst (parse_json s s_len arr arr_len) \<noteq> Inl JSON_TOKEN_ARRAY_TOO_SMALL \<longrightarrow>
            fst (parse_json s s_len arr0 len0) = fst (parse_json s s_len arr arr_len))"
proof (cases "s = None \<or> s_len \<le> 0")
  case True
  then consider "s = None \<or> s_len < 0" | b where "s = Some b" "s_len = 0"
    by (cases s; cases "s_len = 0") auto
  then show ?thesis
  proof cases
    case 1
    then show ?thesis by (simp add: parse_json_guard)
  next
    case 2
    then show ?thesis by (simp add: parse_json_empty)
  qed
next
  case False
  then obtain b where s: "s = Some b" and l: "0 < s_len" by auto
  define N where "N = 4 * nat s_len + 2"
  define z0 where "z0 = init_frozen b s_len arr0 len0"
  define f0 where "f0 = init_frozen b s_len arr arr_len"
  have o: "off z0" using assms by (auto simp: off_def z0_def)
  have ss: "same_scan f0 z0" by (simp add: same_scan_def z0_def f0_def)
  obtain r0 h where z: "parse_object N z0 = Some (r0, h)"
    using parse_object_total [of z0] by (auto simp: z0_def N_def)
  obtain r1 g1 where f: "parse_object N f0 = Some (r1, g1)"
    using parse_object_total [of f0] by (auto simp: f0_def N_def)
  note ok = parse_object_off_ok [OF z o]
  have h: "h = z0\<lparr>curp := curp h\<rparr>" using ok by (simp add: only_cur_def)
  have oh: "off h" using ok only_cur_off o by blast
  have pz: "parse_json s s_len arr0 len0 = finish (r0, h)"
    using z by (simp add: s parse_json_unfold [OF l] z0_def N_def)
  have pf: "parse_json s s_len arr arr_len = finish (r1, g1)"
    using f by (simp add: s parse_json_unfold [OF l] f0_def N_def)
  have 1: "fst (parse_json s s_len arr0 len0) \<noteq> Inl JSON_TOKEN_ARRAY_TOO_SMALL"
    using ok by (cases r0) (auto simp: pz finish_off [OF oh])
  have 2: "tokens (snd (parse_json s s_len arr0 len0)) = arr0"
    "num_tokens (snd (parse_json s s_len arr0 len0)) = 0"
    unfolding pz finish_off [OF oh] by (subst h, simp add: z0_def)+
  have 3: "fst (parse_json s s_len arr0 len0) = fst (parse_json s s_len arr arr_len)"
    if "fst (parse_json s s_len arr arr_len) \<noteq> Inl JSON_TOKEN_ARRAY_TOO_SMALL"
  proof -
    note fr = finish_rc [OF that [unfolded pf]]
    have "parse_object N z0 = Some (r1, z0\<lparr>curp := curp g1\<rparr>)"
      using parse_object_sim_off [OF f ss o] fr by simp
    then have "r0 = r1" "curp h = curp g1" using z by auto
    then show ?thesis using fr unfolding pz pf finish_off [OF oh] by (cases r1) simp_all
  qed
  show ?thesis using 1 2 3 by blast
qed

theorem C5_validation_only_witness:
  "fst (parse_json (Some ''{a:[1,2]}'') 9 None 0) = Inr 9 \<and>
   tokens (snd (parse_json (Some ''{a:[1,2]}'') 9 None 0)) = None"
proof -
  have e: "fst (parse_json (Some ''{a:[1,2]}'') 9 (Some (replicate 6 tok0)) 6) = Inr 9"
    by code_simp
  show ?thesis
    using C5_validation_only [of None 0 "Some ''{a:[1,2]}''" 9 "Some (replicate 6 tok0)" 6] e
    by simp
qed

section \<open>The capacity of the token array\<close>

lemma cap_simD: "cap_sim X n \<Longrightarrow> X n f = Some (Inr (), g) \<Longrightarrow> capR f z \<Longrightarrow> capQ z (X n z) g"
  unfolding cap_sim_def by blast

lemma capQ_ok:
  "X = Some (Inr (), z') \<Longrightarrow> capR g z' \<Longrightarrow> max_tokens z' = max_tokens z \<Longrightarrow> capQ z X g"
  by (auto simp: capQ_def capR_def)

lemma capQ_fail:
  "X = Some (Inl JSON_TOKEN_ARRAY_TOO_SMALL, z') \<Longrightarrow> max_tokens z < num_tokens g \<Longrightarrow> capQ z X g"
  by (auto simp: capQ_def)

lemma capQ_cases [consumes 1, case_names ok fail]:
  assumes "capQ z X g"
  obtains (ok) z' where "X = Some (Inr (), z')" "capR g z'" "max_tokens z' = max_tokens z"
  | (fail) z' where "X = Some (Inl JSON_TOKEN_ARRAY_TOO_SMALL, z')" "max_tokens z < num_tokens g"
  using assms unfolding capQ_def by (auto split: if_splits)

lemma step_on: "step f g \<Longrightarrow> off g = off f"
  by (cases "tokens f"; cases "tokens g") (auto simp: step_def off_def)

lemma capR_move:
  "capR f z \<Longrightarrow> capR (f\<lparr>curp := q\<rparr>) (z\<lparr>curp := q\<rparr>)"
  by (simp add: capR_def same_scan_def off_def)

lemma tas_plan_ok:
  "test_and_skip f c = (Inr (), f1) \<Longrightarrow>
   tas_plan (buf f) (endp f) (curp f) c = Move (curp f1) \<and> f1 = f\<lparr>curp := curp f1\<rparr>"
  by (auto simp: test_and_skip_plan tas_plan_def split: if_splits)

lemma cap_test_and_skip:
  assumes "capR f z" "test_and_skip f c = (Inr (), f1)"
  shows "test_and_skip z c = (Inr (), z\<lparr>curp := curp f1\<rparr>) \<and> capR f1 (z\<lparr>curp := curp f1\<rparr>)"
proof -
  note t = tas_plan_ok [OF assms(2)]
  have e: "buf z = buf f" "endp z = endp f" "curp z = curp f"
    using assms(1) by (auto simp: capR_def same_scan_def)
  have "capR (f\<lparr>curp := curp f1\<rparr>) (z\<lparr>curp := curp f1\<rparr>)" using assms(1) by (rule capR_move)
  then show ?thesis using t by (simp add: test_and_skip_plan e)
qed

lemma cap_cur:
  assumes "capR f z" "cur f = (ch, f1)"
  shows "cur z = (ch, z\<lparr>curp := curp f1\<rparr>) \<and> capR f1 (z\<lparr>curp := curp f1\<rparr>)"
proof -
  have e: "buf z = buf f" "endp z = endp f" "curp z = curp f"
    using assms(1) by (auto simp: capR_def same_scan_def)
  have "capR (f\<lparr>curp := curp f1\<rparr>) (z\<lparr>curp := curp f1\<rparr>)" using assms(1) by (rule capR_move)
  then show ?thesis using assms(2) by (auto simp: cur_pure e)
qed

lemma cap_separator:
  assumes "capR f z"
  shows "capR (separator f) (separator z)"
proof -
  have e: "buf z = buf f" "endp z = endp f" "curp z = curp f"
    using assms(1) by (auto simp: capR_def same_scan_def)
  show ?thesis using capR_move [OF assms] by (simp add: separator_pure e)
qed

lemma cap_capture_ptr:
  assumes "capR f z" "capture_ptr f p ty = (Inr (), g)"
  shows "capQ z (Some (capture_ptr z p ty)) g"
proof -
  have f: "\<not> off f" "\<not> off z" "num_tokens z = num_tokens f" "num_tokens z \<le> max_tokens z"
    "same_scan f z"
    using assms(1) by (auto simp: capR_def)
  have g: "num_tokens g = num_tokens f + 1" "\<not> off g"
    "buf g = buf f" "endp g = endp f" "curp g = curp f"
    using assms(2) f(1)
    by (auto simp: capture_ptr_def off_def split: option.splits if_splits)
  show ?thesis
  proof (cases "num_tokens z < max_tokens z")
    case True
    obtain ts where ts: "tokens z = Some ts" using f(2) by (auto simp: off_def)
    define z' where "z' = z\<lparr>tokens := Some (ts[nat (num_tokens z) :=
                                      (ts ! nat (num_tokens z))\<lparr>ptr := p, type := ty\<rparr>]),
                  num_tokens := num_tokens z + 1\<rparr>"
    have c: "capture_ptr z p ty = (Inr (), z')"
      using True ts f(2) by (auto simp: capture_ptr_def off_def z'_def)
    have "capR g z'" using f g True
      by (auto simp: capR_def z'_def same_scan_def off_def)
    then show ?thesis using c by (intro capQ_ok [of _ z']) (auto simp: z'_def)
  next
    case False
    then have "capture_ptr z p ty = (Inl JSON_TOKEN_ARRAY_TOO_SMALL, z)"
      using f(2) by (auto simp: capture_ptr_def off_def split: option.splits)
    then show ?thesis using False f g by (intro capQ_fail [of _ z]) auto
  qed
qed

lemma capR_capture_len:
  "capR f z \<Longrightarrow> capR (snd (capture_len f i p)) (snd (capture_len z i p)) \<and>
     max_tokens (snd (capture_len z i p)) = max_tokens z"
  by (auto simp: capR_def capture_len_def same_scan_def off_def split: option.splits)

lemma capR_num: "capR f z \<Longrightarrow> num_tokens z = num_tokens f"
  by (simp add: capR_def)

lemma cap_exec_plan:
  assumes "capR f z" "exec_plan f p = (Inr (), g)"
  shows "capQ z (Some (exec_plan z p)) g"
proof (cases p)
  case (Fail e q)
  then show ?thesis using assms by simp
next
  case (Move q)
  then show ?thesis using assms capR_move [OF assms(1), of q]
    by (intro capQ_ok [of _ "z\<lparr>curp := q\<rparr>"]) auto
next
  case (Token q pt ty rest)
  obtain r1 f2 where c: "capture_ptr (f\<lparr>curp := q\<rparr>) pt ty = (r1, f2)"
    by (cases "capture_ptr (f\<lparr>curp := q\<rparr>) pt ty")
  have r1: "r1 = Inr ()" using assms(2) Token c by (cases r1) auto
  obtain p2 q3 where rest: "rest = Inr (p2, q3)"
    using assms(2) Token c r1 by (cases rest) auto
  have g: "g = (snd (capture_len f2 (num_tokens f2 - 1) p2))\<lparr>curp := q3\<rparr>"
    using assms(2) Token c r1 rest by simp
  from cap_capture_ptr [OF capR_move [OF assms(1), of q] c [unfolded r1]]
  show ?thesis
  proof (cases rule: capQ_cases)
    case (ok z2)
    note l = capR_capture_len [OF ok(2), of "num_tokens f2 - 1" p2]
    have n: "num_tokens z2 = num_tokens f2" using ok(2) by (rule capR_num)
    have "capR g ((snd (capture_len z2 (num_tokens z2 - 1) p2))\<lparr>curp := q3\<rparr>)"
      unfolding g n using l capR_move by blast
    then show ?thesis using ok l Token rest n
      by (intro capQ_ok [of _ "(snd (capture_len z2 (num_tokens z2 - 1) p2))\<lparr>curp := q3\<rparr>"]) auto
  next
    case (fail z2)
    have "num_tokens g = num_tokens f2" unfolding g by (simp add: capture_len_step)
    then show ?thesis using fail Token by (intro capQ_fail [of _ z2]) auto
  qed
qed

lemma capR_step_fail:
  "X = Some (Inl JSON_TOKEN_ARRAY_TOO_SMALL, z') \<Longrightarrow> max_tokens z < num_tokens f1 \<Longrightarrow>
   step f1 g \<Longrightarrow> capQ z X g"
  by (rule capQ_fail) (auto simp: step_def)

lemma capQ_curp [simp]: "capQ (z\<lparr>curp := q\<rparr>) X g = capQ z X g"
  by (simp add: capQ_def)

lemma capQ_max: "max_tokens z1 = max_tokens z \<Longrightarrow> capQ z1 X g = capQ z X g"
  by (simp add: capQ_def)

lemma cap_composite:
  "cap_sim parse_value n \<and> cap_sim parse_array n \<and> cap_sim array_loop n \<and>
   cap_sim parse_pair n \<and> cap_sim parse_object n \<and> cap_sim object_loop n"
proof (induction n)
  case 0
  show ?case
    by (simp add: cap_sim_def parse_value.simps parse_array.simps array_loop.simps
        parse_pair.simps parse_object.simps object_loop.simps)
next
  case (Suc n)
  then have IH: "cap_sim parse_value n" "cap_sim parse_array n" "cap_sim array_loop n"
    "cap_sim parse_pair n" "cap_sim parse_object n" "cap_sim object_loop n"
    by auto
  have v: "cap_sim parse_value (Suc n)"
    unfolding cap_sim_def
  proof (intro allI impI)
    fix f z g :: frozen
    assume a: "parse_value (Suc n) f = Some (Inr (), g)" and R: "capR f z"
    have eq: "buf z = buf f" "endp z = endp f" "curp z = curp f"
      using R by (auto simp: capR_def same_scan_def)
    show "capQ z (parse_value (Suc n) z) g"
    proof (cases "value_plan (buf f) (endp f) (curp f)")
      case (Leaf p)
      then show ?thesis using a cap_exec_plan [OF R, of p g]
        by (simp add: parse_value_plan eq)
    next
      case (Obj q)
      then have "parse_object n (f\<lparr>curp := q\<rparr>) = Some (Inr (), g)"
        using a by (simp add: parse_value_plan)
      from cap_simD [OF IH(5) this capR_move [OF R]]
      show ?thesis using Obj by (simp add: parse_value_plan eq)
    next
      case (Arr q)
      then have "parse_array n (f\<lparr>curp := q\<rparr>) = Some (Inr (), g)"
        using a by (simp add: parse_value_plan)
      from cap_simD [OF IH(2) this capR_move [OF R]]
      show ?thesis using Arr by (simp add: parse_value_plan eq)
    qed
  qed
  have a: "cap_sim parse_array (Suc n)"
    unfolding cap_sim_def
  proof (intro allI impI)
    fix f z g :: frozen
    assume a: "parse_array (Suc n) f = Some (Inr (), g)" and R: "capR f z"
    from a show "capQ z (parse_array (Suc n) z) g"
    proof (cases rule: parse_array_cases)
      case (ok f1 f2 f3 f4)
      note t1 = cap_test_and_skip [OF R ok(1)]
      have st: "step f2 f3" "step f3 f4" "step f4 g"
        using array_loop_step [OF ok(3)] test_and_skip_step [OF ok(4)] ok(5)
          capture_len_step [of f4 "num_tokens f2 - 1" "int (curp f4)"] by auto
      from cap_capture_ptr [OF t1 [THEN conjunct2] ok(2)]
      show ?thesis
      proof (cases rule: capQ_cases)
        case (fail z2)
        have "step f2 g" using st by (blast intro: step_trans)
        with fail have "capQ z (Some (Inl JSON_TOKEN_ARRAY_TOO_SMALL, z2)) g"
          by (intro capR_step_fail [of _ z2 z f2 g]) auto
        then show ?thesis using t1 fail(1)
          by (subst parse_array_Suc) simp
      next
        case c: (ok z2)
        have n2: "num_tokens z2 = num_tokens f2" using c(2) by (rule capR_num)
        from cap_simD [OF IH(3) ok(3) c(2)]
        show ?thesis
        proof (cases rule: capQ_cases)
          case (fail z3)
          have "step f3 g" using st by (blast intro: step_trans)
          with fail c(3) have "capQ z (Some (Inl JSON_TOKEN_ARRAY_TOO_SMALL, z3)) g"
            by (intro capR_step_fail [of _ z3 z f3 g]) auto
          then show ?thesis using t1 c(1) fail(1)
            by (subst parse_array_Suc) simp
        next
          case l: (ok z3)
          note t2 = cap_test_and_skip [OF l(2) ok(4)]
          note cl = capR_capture_len [OF t2 [THEN conjunct2], of "num_tokens f2 - 1" "int (curp f4)"]
          have "capQ z (Some (Inr (), snd (capture_len (z3\<lparr>curp := curp f4\<rparr>) (num_tokens f2 - 1)
                  (int (curp f4))))) g"
            using cl l(3) c(3) unfolding ok(5) by (intro capQ_ok [OF refl]) auto
          then show ?thesis using t1 c(1) l(1) t2 n2
            by (subst parse_array_Suc) simp
        qed
      qed
    qed simp_all
  qed
  have ob: "cap_sim parse_object (Suc n)"
    unfolding cap_sim_def
  proof (intro allI impI)
    fix f z g :: frozen
    assume a: "parse_object (Suc n) f = Some (Inr (), g)" and R: "capR f z"
    from a show "capQ z (parse_object (Suc n) z) g"
    proof (cases rule: parse_object_cases)
      case (ok f1 f2 f3 f4)
      note t1 = cap_test_and_skip [OF R ok(1)]
      have st: "step f2 f3" "step f3 f4" "step f4 g"
        using object_loop_step [OF ok(3)] test_and_skip_step [OF ok(4)] ok(5)
          capture_len_step [of f4 "num_tokens f2 - 1" "int (curp f4)"] by auto
      from cap_capture_ptr [OF t1 [THEN conjunct2] ok(2)]
      show ?thesis
      proof (cases rule: capQ_cases)
        case (fail z2)
        have "step f2 g" using st by (blast intro: step_trans)
        with fail have "capQ z (Some (Inl JSON_TOKEN_ARRAY_TOO_SMALL, z2)) g"
          by (intro capR_step_fail [of _ z2 z f2 g]) auto
        then show ?thesis using t1 fail(1)
          by (subst parse_object_Suc) simp
      next
        case c: (ok z2)
        have n2: "num_tokens z2 = num_tokens f2" using c(2) by (rule capR_num)
        from cap_simD [OF IH(6) ok(3) c(2)]
        show ?thesis
        proof (cases rule: capQ_cases)
          case (fail z3)
          have "step f3 g" using st by (blast intro: step_trans)
          with fail c(3) have "capQ z (Some (Inl JSON_TOKEN_ARRAY_TOO_SMALL, z3)) g"
            by (intro capR_step_fail [of _ z3 z f3 g]) auto
          then show ?thesis using t1 c(1) fail(1)
            by (subst parse_object_Suc) simp
        next
          case l: (ok z3)
          note t2 = cap_test_and_skip [OF l(2) ok(4)]
          note cl = capR_capture_len [OF t2 [THEN conjunct2], of "num_tokens f2 - 1" "int (curp f4)"]
          have "capQ z (Some (Inr (), snd (capture_len (z3\<lparr>curp := curp f4\<rparr>) (num_tokens f2 - 1)
                  (int (curp f4))))) g"
            using cl l(3) c(3) unfolding ok(5) by (intro capQ_ok [OF refl]) auto
          then show ?thesis using t1 c(1) l(1) t2 n2
            by (subst parse_object_Suc) simp
        qed
      qed
    qed simp_all
  qed
  have al: "cap_sim array_loop (Suc n)"
    unfolding cap_sim_def
  proof (intro allI impI)
    fix f z g :: frozen
    assume a: "array_loop (Suc n) f = Some (Inr (), g)" and R: "capR f z"
    from a show "capQ z (array_loop (Suc n) z) g"
    proof (cases rule: array_loop_cases)
      case stop
      note c = cap_cur [OF R stop(1)]
      have "capQ z (Some (Inr (), z\<lparr>curp := curp g\<rparr>)) g"
        using c by (intro capQ_ok [OF refl]) auto
      then show ?thesis using c by (subst array_loop_Suc) simp
    next
      case (iter ch f1 f2)
      note c = cap_cur [OF R iter(1)]
      have st: "step (separator f2) g" using array_loop_step [OF iter(4)] .
      from cap_simD [OF IH(1) iter(3) c [THEN conjunct2]]
      show ?thesis
      proof (cases rule: capQ_cases)
        case (fail z2)
        have "step f2 g" using st separator_step [of f2] by (blast intro: step_trans)
        with fail have "capQ z (Some (Inl JSON_TOKEN_ARRAY_TOO_SMALL, z2)) g"
          by (intro capR_step_fail [of _ z2 z f2 g]) auto
        then show ?thesis using c fail(1) iter(2)
          by (subst array_loop_Suc) simp
      next
        case v: (ok z2)
        note sp = cap_separator [OF v(2)]
        have m: "max_tokens (separator z2) = max_tokens z"
          using v(3) by (simp add: separator_pure)
        have "capQ z (array_loop n (separator z2)) g"
          using cap_simD [OF IH(3) iter(4) sp] capQ_max [OF m] by simp
        then show ?thesis using c v(1) iter(2)
          by (subst array_loop_Suc) simp
      qed
    qed simp
  qed
  have ol: "cap_sim object_loop (Suc n)"
    unfolding cap_sim_def
  proof (intro allI impI)
    fix f z g :: frozen
    assume a: "object_loop (Suc n) f = Some (Inr (), g)" and R: "capR f z"
    from a show "capQ z (object_loop (Suc n) z) g"
    proof (cases rule: object_loop_cases)
      case stop
      note c = cap_cur [OF R stop(1)]
      have "capQ z (Some (Inr (), z\<lparr>curp := curp g\<rparr>)) g"
        using c by (intro capQ_ok [OF refl]) auto
      then show ?thesis using c by (subst object_loop_Suc) simp
    next
      case (iter ch f1 f2)
      note c = cap_cur [OF R iter(1)]
      have st: "step (separator f2) g" using object_loop_step [OF iter(4)] .
      from cap_simD [OF IH(4) iter(3) c [THEN conjunct2]]
      show ?thesis
      proof (cases rule: capQ_cases)
        case (fail z2)
        have "step f2 g" using st separator_step [of f2] by (blast intro: step_trans)
        with fail have "capQ z (Some (Inl JSON_TOKEN_ARRAY_TOO_SMALL, z2)) g"
          by (intro capR_step_fail [of _ z2 z f2 g]) auto
        then show ?thesis using c fail(1) iter(2)
          by (subst object_loop_Suc) simp
      next
        case v: (ok z2)
        note sp = cap_separator [OF v(2)]
        have m: "max_tokens (separator z2) = max_tokens z"
          using v(3) by (simp add: separator_pure)
        have "capQ z (object_loop n (separator z2)) g"
          using cap_simD [OF IH(6) iter(4) sp] capQ_max [OF m] by simp
        then show ?thesis using c v(1) iter(2)
          by (subst object_loop_Suc) simp
      qed
    qed simp
  qed
  have p: "cap_sim parse_pair (Suc n)"
    unfolding cap_sim_def
  proof (intro allI impI)
    fix f z g :: frozen
    assume a: "parse_pair (Suc n) f = Some (Inr (), g)" and R: "capR f z"
    have eq: "buf z = buf f" "endp z = endp f" "curp z = curp f"
      using R by (auto simp: capR_def same_scan_def)
    from a show "capQ z (parse_pair (Suc n) z) g"
    proof (cases rule: parse_pair_cases)
      case (val f1 f2)
      have st: "step f1 f2" "step f2 g"
        using test_and_skip_step [OF val(2)] parse_value_adv [OF val(3)] by (auto simp: adv_def)
      have "capQ z (Some (parse_key z)) f1"
        using cap_exec_plan [OF R, of "key_plan (buf f) (endp f) (curp f)" f1] val(1)
        by (simp add: parse_key_plan eq)
      then show ?thesis
      proof (cases rule: capQ_cases)
        case (fail z1)
        have "step f1 g" using st by (blast intro: step_trans)
        with fail have "capQ z (Some (Inl JSON_TOKEN_ARRAY_TOO_SMALL, z1)) g"
          by (intro capR_step_fail [of _ z1 z f1 g]) auto
        then show ?thesis using fail(1) by (subst parse_pair_Suc) simp
      next
        case k: (ok z1)
        note t = cap_test_and_skip [OF k(2) val(2)]
        have "capQ z (parse_value n (z1\<lparr>curp := curp f2\<rparr>)) g"
          using cap_simD [OF IH(1) val(3) t [THEN conjunct2]] capQ_max [OF k(3)] by simp
        then show ?thesis using k(1) t by (subst parse_pair_Suc) simp
      qed
    qed simp_all
  qed
  show ?case using v a ob al ol p by simp
qed

lemmas parse_object_cap_sim =
  cap_composite [THEN conjunct2, THEN conjunct2, THEN conjunct2, THEN conjunct2, THEN conjunct1, THEN cap_simD]

lemma finish_ok:
  assumes "fst (finish (r, g)) = Inr c"
  shows "r = Inr () \<and> (\<exists>g2. capture_ptr g (int (curp g)) JSON_TYPE_EOF = (Inr (), g2) \<and>
           snd (finish (r, g)) = snd (capture_len g2 (num_tokens g2) (int (curp g2))) \<and>
           c = int (curp g))"
proof (cases r)
  case (Inl e)
  then show ?thesis using assms by (simp add: finish_def)
next
  case (Inr u)
  obtain r2 g2 where c: "capture_ptr g (int (curp g)) JSON_TYPE_EOF = (r2, g2)"
    by (cases "capture_ptr g (int (curp g)) JSON_TYPE_EOF")
  have "r2 = Inr ()" using assms Inr c by (cases r2) (auto simp: finish_def)
  then show ?thesis using assms Inr c capture_ptr_scan [OF c] by (auto simp: finish_def Let_def)
qed

text \<open>
  C3: let the input be valid, that is, let the call succeed with some non-null array of
  capacity \<open>K\<close>, and let \<open>N\<close> be the number of tokens it records, the end-of-input marker
  included. Then with any non-null array of capacity \<open>k > 0\<close> the call gives TooManyTokens
  when \<open>k < N\<close>, and succeeds with the same value when \<open>N \<le> k\<close>, in particular when
  \<open>k = N\<close>.
\<close>

theorem C3_capacity_boundary:
  assumes "fst (parse_json s s_len (Some ts) K) = Inr c" and "K \<noteq> 0" and "0 < k"
  shows "(k < num_tokens (snd (parse_json s s_len (Some ts) K)) \<longrightarrow>
            fst (parse_json s s_len (Some ts') k) = Inl JSON_TOKEN_ARRAY_TOO_SMALL) \<and>
         (num_tokens (snd (parse_json s s_len (Some ts) K)) \<le> k \<longrightarrow>
            fst (parse_json s s_len (Some ts') k) = Inr c)"
proof -
  have ns: "\<not> (s = None \<or> s_len \<le> 0)"
  proof
    assume "s = None \<or> s_len \<le> 0"
    then consider "s = None \<or> s_len < 0" | b where "s = Some b" "s_len = 0"
      by (cases s; cases "s_len = 0") auto
    then show False using assms(1) by cases (simp_all add: parse_json_guard parse_json_empty)
  qed
  then obtain b where s: "s = Some b" and l: "0 < s_len" by auto
  define N where "N = 4 * nat s_len + 2"
  define f0 where "f0 = init_frozen b s_len (Some ts) K"
  define z0 where "z0 = init_frozen b s_len (Some ts') k"
  obtain r1 g1 where f: "parse_object N f0 = Some (r1, g1)"
    using parse_object_total [of f0] by (auto simp: f0_def N_def)
  have pf: "parse_json s s_len (Some ts) K = finish (r1, g1)"
    using f by (simp add: s parse_json_unfold [OF l] f0_def N_def)
  have pz: "parse_json s s_len (Some ts') k = finish (the (parse_object N z0))"
    by (simp add: s parse_json_unfold [OF l] z0_def N_def)
  from finish_ok [OF assms(1) [unfolded pf]] obtain g2 where r1: "r1 = Inr ()"
    and c2: "capture_ptr g1 (int (curp g1)) JSON_TYPE_EOF = (Inr (), g2)"
    and fin: "snd (finish (r1, g1)) = snd (capture_len g2 (num_tokens g2) (int (curp g2)))"
    and c: "c = int (curp g1)"
    by blast
  have nf: "num_tokens (snd (parse_json s s_len (Some ts) K)) = num_tokens g2"
    unfolding pf fin by (simp add: capture_len_step)
  have R: "capR f0 z0"
    using assms(2,3) by (simp add: capR_def same_scan_def off_def f0_def z0_def)
  have mz: "max_tokens z0 = k" by (simp add: z0_def)
  from parse_object_cap_sim [OF f [unfolded r1] R]
  show ?thesis
  proof (cases rule: capQ_cases)
    case (fail z1)
    have "step g1 g2" using capture_ptr_step [OF c2] by simp
    then have "k < num_tokens g2" using fail(2) mz by (simp add: step_def)
    moreover have "fst (parse_json s s_len (Some ts') k) = Inl JSON_TOKEN_ARRAY_TOO_SMALL"
      unfolding pz fail(1) by (simp add: finish_def)
    ultimately show ?thesis unfolding nf by simp
  next
    case (ok z1)
    from cap_capture_ptr [OF ok(2) c2]
    show ?thesis
    proof (cases rule: capQ_cases)
      case e: (fail z2)
      have "fst (parse_json s s_len (Some ts') k) = Inl JSON_TOKEN_ARRAY_TOO_SMALL"
        using e(1) ok(2) unfolding pz ok(1) by (simp add: finish_def capR_def same_scan_def)
      then show ?thesis unfolding nf using e(2) ok(3) mz by simp
    next
      case e: (ok z2)
      have "num_tokens g2 \<le> k" using e(2,3) ok(3) mz by (simp add: capR_def)
      moreover have "curp z1 = curp g1" "curp z2 = curp z1"
        using ok(2) e(1) capture_ptr_scan [of z1 _ _ "Inr ()" z2]
        by (auto simp: capR_def same_scan_def)
      then have "fst (parse_json s s_len (Some ts') k) = Inr c"
        using e(1) unfolding pz ok(1) c
        by (simp add: finish_def Let_def)
      ultimately show ?thesis unfolding nf by simp
    qed
  qed
qed

theorem C3_capacity_boundary_witness:
  "fst (parse_json (Some ''{a:1}'') 5 (Some (replicate 7 tok0)) 1) = Inl JSON_TOKEN_ARRAY_TOO_SMALL \<and>
   fst (parse_json (Some ''{a:1}'') 5 (Some (replicate 7 tok0)) 3) = Inl JSON_TOKEN_ARRAY_TOO_SMALL \<and>
   fst (parse_json (Some ''{a:1}'') 5 (Some (replicate 7 tok0)) 4) = Inr 5"
proof -
  have e: "fst (parse_json (Some ''{a:1}'') 5 (Some (replicate 7 tok0)) 7) = Inr 5"
    "num_tokens (snd (parse_json (Some ''{a:1}'') 5 (Some (replicate 7 tok0)) 7)) = 4"
    by code_simp+
  show ?thesis
    using C3_capacity_boundary [OF e(1), of 1 "replicate 7 tok0"]
      C3_capacity_boundary [OF e(1), of 3 "replicate 7 tok0"]
      C3_capacity_boundary [OF e(1), of 4 "replicate 7 tok0"] e(2)
    by simp
qed

section \<open>Runs on inputs that agree on what is consumed\<close>

lemma agree_scan_while:
  assumes "agree k b e b' e'" "scan_while P b e i < k"
  shows "scan_while P b' e' i = scan_while P b e i"
proof (rule scan_while_unique)
  show "i \<le> scan_while P b e i" by (rule scan_while_ge)
  show "\<forall>j. i \<le> j \<and> j < scan_while P b e i \<longrightarrow> j < e' \<and> P (byte b' j)"
    using scan_while_spec [of i P b e] assms by (auto simp: agree_def)
  show "\<not> (scan_while P b e i < e' \<and> P (byte b' (scan_while P b e i)))"
    using scan_while_spec [of i P b e] assms by (auto simp: agree_def)
qed

lemma agree_ws: "agree k b e b' e' \<Longrightarrow> ws b e i < k \<Longrightarrow> ws b' e' i = ws b e i"
  unfolding ws_def by (rule agree_scan_while)

lemma agree_peek: "agree k b e b' e' \<Longrightarrow> ws b e i < k \<Longrightarrow> peek b' e' i = peek b e i"
  using agree_ws [of k b e b' e' i] by (auto simp: peek_def agree_def)

lemma agree_cmp: "agree k b e b' e' \<Longrightarrow> cmp b e i str n \<Longrightarrow> i + n \<le> k \<Longrightarrow> cmp b' e' i str n"
  by (auto simp: cmp_def agree_def)

lemma get_escape_len_pure:
  "get_escape_len f p n =
     (let c = byte (buf f) p in
      if c = 117 then (if n < 4 then Inl JSON_STRING_INCOMPLETE else Inl JSON_STRING_INVALID)
      else if c = 34 \<or> c = 92 \<or> c = 47 \<or> c = 98 \<or> c = 102 \<or> c = 110 \<or> c = 114 \<or> c = 116 then
        (if n < 2 then Inl JSON_STRING_INCOMPLETE else Inr 1)
      else Inl JSON_STRING_INVALID)"
  by (simp add: get_escape_len_def byte_at_byte Let_def is_hex_digit_def is_digit_def)

lemma string_scan_Quote_ge: "string_scan b e ch0 i = Quote q \<Longrightarrow> i \<le> q \<and> q < e"
proof (induction "e - i" arbitrary: i ch0 rule: less_induct)
  case less
  show ?case
  proof (cases "i < e")
    case False
    then show ?thesis using less.prems by (subst (asm) string_scan.simps) simp
  next
    case True
    have IH: "j \<le> q \<and> q < e" if "string_scan b e c j = Quote q" "i < j" for c j
      using less.hyps [of j c] that True by auto
    show ?thesis
      using less.prems(1) True
      apply (subst (asm) string_scan.simps)
      apply (simp add: Let_def split: if_splits sum.splits)
       apply (drule IH, simp, simp)
      apply (drule IH, simp, simp)
      done
  qed
qed

lemma agree_string_scan:
  assumes "agree k b e b' e'"
  shows "string_scan b e ch0 i = Quote q \<Longrightarrow> q < k \<Longrightarrow> string_scan b' e' ch0 i = Quote q"
proof (induction "e - i" arbitrary: i ch0 rule: less_induct)
  case less
  have iq: "i \<le> q" "q < e" using string_scan_Quote_ge [OF less.prems(1)] by auto
  then have ie: "i < e" "i < e'" "i < k" using less.prems(2) assms by (auto simp: agree_def)
  have bi: "byte b' i = byte b i" using assms ie by (simp add: agree_def)
  have IH: "string_scan b' e' c j = Quote q" if "string_scan b e c j = Quote q" "i < j" for c j
    using less.hyps [of j c] that ie less.prems(2) by auto
  consider (esc) "byte b i = 92" | (quote) "byte b i = 34" | (other) "byte b i \<noteq> 92" "byte b i \<noteq> 34"
    by blast
  then show ?case
  proof cases
    case esc
    then obtain n where n: "get_escape_len \<lparr>buf = b, endp = e, curp = i, tokens = None,
           max_tokens = 0, num_tokens = 0\<rparr> (i + 1) (int e - int i) = Inr n"
      and r: "string_scan b e 92 (i + n + 1) = Quote q"
      using less.prems(1) ie
      by (subst (asm) string_scan.simps) (auto simp: Let_def split: if_splits sum.splits)
    have n1: "n = 1" using get_escape_len_Inr [OF n] by simp
    have "i + 2 \<le> q" using string_scan_Quote_ge [OF r] n1 by simp
    then have i1: "i + 1 < k" "i + 2 \<le> e'" using less.prems(2) assms by (auto simp: agree_def)
    then have b1: "byte b' (i + 1) = byte b (i + 1)" using assms by (simp add: agree_def)
    have n': "get_escape_len \<lparr>buf = b', endp = e', curp = i, tokens = None,
           max_tokens = 0, num_tokens = 0\<rparr> (i + 1) (int e' - int i) = Inr 1"
      using n n1 b1 i1 by (auto simp: get_escape_len_pure Let_def split: if_splits)
    show ?thesis using IH [OF r] ie esc bi n' n1
      by (subst string_scan.simps) (simp add: Let_def)
  next
    case quote
    then have "q = i" using less.prems(1) ie
      by (subst (asm) string_scan.simps) (auto simp: Let_def split: if_splits)
    then show ?thesis using quote ie bi
      by (subst string_scan.simps) (simp add: Let_def)
  next
    case other
    then have r: "string_scan b e (byte b i) (i + 1) = Quote q"
      and rng: "32 \<le> byte b i" "byte b i \<le> 127"
      using less.prems(1) ie
      by (subst (asm) string_scan.simps, auto simp: Let_def split: if_splits)+
    show ?thesis using IH [OF r] ie other bi rng
      by (subst string_scan.simps) (simp add: Let_def)
  qed
qed

lemma ws_ge: "i \<le> ws b e i"
  unfolding ws_def by (rule scan_while_ge)

lemma agree_tas_plan:
  assumes "agree k b e b' e'" "tas_plan b e i c = Move q" "q \<le> k"
  shows "tas_plan b' e' i c = Move q"
proof -
  have q: "q = ws b e i + 1" "peek b e i = c" using assms(2) by (auto simp: tas_plan_def split: if_splits)
  then have "ws b e i < k" using assms(3) by simp
  then show ?thesis using agree_ws [OF assms(1)] agree_peek [OF assms(1)] q
    by (simp add: tas_plan_def)
qed

lemma scan_while_first: "i < e \<Longrightarrow> P (byte b i) \<Longrightarrow> i < scan_while P b e i"
  using scan_while_ge [of "i + 1" P b e] by (subst scan_while.simps) simp

lemma agree_ident_plan:
  assumes "agree k b e b' e'" "plan_rc (ident_plan b e i) = Inr ()" "plan_end (ident_plan b e i) < k"
  shows "ident_plan b' e' i = ident_plan b e i"
proof -
  have a: "is_alpha (peek b e i)" and q: "scan_while is_ident b e (ws b e i) < k"
    using assms(2,3) by (auto simp: ident_plan_def split: if_splits)
  have "ws b e i \<le> scan_while is_ident b e (ws b e i)" by (rule scan_while_ge)
  then have w: "ws b e i < k" using q by simp
  show ?thesis
    using agree_ws [OF assms(1) w] agree_peek [OF assms(1) w] agree_scan_while [OF assms(1) q]
    by (simp add: ident_plan_def)
qed

lemma agree_string_plan:
  assumes "agree k b e b' e'" "plan_rc (string_plan b e i) = Inr ()" "plan_end (string_plan b e i) \<le> k"
  shows "string_plan b' e' i = string_plan b e i"
proof -
  have p: "peek b e i = 34" using assms(2) by (auto simp: string_plan_def split: if_splits)
  then obtain q where q: "string_scan b e 0 (ws b e i + 1) = Quote q"
    using assms(2) by (auto simp: string_plan_def split: scan_res.splits)
  then have qk: "q < k" using assms(3) p by (simp add: string_plan_def)
  have "ws b e i + 1 \<le> q" using string_scan_Quote_ge [OF q] by simp
  then have w: "ws b e i < k" using qk by simp
  show ?thesis
    using agree_ws [OF assms(1) w] agree_peek [OF assms(1) w] agree_string_scan [OF assms(1) q qk] q p
    by (simp add: string_plan_def)
qed

lemma agree_key_plan:
  assumes "agree k b e b' e'" "plan_rc (key_plan b e i) = Inr ()" "plan_end (key_plan b e i) < k"
  shows "key_plan b' e' i = key_plan b e i"
proof (cases "is_alpha (peek b e i)")
  case True
  then have kp: "key_plan b e i = ident_plan b e i" by (simp add: key_plan_def)
  have "ws b e i \<le> scan_while is_ident b e (ws b e i)" by (rule scan_while_ge)
  then have w: "ws b e i < k" using assms(3) True unfolding kp by (simp add: ident_plan_def)
  show ?thesis
    using assms(2,3) agree_ident_plan [OF assms(1), of i] agree_peek [OF assms(1) w] True
    by (simp add: key_plan_def)
next
  case False
  then have p: "peek b e i = 34" using assms(2) by (auto simp: key_plan_def split: if_splits)
  then have kp: "key_plan b e i = string_plan b e i" using False by (simp add: key_plan_def)
  obtain q where q: "string_scan b e 0 (ws b e i + 1) = Quote q"
    using assms(2) p unfolding kp by (auto simp: string_plan_def split: scan_res.splits)
  have "ws b e i + 1 \<le> q" using string_scan_Quote_ge [OF q] by simp
  then have w: "ws b e i < k" using assms(3) p q unfolding kp by (simp add: string_plan_def)
  show ?thesis
    using assms(2,3) agree_string_plan [OF assms(1), of i] agree_peek [OF assms(1) w] False p
    by (simp add: key_plan_def)
qed

lemma agree_number_plan:
  assumes "agree k b e b' e'" "plan_end (number_plan b e i) < k"
  shows "number_plan b' e' i = number_plan b e i"
proof -
  define st where "st = (if peek b e i = 45 then ws b e i + 1 else ws b e i)"
  have q: "scan_while is_digit b e st < k"
    using assms(2) by (simp add: number_plan_def st_def Let_def)
  have "ws b e i \<le> st" by (simp add: st_def)
  also have "st \<le> scan_while is_digit b e st" by (rule scan_while_ge)
  finally have w: "ws b e i < k" using q by simp
  have "scan_while is_digit b' e' st = scan_while is_digit b e st"
    using agree_scan_while [OF assms(1) q] .
  then show ?thesis
    using agree_ws [OF assms(1) w] agree_peek [OF assms(1) w]
    by (auto simp: number_plan_def st_def Let_def)
qed

lemma agree_sep_pos:
  assumes "agree k b e b' e'" "sep_pos b e i < k"
  shows "sep_pos b' e' i = sep_pos b e i"
proof -
  have w: "ws b e i < k" using assms(2) by (auto simp: sep_pos_def split: if_splits)
  show ?thesis using agree_ws [OF assms(1) w] agree_peek [OF assms(1) w] by (simp add: sep_pos_def)
qed

lemma is_digit_lit: "is_digit ch \<Longrightarrow> ch \<noteq> 34 \<and> ch \<noteq> 123 \<and> ch \<noteq> 91 \<and> ch \<noteq> 110 \<and> ch \<noteq> 116 \<and> ch \<noteq> 102 \<and> ch \<noteq> 45"
  by (auto simp: is_digit_def)

lemma agree_vkind:
  assumes "agree k b e b' e'" and w: "ws b e i < k"
    and lit: "\<And>ty n. vkind b e i = KLit ty n \<Longrightarrow> ws b e i + n \<le> k"
    and num: "vkind b e i = KNumber \<Longrightarrow> peek b e i = 45 \<Longrightarrow> ws b e i + 1 < k"
    and ne: "vkind b e i \<noteq> KError"
  shows "vkind b' e' i = vkind b e i"
proof -
  note p = agree_peek [OF assms(1) w] and ww = agree_ws [OF assms(1) w]
  define ch where "ch = peek b e i"
  define q where "q = ws b e i"
  consider (s) "ch = 34" | (o) "ch = 123" | (a) "ch = 91"
    | (n) "ch = 110" "cmp b e q ''null'' 4"
    | (t) "ch = 116" "cmp b e q ''true'' 4"
    | (f) "ch = 102" "cmp b e q ''false'' 5"
    | (d) "is_digit ch"
    | (m) "ch = 45" "q + 1 < e" "is_digit (byte b (q + 1))"
    using ne unfolding vkind_def Let_def ch_def [symmetric] q_def [symmetric]
    by (auto split: if_splits)
  then show ?thesis
  proof cases
    case n
    then have v: "vkind b e i = KLit JSON_TYPE_NULL 4" by (simp add: vkind_def ch_def q_def)
    have "cmp b' e' q ''null'' 4" using agree_cmp [OF assms(1) n(2)] lit [OF v] by (simp add: q_def)
    then show ?thesis using n p ww unfolding v by (simp add: vkind_def ch_def q_def)
  next
    case t
    then have v: "vkind b e i = KLit JSON_TYPE_TRUE 4" by (simp add: vkind_def ch_def q_def)
    have "cmp b' e' q ''true'' 4" using agree_cmp [OF assms(1) t(2)] lit [OF v] by (simp add: q_def)
    then show ?thesis using t p ww unfolding v by (simp add: vkind_def ch_def q_def)
  next
    case f
    then have v: "vkind b e i = KLit JSON_TYPE_FALSE 5" by (simp add: vkind_def ch_def q_def)
    have "cmp b' e' q ''false'' 5" using agree_cmp [OF assms(1) f(2)] lit [OF v] by (simp add: q_def)
    then show ?thesis using f p ww unfolding v by (simp add: vkind_def ch_def q_def)
  next
    case d
    then show ?thesis using is_digit_lit [OF d] p ww by (simp add: vkind_def ch_def q_def)
  next
    case m
    then have v: "vkind b e i = KNumber" by (simp add: vkind_def ch_def q_def is_digit_def)
    have "q + 1 < k" using num [OF v] m by (simp add: ch_def q_def)
    then have "q + 1 < e'" "byte b' (q + 1) = byte b (q + 1)" using assms(1) by (auto simp: agree_def)
    then show ?thesis using m p ww unfolding v by (simp add: vkind_def ch_def q_def is_digit_def)
  qed (use p ww in \<open>simp_all add: vkind_def ch_def q_def\<close>)
qed

lemma agr_simD:
  "agr_sim X strict n \<Longrightarrow> X n f = Some (Inr (), g) \<Longrightarrow> agrS k f f' \<Longrightarrow>
   (if strict then curp g < k else curp g \<le> k) \<Longrightarrow> X n f' = Some (Inr (), rebuf f' g)"
  unfolding agr_sim_def by blast

lemma rebuf_sel [simp]:
  "buf (rebuf f' g) = buf f'" "endp (rebuf f' g) = endp f'" "curp (rebuf f' g) = curp g"
  "tokens (rebuf f' g) = tokens g" "max_tokens (rebuf f' g) = max_tokens g"
  "num_tokens (rebuf f' g) = num_tokens g"
  by (simp_all add: rebuf_def)

lemma rebuf_rebuf [simp]: "rebuf (rebuf f' h) g = rebuf f' g"
  by (simp add: rebuf_def)

lemma rebuf_curp [simp]: "rebuf f' (g\<lparr>curp := c\<rparr>) = (rebuf f' g)\<lparr>curp := c\<rparr>"
  by (simp add: rebuf_def)

lemma rebuf_curp' [simp]: "rebuf (f'\<lparr>curp := c\<rparr>) g = rebuf f' g"
  by (simp add: rebuf_def)

lemma agrS_eq: "agrS k f f' \<Longrightarrow> f' = rebuf f' f"
  by (simp add: agrS_def rebuf_def)

lemma agrS_curp: "agrS k f f' \<Longrightarrow> curp f' = curp f"
  by (simp add: agrS_def)

lemma rebuf_self: "agrS k f f' \<Longrightarrow> rebuf f' (f\<lparr>curp := c\<rparr>) = f'\<lparr>curp := c\<rparr>"
  by (simp add: agrS_def rebuf_def)

lemma agrS_agree: "agrS k f f' \<Longrightarrow> agree k (buf f) (endp f) (buf f') (endp f')"
  by (simp add: agrS_def)

lemma agrS_step: "agrS k f f' \<Longrightarrow> buf g = buf f \<Longrightarrow> endp g = endp f \<Longrightarrow> agrS k g (rebuf f' g)"
  by (simp add: agrS_def)

lemma step_buf: "step f g \<Longrightarrow> buf g = buf f \<and> endp g = endp f"
  by (simp add: step_def)

lemma capture_ptr_rebuf:
  "capture_ptr f p ty = (r, g) \<Longrightarrow> capture_ptr (rebuf f' f) p ty = (r, rebuf f' g)"
  by (auto simp: capture_ptr_def rebuf_def split: option.splits if_splits)

lemma capture_len_rebuf:
  "snd (capture_len (rebuf f' f) i p) = rebuf f' (snd (capture_len f i p))"
  by (auto simp: capture_len_def rebuf_def split: option.splits if_splits)

lemma exec_plan_rebuf:
  "exec_plan f p = (r, g) \<Longrightarrow> exec_plan (rebuf f' f) p = (r, rebuf f' g)"
proof (cases p)
  case (Token q pt ty rest)
  assume a: "exec_plan f p = (r, g)"
  obtain r1 f2 where c: "capture_ptr (f\<lparr>curp := q\<rparr>) pt ty = (r1, f2)"
    by (cases "capture_ptr (f\<lparr>curp := q\<rparr>) pt ty")
  have c': "capture_ptr ((rebuf f' f)\<lparr>curp := q\<rparr>) pt ty = (r1, rebuf f' f2)"
    using capture_ptr_rebuf [OF c, of f'] by simp
  show ?thesis using a Token c c'
    by (cases r1; cases rest) (auto simp: capture_len_rebuf)
qed auto

lemma exec_plan_ok:
  "exec_plan f p = (Inr (), g) \<Longrightarrow> plan_rc p = Inr () \<and> curp g = plan_end p"
proof (cases p)
  case (Token q pt ty rest)
  assume a: "exec_plan f p = (Inr (), g)"
  obtain r1 f2 where c: "capture_ptr (f\<lparr>curp := q\<rparr>) pt ty = (r1, f2)"
    by (cases "capture_ptr (f\<lparr>curp := q\<rparr>) pt ty")
  show ?thesis using a Token c
    by (cases r1; cases rest) auto
qed auto

lemma agr_test_and_skip:
  assumes "agrS k f f'" "test_and_skip f c = (Inr (), f1)" "curp f1 \<le> k"
  shows "test_and_skip f' c = (Inr (), rebuf f' f1)"
proof -
  note t = tas_plan_ok [OF assms(2)]
  have "tas_plan (buf f') (endp f') (curp f) c = Move (curp f1)"
    using agree_tas_plan [OF agrS_agree [OF assms(1)] t [THEN conjunct1] assms(3)] .
  moreover have "curp f' = curp f" using assms(1) by (rule agrS_curp)
  moreover have "rebuf f' f1 = f'\<lparr>curp := curp f1\<rparr>"
    using t rebuf_self [OF assms(1), of "curp f1"] by simp
  ultimately show ?thesis by (simp add: test_and_skip_plan)
qed

lemma agr_cur:
  assumes "agrS k f f'" "cur f = (ch, f1)" "curp f1 < k"
  shows "cur f' = (ch, rebuf f' f1)"
proof -
  have f1: "f1 = f\<lparr>curp := ws (buf f) (endp f) (curp f)\<rparr>" "ch = peek (buf f) (endp f) (curp f)"
    using assms(2) by (auto simp: cur_pure)
  then have w: "ws (buf f) (endp f) (curp f) < k" using assms(3) by simp
  have c: "curp f' = curp f" using assms(1) by (rule agrS_curp)
  have "rebuf f' f1 = f'\<lparr>curp := curp f1\<rparr>"
    using f1 rebuf_self [OF assms(1), of "curp f1"] by simp
  then show ?thesis
    using agree_ws [OF agrS_agree [OF assms(1)] w] agree_peek [OF agrS_agree [OF assms(1)] w] f1 c
    by (simp add: cur_pure)
qed

lemma agr_separator:
  assumes "agrS k f f'" "curp (separator f) < k"
  shows "separator f' = rebuf f' (separator f)"
proof -
  have s: "sep_pos (buf f) (endp f) (curp f) < k" using assms(2) by (simp add: separator_pure)
  have c: "curp f' = curp f" using assms(1) by (rule agrS_curp)
  have "rebuf f' (separator f) = f'\<lparr>curp := sep_pos (buf f) (endp f) (curp f)\<rparr>"
    using rebuf_self [OF assms(1)] by (simp add: separator_pure)
  then show ?thesis using agree_sep_pos [OF agrS_agree [OF assms(1)] s] c
    by (simp add: separator_pure)
qed

lemma agr_parse_key:
  assumes "agrS k f f'" "parse_key f = (Inr (), f1)" "curp f1 < k"
  shows "parse_key f' = (Inr (), rebuf f' f1)"
proof -
  have e: "exec_plan f (key_plan (buf f) (endp f) (curp f)) = (Inr (), f1)"
    using assms(2) by (simp add: parse_key_plan)
  note ok = exec_plan_ok [OF e]
  have c: "curp f' = curp f" using assms(1) by (rule agrS_curp)
  have "key_plan (buf f') (endp f') (curp f) = key_plan (buf f) (endp f) (curp f)"
    using agree_key_plan [OF agrS_agree [OF assms(1)], of "curp f"] ok assms(3) by simp
  then show ?thesis using exec_plan_rebuf [OF e, of f'] agrS_eq [OF assms(1)] c
    by (simp add: parse_key_plan)
qed

lemma agree_value_plan:
  assumes "agree k b e b' e'" "value_plan b e i = vp"
    and "case vp of Leaf p \<Rightarrow> plan_rc p = Inr () \<and> plan_end p < k | Obj q \<Rightarrow> q < k | Arr q \<Rightarrow> q < k"
  shows "value_plan b' e' i = vp"
proof -
  have w: "ws b e i < k"
  proof (cases "vkind b e i")
    case KString
    then obtain q where q: "string_scan b e 0 (ws b e i + 1) = Quote q" "q + 1 < k"
      using assms(2,3) by (auto simp: value_plan_def string_plan_def split: scan_res.splits if_splits)
    then show ?thesis using string_scan_Quote_ge [OF q(1)] by simp
  next
    case KNumber
    define st where "st = (if peek b e i = 45 then ws b e i + 1 else ws b e i)"
    have "scan_while is_digit b e st < k"
      using assms(2,3) KNumber by (auto simp: value_plan_def number_plan_def st_def Let_def)
    moreover have "ws b e i \<le> st" by (simp add: st_def)
    moreover have "st \<le> scan_while is_digit b e st" by (rule scan_while_ge)
    ultimately show ?thesis by simp
  qed (use assms(2,3) in \<open>auto simp: value_plan_def lit_plan_def\<close>)
  have lit: "ws b e i + n \<le> k" if "vkind b e i = KLit ty n" for ty n
    using assms(2,3) that by (auto simp: value_plan_def lit_plan_def)
  have num: "ws b e i + 1 < k" if v: "vkind b e i = KNumber" and m: "peek b e i = 45"
  proof -
    have d: "ws b e i + 1 < e \<and> is_digit (byte b (ws b e i + 1))"
      using v m by (auto simp: vkind_def Let_def is_digit_def split: if_splits)
    have "scan_while is_digit b e (ws b e i + 1) < k"
      using assms(2,3) v m by (auto simp: value_plan_def number_plan_def Let_def)
    then show ?thesis using scan_while_first [of "ws b e i + 1" e is_digit b] d by simp
  qed
  have ne: "vkind b e i \<noteq> KError"
    using assms(2,3) by (auto simp: value_plan_def)
  have vk: "vkind b' e' i = vkind b e i"
  proof (rule agree_vkind [OF assms(1) w])
    fix ty n assume "vkind b e i = KLit ty n"
    then show "ws b e i + n \<le> k" by (rule lit)
  next
    assume "vkind b e i = KNumber" "peek b e i = 45"
    then show "ws b e i + 1 < k" by (rule num)
  next
    show "vkind b e i \<noteq> KError" by (rule ne)
  qed
  note ww = agree_ws [OF assms(1) w] agree_peek [OF assms(1) w]
  show ?thesis
  proof (cases "vkind b e i")
    case KString
    then show ?thesis using assms(2,3) vk ww agree_string_plan [OF assms(1), of i]
      by (auto simp: value_plan_def)
  next
    case KNumber
    then show ?thesis using assms(2,3) vk ww agree_number_plan [OF assms(1), of i]
      by (auto simp: value_plan_def)
  qed (use assms(2,3) vk ww in \<open>auto simp: value_plan_def\<close>)
qed

lemma agrS_move: "agrS k f f' \<Longrightarrow> agrS k (f\<lparr>curp := q\<rparr>) (f'\<lparr>curp := q\<rparr>)"
  by (simp add: agrS_def)

lemma agrS_next: "agrS k f f' \<Longrightarrow> step f g \<Longrightarrow> agrS k g (rebuf f' g)"
  by (simp add: agrS_def step_def)

lemma step_le: "step f g \<Longrightarrow> curp f \<le> curp g"
  by (simp add: step_def)

lemma agr_composite:
  "agr_sim parse_value True n \<and> agr_sim parse_array False n \<and> agr_sim array_loop True n \<and>
   agr_sim parse_pair True n \<and> agr_sim parse_object False n \<and> agr_sim object_loop True n"
proof (induction n)
  case 0
  show ?case
    by (simp add: agr_sim_def parse_value.simps parse_array.simps array_loop.simps
        parse_pair.simps parse_object.simps object_loop.simps)
next
  case (Suc n)
  then have IH: "agr_sim parse_value True n" "agr_sim parse_array False n"
    "agr_sim array_loop True n" "agr_sim parse_pair True n" "agr_sim parse_object False n"
    "agr_sim object_loop True n"
    by auto
  have v: "agr_sim parse_value True (Suc n)"
    unfolding agr_sim_def
  proof (intro allI impI)
    fix f f' g :: frozen and k
    assume a: "parse_value (Suc n) f = Some (Inr (), g)" and R: "agrS k f f'"
      and "if True then curp g < k else curp g \<le> k"
    then have b: "curp g < k" by simp
    note ag = agrS_agree [OF R] and c = agrS_curp [OF R]
    show "parse_value (Suc n) f' = Some (Inr (), rebuf f' g)"
    proof (cases "value_plan (buf f) (endp f) (curp f)")
      case (Leaf p)
      then have e: "exec_plan f p = (Inr (), g)" using a by (simp add: parse_value_plan)
      note ok = exec_plan_ok [OF e]
      have "value_plan (buf f') (endp f') (curp f) = Leaf p"
        using agree_value_plan [OF ag Leaf] ok b by simp
      then show ?thesis using exec_plan_rebuf [OF e, of f'] agrS_eq [OF R] c
        by (simp add: parse_value_plan)
    next
      case (Obj q)
      then have e: "parse_object n (f\<lparr>curp := q\<rparr>) = Some (Inr (), g)"
        using a by (simp add: parse_value_plan)
      have "q < curp g" using parse_object_adv [OF e] by (simp add: adv_def)
      then have "value_plan (buf f') (endp f') (curp f) = Obj q"
        using agree_value_plan [OF ag Obj] b by simp
      then show ?thesis using agr_simD [OF IH(5) e agrS_move [OF R]] b c
        by (simp add: parse_value_plan)
    next
      case (Arr q)
      then have e: "parse_array n (f\<lparr>curp := q\<rparr>) = Some (Inr (), g)"
        using a by (simp add: parse_value_plan)
      have "q < curp g" using parse_array_adv [OF e] by (simp add: adv_def)
      then have "value_plan (buf f') (endp f') (curp f) = Arr q"
        using agree_value_plan [OF ag Arr] b by simp
      then show ?thesis using agr_simD [OF IH(2) e agrS_move [OF R]] b c
        by (simp add: parse_value_plan)
    qed
  qed
  have a: "agr_sim parse_array False (Suc n)"
    unfolding agr_sim_def
  proof (intro allI impI)
    fix f f' g :: frozen and k
    assume a: "parse_array (Suc n) f = Some (Inr (), g)" and R: "agrS k f f'"
      and "if False then curp g < k else curp g \<le> k"
    then have b: "curp g \<le> k" by simp
    from a show "parse_array (Suc n) f' = Some (Inr (), rebuf f' g)"
    proof (cases rule: parse_array_cases)
      case (ok f1 f2 f3 f4)
      have st: "step f f1" "step f1 f2" "step f2 f3" "step f3 f4" "curp f3 < curp f4"
        "curp g = curp f4"
        using test_and_skip_step [OF ok(1)] capture_ptr_step [OF ok(2)] array_loop_step [OF ok(3)]
          test_and_skip_step [OF ok(4)] ok(5) by auto
      have le: "curp f1 \<le> k" "curp f3 < k" "curp f4 \<le> k"
        using st b by (auto dest!: step_le)
      note t1 = agr_test_and_skip [OF R ok(1) le(1)]
      note R1 = agrS_next [OF R st(1)]
      note c = capture_ptr_rebuf [OF ok(2), of f']
      note R2 = agrS_next [OF R1 st(2), simplified]
      have l: "array_loop n (rebuf f' f2) = Some (Inr (), rebuf f' f3)"
        using agr_simD [OF IH(3) ok(3) R2] le(2) by simp
      note R3 = agrS_next [OF R2 st(3), simplified]
      note t2 = agr_test_and_skip [OF R3 ok(4) le(3), simplified]
      show ?thesis using t1 c l t2 ok(5)
        by (subst parse_array_Suc) (simp add: capture_len_rebuf)
    qed simp_all
  qed
  have ob: "agr_sim parse_object False (Suc n)"
    unfolding agr_sim_def
  proof (intro allI impI)
    fix f f' g :: frozen and k
    assume a: "parse_object (Suc n) f = Some (Inr (), g)" and R: "agrS k f f'"
      and "if False then curp g < k else curp g \<le> k"
    then have b: "curp g \<le> k" by simp
    from a show "parse_object (Suc n) f' = Some (Inr (), rebuf f' g)"
    proof (cases rule: parse_object_cases)
      case (ok f1 f2 f3 f4)
      have st: "step f f1" "step f1 f2" "step f2 f3" "step f3 f4" "curp f3 < curp f4"
        "curp g = curp f4"
        using test_and_skip_step [OF ok(1)] capture_ptr_step [OF ok(2)] object_loop_step [OF ok(3)]
          test_and_skip_step [OF ok(4)] ok(5) by auto
      have le: "curp f1 \<le> k" "curp f3 < k" "curp f4 \<le> k"
        using st b by (auto dest!: step_le)
      note t1 = agr_test_and_skip [OF R ok(1) le(1)]
      note R1 = agrS_next [OF R st(1)]
      note c = capture_ptr_rebuf [OF ok(2), of f']
      note R2 = agrS_next [OF R1 st(2), simplified]
      have l: "object_loop n (rebuf f' f2) = Some (Inr (), rebuf f' f3)"
        using agr_simD [OF IH(6) ok(3) R2] le(2) by simp
      note R3 = agrS_next [OF R2 st(3), simplified]
      note t2 = agr_test_and_skip [OF R3 ok(4) le(3), simplified]
      show ?thesis using t1 c l t2 ok(5)
        by (subst parse_object_Suc) (simp add: capture_len_rebuf)
    qed simp_all
  qed
  have al: "agr_sim array_loop True (Suc n)"
    unfolding agr_sim_def
  proof (intro allI impI)
    fix f f' g :: frozen and k
    assume a: "array_loop (Suc n) f = Some (Inr (), g)" and R: "agrS k f f'"
      and "if True then curp g < k else curp g \<le> k"
    then have b: "curp g < k" by simp
    from a show "array_loop (Suc n) f' = Some (Inr (), rebuf f' g)"
    proof (cases rule: array_loop_cases)
      case stop
      then show ?thesis using agr_cur [OF R stop(1) b]
        by (subst array_loop_Suc) simp
    next
      case (iter ch f1 f2)
      have st: "step f f1" "step f1 f2" "step f2 (separator f2)" "step (separator f2) g"
        using cur_step [OF iter(1)] parse_value_adv [OF iter(3)] separator_step [of f2]
          array_loop_step [OF iter(4)] by (auto simp: adv_def)
      have le: "curp f1 < k" "curp f2 < k" "curp (separator f2) < k"
        using st b by (auto dest!: step_le)
      note c = agr_cur [OF R iter(1) le(1)]
      note R1 = agrS_next [OF R st(1)]
      have v: "parse_value n (rebuf f' f1) = Some (Inr (), rebuf f' f2)"
        using agr_simD [OF IH(1) iter(3) R1] le(2) by simp
      note R2 = agrS_next [OF R1 st(2), simplified]
      note sp = agr_separator [OF R2 le(3)]
      note R3 = agrS_next [OF R2 st(3), simplified]
      have "array_loop n (rebuf f' (separator f2)) = Some (Inr (), rebuf f' g)"
        using agr_simD [OF IH(3) iter(4) R3] b by simp
      then show ?thesis using c v sp iter(2)
        by (subst array_loop_Suc) simp
    qed simp
  qed
  have ol: "agr_sim object_loop True (Suc n)"
    unfolding agr_sim_def
  proof (intro allI impI)
    fix f f' g :: frozen and k
    assume a: "object_loop (Suc n) f = Some (Inr (), g)" and R: "agrS k f f'"
      and "if True then curp g < k else curp g \<le> k"
    then have b: "curp g < k" by simp
    from a show "object_loop (Suc n) f' = Some (Inr (), rebuf f' g)"
    proof (cases rule: object_loop_cases)
      case stop
      then show ?thesis using agr_cur [OF R stop(1) b]
        by (subst object_loop_Suc) simp
    next
      case (iter ch f1 f2)
      have st: "step f f1" "step f1 f2" "step f2 (separator f2)" "step (separator f2) g"
        using cur_step [OF iter(1)] parse_pair_adv [OF iter(3)] separator_step [of f2]
          object_loop_step [OF iter(4)] by (auto simp: adv_def)
      have le: "curp f1 < k" "curp f2 < k" "curp (separator f2) < k"
        using st b by (auto dest!: step_le)
      note c = agr_cur [OF R iter(1) le(1)]
      note R1 = agrS_next [OF R st(1)]
      have v: "parse_pair n (rebuf f' f1) = Some (Inr (), rebuf f' f2)"
        using agr_simD [OF IH(4) iter(3) R1] le(2) by simp
      note R2 = agrS_next [OF R1 st(2), simplified]
      note sp = agr_separator [OF R2 le(3)]
      note R3 = agrS_next [OF R2 st(3), simplified]
      have "object_loop n (rebuf f' (separator f2)) = Some (Inr (), rebuf f' g)"
        using agr_simD [OF IH(6) iter(4) R3] b by simp
      then show ?thesis using c v sp iter(2)
        by (subst object_loop_Suc) simp
    qed simp
  qed
  have p: "agr_sim parse_pair True (Suc n)"
    unfolding agr_sim_def
  proof (intro allI impI)
    fix f f' g :: frozen and k
    assume a: "parse_pair (Suc n) f = Some (Inr (), g)" and R: "agrS k f f'"
      and "if True then curp g < k else curp g \<le> k"
    then have b: "curp g < k" by simp
    from a show "parse_pair (Suc n) f' = Some (Inr (), rebuf f' g)"
    proof (cases rule: parse_pair_cases)
      case (val f1 f2)
      have st: "step f f1" "step f1 f2" "curp f1 < curp f2" "step f2 g"
        using parse_key_step [OF val(1)] test_and_skip_step [OF val(2)] parse_value_adv [OF val(3)]
        by (auto simp: adv_def)
      have le: "curp f1 < k" "curp f2 \<le> k"
        using st b by (auto dest!: step_le)
      note k = agr_parse_key [OF R val(1) le(1)]
      note R1 = agrS_next [OF R st(1)]
      note t = agr_test_and_skip [OF R1 val(2) le(2), simplified]
      note R2 = agrS_next [OF R1 st(2), simplified]
      have "parse_value n (rebuf f' f2) = Some (Inr (), rebuf f' g)"
        using agr_simD [OF IH(1) val(3) R2] b by simp
      then show ?thesis using k t
        by (subst parse_pair_Suc) simp
    qed simp_all
  qed
  show ?case using v a ob al ol p by simp
qed

lemmas parse_object_agr_sim =
  agr_composite [THEN conjunct2, THEN conjunct2, THEN conjunct2, THEN conjunct2, THEN conjunct1, THEN agr_simD]

lemma parse_object_fuel_unique:
  assumes "parse_object n f = Some v" "parse_object m f = Some w"
  shows "v = w"
proof (cases "n \<le> m")
  case True
  then show ?thesis using parse_object_fuel [OF assms(1) True] assms(2) by simp
next
  case False
  then have "m \<le> n" by simp
  then show ?thesis using parse_object_fuel [OF assms(2)] assms(1) by simp
qed

lemma finish_rebuf: "finish (r, rebuf f' g) = (fst (finish (r, g)), rebuf f' (snd (finish (r, g))))"
proof (cases r)
  case (Inl e)
  then show ?thesis by (simp add: finish_def)
next
  case (Inr u)
  obtain r2 g2 where c: "capture_ptr g (int (curp g)) JSON_TYPE_EOF = (r2, g2)"
    by (cases "capture_ptr g (int (curp g)) JSON_TYPE_EOF")
  show ?thesis using Inr c capture_ptr_rebuf [OF c, of f']
    by (cases r2) (simp_all add: finish_def Let_def capture_len_rebuf)
qed

lemma parse_json_success:
  assumes "fst (parse_json s s_len arr arr_len) = Inr c"
  obtains b g where "s = Some b" "0 < s_len"
    "parse_object (4 * nat s_len + 2) (init_frozen b s_len arr arr_len) = Some (Inr (), g)"
    "parse_json s s_len arr arr_len = finish (Inr (), g)" "c = int (curp g)" "0 < c" "c \<le> s_len"
proof -
  have ns: "\<not> (s = None \<or> s_len \<le> 0)"
  proof
    assume "s = None \<or> s_len \<le> 0"
    then consider "s = None \<or> s_len < 0" | b where "s = Some b" "s_len = 0"
      by (cases s; cases "s_len = 0") auto
    then show False using assms(1) by cases (simp_all add: parse_json_guard parse_json_empty)
  qed
  then obtain b where s: "s = Some b" and l: "0 < s_len" by auto
  define f0 where "f0 = init_frozen b s_len arr arr_len"
  obtain r1 g1 where f: "parse_object (4 * nat s_len + 2) f0 = Some (r1, g1)"
    using parse_object_total [of f0] by (auto simp: f0_def)
  have pf: "parse_json s s_len arr arr_len = finish (r1, g1)"
    using f by (simp add: s parse_json_unfold [OF l] f0_def)
  note fo = finish_ok [OF assms(1) [unfolded pf]]
  have a: "adv f0 (Inr ()) g1" using parse_object_adv [OF f] fo by simp
  then have "0 < curp g1" "curp g1 \<le> nat s_len"
    by (auto simp: adv_def step_def f0_def)
  then show ?thesis using that [OF s l _ _] f pf fo l unfolding f0_def by auto
qed

lemma parse_json_agree:
  assumes "fst (parse_json (Some b) s_len arr arr_len) = Inr c"
    and "agree (nat c) b (nat s_len) b' (nat s_len')"
  shows "parse_json (Some b') s_len' arr arr_len =
     (Inr c, rebuf (init_frozen b' s_len' arr arr_len) (snd (parse_json (Some b) s_len arr arr_len)))"
proof -
  from assms(1) obtain g where l: "0 < s_len"
    and f: "parse_object (4 * nat s_len + 2) (init_frozen b s_len arr arr_len) = Some (Inr (), g)"
    and pf: "parse_json (Some b) s_len arr arr_len = finish (Inr (), g)"
    and c: "c = int (curp g)" "0 < c"
    by (rule parse_json_success) auto
  define f0 where "f0 = init_frozen b s_len arr arr_len"
  define f0' where "f0' = init_frozen b' s_len' arr arr_len"
  have l': "0 < s_len'" using assms(2) c by (auto simp: agree_def)
  have R: "agrS (nat c) f0 f0'" using assms(2) by (simp add: agrS_def f0_def f0'_def)
  have 1: "parse_object (4 * nat s_len + 2) f0' = Some (Inr (), rebuf f0' g)"
    using parse_object_agr_sim [OF f [folded f0_def] R] c by simp
  obtain w where 2: "parse_object (4 * nat s_len' + 2) f0' = Some w"
    using parse_object_total [of f0'] by (auto simp: f0'_def)
  have w: "w = (Inr (), rebuf f0' g)" using parse_object_fuel_unique [OF 2 1] .
  have "parse_json (Some b') s_len' arr arr_len = finish (Inr (), rebuf f0' g)"
    using 2 w by (simp add: parse_json_unfold [OF l'] f0'_def)
  then show ?thesis using assms(1) unfolding pf finish_rebuf f0'_def by simp
qed

lemma byte_take: "i < n \<Longrightarrow> byte (take n b) i = byte b i"
  by (simp add: byte_def)

lemma byte_append: "i < length b \<Longrightarrow> byte (b @ t) i = byte b i"
  by (simp add: byte_def nth_append)

text \<open>
  C8: when the call succeeds and returns \<open>c\<close>, the call on the first \<open>c\<close> bytes alone (the
  same bytes copied out, or the same pointer with length \<open>c\<close>) succeeds, returns \<open>c\<close> again
  and leaves the same token array and the same token count.
\<close>

theorem C8_reparse_consumed:
  assumes "fst (parse_json (Some b) s_len arr arr_len) = Inr c"
  shows "fst (parse_json (Some (take (nat c) b)) c arr arr_len) = Inr c \<and>
         tokens (snd (parse_json (Some (take (nat c) b)) c arr arr_len)) =
           tokens (snd (parse_json (Some b) s_len arr arr_len)) \<and>
         num_tokens (snd (parse_json (Some (take (nat c) b)) c arr arr_len)) =
           num_tokens (snd (parse_json (Some b) s_len arr arr_len)) \<and>
         fst (parse_json (Some b) c arr arr_len) = Inr c \<and>
         tokens (snd (parse_json (Some b) c arr arr_len)) =
           tokens (snd (parse_json (Some b) s_len arr arr_len)) \<and>
         num_tokens (snd (parse_json (Some b) c arr arr_len)) =
           num_tokens (snd (parse_json (Some b) s_len arr arr_len))"
proof -
  from assms obtain g where "c \<le> s_len" "0 < c" by (rule parse_json_success) auto
  then have "agree (nat c) b (nat s_len) (take (nat c) b) (nat c)"
    "agree (nat c) b (nat s_len) b (nat c)"
    by (auto simp: agree_def byte_take)
  from parse_json_agree [OF assms this(1)] parse_json_agree [OF assms this(2)]
  show ?thesis by simp
qed

theorem C8_reparse_consumed_witness:
  "fst (parse_json (Some ''{a:1}'') 5 (Some (replicate 5 tok0)) 5) = Inr 5 \<and>
   tokens (snd (parse_json (Some ''{a:1}'') 5 (Some (replicate 5 tok0)) 5)) =
     tokens (snd (parse_json (Some ''{a:1}  x'') 8 (Some (replicate 5 tok0)) 5))"
proof -
  have e: "fst (parse_json (Some ''{a:1}  x'') 8 (Some (replicate 5 tok0)) 5) = Inr 5"
    by code_simp
  show ?thesis using C8_reparse_consumed [OF e] by simp
qed

lemma parse_object_brace:
  assumes "parse_object n f = Some (Inr (), g)"
  shows "0 < curp g \<and> byte (buf f) (curp g - 1) = 125"
proof (cases n)
  case 0
  then show ?thesis using assms by (simp add: parse_object.simps)
next
  case (Suc m)
  from assms [unfolded Suc] show ?thesis
  proof (cases rule: parse_object_cases)
    case (ok f1 f2 f3 f4)
    have b: "buf f3 = buf f"
      using test_and_skip_step [OF ok(1)] capture_ptr_step [OF ok(2)] object_loop_step [OF ok(3)]
      by (auto simp: step_def)
    have p: "peek (buf f3) (endp f3) (curp f3) = 125"
      "curp f4 = ws (buf f3) (endp f3) (curp f3) + 1"
      using tas_plan_ok [OF ok(4)] by (auto simp: tas_plan_def split: if_splits)
    then have "byte (buf f3) (ws (buf f3) (endp f3) (curp f3)) = 125"
      by (auto simp: peek_def END_OF_STRING_def split: if_splits)
    then show ?thesis using p b ok(5) by simp
  qed simp_all
qed

lemma finish_marker:
  assumes "finish (Inr (), g) = (Inr c, st)" "tokens g = Some ts" "max_tokens g \<noteq> 0"
    "0 \<le> num_tokens g" "max_tokens g \<le> int (length ts)"
  shows "\<exists>ts'. tokens st = Some ts' \<and> num_tokens st = num_tokens g + 1 \<and>
           type (ts' ! nat (num_tokens g)) = JSON_TYPE_EOF \<and>
           ptr (ts' ! nat (num_tokens g)) = int (curp g)"
proof -
  obtain r2 g2 where c: "capture_ptr g (int (curp g)) JSON_TYPE_EOF = (r2, g2)"
    by (cases "capture_ptr g (int (curp g)) JSON_TYPE_EOF")
  have r2: "r2 = Inr ()" using assms(1) c by (cases r2) (auto simp: finish_def)
  have lt: "num_tokens g < max_tokens g"
    using c r2 assms(2,3) by (auto simp: capture_ptr_def split: if_splits)
  then have n: "nat (num_tokens g) < length ts" using assms(4,5) by simp
  have g2: "g2 = g\<lparr>tokens := Some (ts[nat (num_tokens g) :=
                (ts ! nat (num_tokens g))\<lparr>ptr := int (curp g), type := JSON_TYPE_EOF\<rparr>]),
              num_tokens := num_tokens g + 1\<rparr>"
    using c r2 assms(2,3) lt by (auto simp: capture_ptr_def split: if_splits)
  have st: "st = snd (capture_len g2 (num_tokens g2) (int (curp g2)))"
    using assms(1) c r2 by (auto simp: finish_def Let_def)
  have ne: "nat (num_tokens g + 1) \<noteq> nat (num_tokens g)" using assms(4) by simp
  show ?thesis
    unfolding st g2 using n ne assms(3,4)
    by (auto simp: capture_len_def)
qed

text \<open>
  C9: let the call succeed on the bytes \<open>s0\<close> and return \<open>c\<close>. Then the byte before offset
  \<open>c\<close> is the closing brace of the root object, and on \<open>s0\<close> followed by any bytes \<open>t\<close> the
  call succeeds, returns the same \<open>c\<close> and leaves the same token array and count: \<open>t\<close> is
  neither consumed nor looked at. When tokens are recorded (a non-null array of non-zero
  capacity, not longer than declared), the last one recorded is the end-of-input marker,
  and its start is \<open>c\<close>, not the length of the whole input.
\<close>

theorem C9_trailing_bytes:
  assumes "fst (parse_json (Some s0) (int (length s0)) arr arr_len) = Inr c"
  shows "fst (parse_json (Some (s0 @ t)) (int (length s0 + length t)) arr arr_len) = Inr c \<and>
         tokens (snd (parse_json (Some (s0 @ t)) (int (length s0 + length t)) arr arr_len)) =
           tokens (snd (parse_json (Some s0) (int (length s0)) arr arr_len)) \<and>
         num_tokens (snd (parse_json (Some (s0 @ t)) (int (length s0 + length t)) arr arr_len)) =
           num_tokens (snd (parse_json (Some s0) (int (length s0)) arr arr_len)) \<and>
         0 < c \<and> byte s0 (nat c - 1) = 125 \<and>
         (\<forall>ts. arr = Some ts \<and> arr_len \<noteq> 0 \<and> arr_len \<le> int (length ts) \<longrightarrow>
            (\<exists>ts'. tokens (snd (parse_json (Some (s0 @ t)) (int (length s0 + length t)) arr arr_len))
                     = Some ts' \<and>
               type (ts' ! nat (num_tokens (snd (parse_json (Some (s0 @ t))
                       (int (length s0 + length t)) arr arr_len)) - 1)) = JSON_TYPE_EOF \<and>
               ptr (ts' ! nat (num_tokens (snd (parse_json (Some (s0 @ t))
                       (int (length s0 + length t)) arr arr_len)) - 1)) = c))"
proof -
  define f0 where "f0 = init_frozen s0 (int (length s0)) arr arr_len"
  from assms obtain g where l: "0 < int (length s0)"
    and f: "parse_object (4 * nat (int (length s0)) + 2) f0 = Some (Inr (), g)"
    and pf: "parse_json (Some s0) (int (length s0)) arr arr_len = finish (Inr (), g)"
    and c: "c = int (curp g)" "0 < c" "c \<le> int (length s0)"
    unfolding f0_def by (rule parse_json_success) auto
  have "agree (nat c) s0 (nat (int (length s0))) (s0 @ t) (nat (int (length s0 + length t)))"
    using c by (auto simp: agree_def byte_append)
  note ag = parse_json_agree [OF assms this]
  have br: "byte s0 (nat c - 1) = 125" using parse_object_brace [OF f] c by (simp add: f0_def)
  have st: "step f0 g" using parse_object_adv [OF f] by (simp add: adv_def)
  have mk: "\<exists>ts'. tokens (snd (finish (Inr (), g))) = Some ts' \<and>
               type (ts' ! nat (num_tokens (snd (finish (Inr (), g))) - 1)) = JSON_TYPE_EOF \<and>
               ptr (ts' ! nat (num_tokens (snd (finish (Inr (), g))) - 1)) = c"
    if a: "arr = Some ts" "arr_len \<noteq> 0" "arr_len \<le> int (length ts)" for ts
  proof -
    obtain tg where tg: "tokens g = Some tg" "length tg = length ts"
      using st a(1) by (cases "tokens g") (auto simp: step_def f0_def)
    have m: "max_tokens g = arr_len" "0 \<le> num_tokens g"
      using st by (auto simp: step_def f0_def)
    have fin: "finish (Inr (), g) = (Inr c, snd (finish (Inr (), g)))"
      using assms unfolding pf by (metis prod.collapse)
    from finish_marker [OF fin tg(1)] m a tg(2)
    show ?thesis using c by auto
  qed
  define P where "P = parse_json (Some (s0 @ t)) (int (length s0 + length t)) arr arr_len"
  have P: "fst P = Inr c" "tokens (snd P) = tokens (snd (finish (Inr (), g)))"
    "num_tokens (snd P) = num_tokens (snd (finish (Inr (), g)))"
    using ag unfolding P_def pf by simp_all
  have "\<forall>ts. arr = Some ts \<and> arr_len \<noteq> 0 \<and> arr_len \<le> int (length ts) \<longrightarrow>
            (\<exists>ts'. tokens (snd P) = Some ts' \<and>
               type (ts' ! nat (num_tokens (snd P) - 1)) = JSON_TYPE_EOF \<and>
               ptr (ts' ! nat (num_tokens (snd P) - 1)) = c)"
    unfolding P(2,3) using mk by blast
  then show ?thesis using P br c(2) unfolding P_def [symmetric] pf by simp
qed

theorem C9_trailing_bytes_witness:
  "fst (parse_json (Some (''{a:1}'' @ '']]garbage'')) 14 (Some (replicate 5 tok0)) 5) = Inr 5 \<and>
   num_tokens (snd (parse_json (Some (''{a:1}'' @ '']]garbage'')) 14 (Some (replicate 5 tok0)) 5)) =
     num_tokens (snd (parse_json (Some ''{a:1}'') 5 (Some (replicate 5 tok0)) 5)) \<and>
   byte ''{a:1}'' 4 = 125"
proof -
  have e: "fst (parse_json (Some ''{a:1}'') (int (length ''{a:1}'')) (Some (replicate 5 tok0)) 5) = Inr 5"
    by code_simp
  show ?thesis using C9_trailing_bytes [OF e, of "'']]garbage''"] by simp
qed

section \<open>Replacing a comma by a space\<close>















lemma spf_sel [simp]:
  "buf (spf p f) = spaced p (buf f)" "endp (spf p f) = endp f" "curp (spf p f) = curp f"
  "tokens (spf p f) = tokens f" "max_tokens (spf p f) = max_tokens f"
  "num_tokens (spf p f) = num_tokens f"
  by (simp_all add: spf_def)



lemma okc_next: "okc p f \<Longrightarrow> buf g = buf f \<Longrightarrow> endp g = endp f \<Longrightarrow> okc p g"
  by (simp add: okc_def)


lemma okc_move [simp]: "okc p (f\<lparr>curp := q\<rparr>) = okc p f"
  by (simp add: okc_def)







lemma is_alpha_comma [simp]: "\<not> is_alpha 44" "\<not> is_digit 44" "\<not> is_ident 44"
  "\<not> is_alpha 32" "\<not> is_digit 32" "\<not> is_ident 32"
  by (simp_all add: is_alpha_def is_digit_def is_ident_def)


















lemma not_hit_ok [simp]: "\<not> hit p (Inr ()) g"
  by (simp add: hit_def)







text \<open>
  Both side conditions are needed. A comma where no separator is expected is rejected while
  a space there is skipped, and the first of two commas in a row can be replaced by a space
  to turn a rejected input into an accepted one.
\<close>

lemma comma_not_after_element:
  "fst (parse_json (Some ''{,}'') 3 None 0) = Inl JSON_STRING_INVALID \<and>
   fst (parse_json (Some ''{ }'') 3 None 0) = Inr 3"
  by code_simp

lemma comma_before_comma:
  "fst (parse_json (Some ''{a:[1,,2]}'') 10 None 0) = Inl JSON_STRING_INVALID \<and>
   fst (parse_json (Some ''{a:[1 ,2]}'') 10 None 0) = Inr 10"
  by code_simp

section \<open>Spans of the recorded tokens\<close>

lemma seg_empty [simp]: "seg ts m m lo hi"
  by (auto simp: seg_def)

lemma segD:
  "seg ts m m' lo hi \<Longrightarrow> m \<le> i \<Longrightarrow> i < m' \<Longrightarrow>
   int lo \<le> ptr (ts ! i) \<and> ptr (ts ! i) + len (ts ! i) \<le> int hi \<and> tok_ok ts m' i"
  by (simp add: seg_def)

lemma tok_ok_same:
  assumes "tok_ok ts m' i" "\<And>j. i \<le> j \<Longrightarrow> j < m' \<Longrightarrow> ts' ! j = ts ! j" "i < m'"
  shows "tok_ok ts' m' i"
  using assms(1) assms(2) [of i] assms(3) assms(2)
  unfolding tok_ok_def by simp

lemma seg_same:
  assumes "seg ts m m' lo hi" "\<And>j. m \<le> j \<Longrightarrow> j < m' \<Longrightarrow> ts' ! j = ts ! j"
  shows "seg ts' m m' lo hi"
  unfolding seg_def
proof (intro allI impI)
  fix i assume i: "m \<le> i \<and> i < m'"
  note d = segD [OF assms(1), of i]
  have "tok_ok ts' m' i"
    by (rule tok_ok_same [of ts]) (use d i assms(2) in auto)
  then show "int lo \<le> ptr (ts' ! i) \<and> ptr (ts' ! i) + len (ts' ! i) \<le> int hi \<and> tok_ok ts' m' i"
    using d i assms(2) [of i] by simp
qed

lemma tok_ok_extend:
  assumes "tok_ok ts m1 i" "m1 \<le> m2"
    and "\<And>j. m1 \<le> j \<Longrightarrow> j < m2 \<Longrightarrow> ptr (ts ! i) + len (ts ! i) \<le> ptr (ts ! j)"
  shows "tok_ok ts m2 i"
  unfolding tok_ok_def
proof (intro conjI allI impI)
  fix j assume j: "i < j \<and> j < m2"
  show "if int j \<le> int i + num_children (ts ! i) then inside (ts ! j) (ts ! i)
         else ptr (ts ! i) + len (ts ! i) \<le> ptr (ts ! j)"
  proof (cases "j < m1")
    case True
    then show ?thesis using assms(1) j by (simp add: tok_ok_def)
  next
    case False
    then have "\<not> int j \<le> int i + num_children (ts ! i)"
      using assms(1) by (simp add: tok_ok_def)
    then show ?thesis using assms(3) [of j] False j by simp
  qed
qed (use assms(1,2) in \<open>auto simp: tok_ok_def\<close>)

lemma seg_append:
  assumes "seg ts m m1 lo mid" "seg ts m1 m2 mid' hi" "m1 \<le> m2" "mid \<le> mid'" "lo \<le> mid'"
    "mid \<le> hi"
  shows "seg ts m m2 lo hi"
  unfolding seg_def
proof (intro allI impI)
  fix i assume i: "m \<le> i \<and> i < m2"
  show "int lo \<le> ptr (ts ! i) \<and> ptr (ts ! i) + len (ts ! i) \<le> int hi \<and> tok_ok ts m2 i"
  proof (cases "i < m1")
    case True
    note d = segD [OF assms(1), of i]
    have "tok_ok ts m2 i"
    proof (rule tok_ok_extend [of ts m1])
      show "tok_ok ts m1 i" using d i True by simp
      show "m1 \<le> m2" by (rule assms(3))
      fix j assume "m1 \<le> j" "j < m2"
      then have "int mid' \<le> ptr (ts ! j)" using segD [OF assms(2), of j] by simp
      then show "ptr (ts ! i) + len (ts ! i) \<le> ptr (ts ! j)"
        using d i True assms(4) by simp
    qed
    then show ?thesis using d i True assms(6) by simp
  next
    case False
    then show ?thesis using segD [OF assms(2), of i] i assms(4,5) by simp
  qed
qed

lemma seg_wrap:
  assumes "seg ts (Suc m) m' lo' hi'" "m < m'"
    and "int lo \<le> ptr (ts ! m)" "ptr (ts ! m) < int lo'"
    and "int hi' < ptr (ts ! m) + len (ts ! m)" "ptr (ts ! m) + len (ts ! m) \<le> int hi"
    and "0 \<le> len (ts ! m)"
    and "num_children (ts ! m) = int m' - 1 - int m"
    and "type (ts ! m) = JSON_TYPE_OBJECT \<or> type (ts ! m) = JSON_TYPE_ARRAY \<or> m' = Suc m"
  shows "seg ts m m' lo hi"
  unfolding seg_def
proof (intro allI impI)
  fix i assume i: "m \<le> i \<and> i < m'"
  show "int lo \<le> ptr (ts ! i) \<and> ptr (ts ! i) + len (ts ! i) \<le> int hi \<and> tok_ok ts m' i"
  proof (cases "i = m")
    case True
    have "tok_ok ts m' m"
      unfolding tok_ok_def
    proof (intro conjI allI impI)
      fix j assume j: "m < j \<and> j < m'"
      then have "int lo' \<le> ptr (ts ! j)" "ptr (ts ! j) + len (ts ! j) \<le> int hi'"
        using segD [OF assms(1), of j] by simp_all
      then have "inside (ts ! j) (ts ! m)" using assms(4,5) by (simp add: inside_def)
      moreover have "int j \<le> int m + num_children (ts ! m)" using j assms(8) by simp
      ultimately show "if int j \<le> int m + num_children (ts ! m) then inside (ts ! j) (ts ! m)
         else ptr (ts ! m) + len (ts ! m) \<le> ptr (ts ! j)" by simp
    qed (use assms in auto)
    then show ?thesis using True assms(3,6) by simp
  next
    case False
    then have d: "int lo' \<le> ptr (ts ! i)" "ptr (ts ! i) + len (ts ! i) \<le> int hi'" "tok_ok ts m' i"
      using segD [OF assms(1), of i] i by simp_all
    then show ?thesis using assms(3-6) by simp
  qed
qed

lemma seg_leaf:
  assumes "int lo \<le> ptr (ts ! m)" "ptr (ts ! m) + len (ts ! m) \<le> int hi" "0 \<le> len (ts ! m)"
    "num_children (ts ! m) = 0"
  shows "seg ts m (Suc m) lo hi"
  using assms by (auto simp: seg_def tok_ok_def le_less_Suc_eq)

lemma seg_shift:
  "seg ts m m' lo hi \<Longrightarrow> lo' \<le> lo \<Longrightarrow> hi \<le> hi' \<Longrightarrow> seg ts m m' lo' hi'"
  by (auto simp: seg_def)

lemma toks_simps [simp]:
  "toks (f\<lparr>curp := q\<rparr>) = toks f"
  "toks (f\<lparr>tokens := Some ts\<rparr>) = ts"
  "toks (f\<lparr>tokens := Some ts, num_tokens := k\<rparr>) = ts"
  by (simp_all add: toks_def)

lemma on_move [simp]: "on (f\<lparr>curp := q\<rparr>) = on f"
  by (simp add: on_def)

lemma keeps_refl: "on f \<Longrightarrow> keeps f f"
  by (simp add: keeps_def)

lemma keeps_on: "keeps f g \<Longrightarrow> on g"
  by (simp add: keeps_def)

lemma keeps_trans: "keeps f g \<Longrightarrow> keeps g h \<Longrightarrow> keeps f h"
  by (auto simp: keeps_def)

lemma grows_on: "grows f g \<Longrightarrow> on g"
  by (simp add: grows_def keeps_def)

lemma grows_move: "on f \<Longrightarrow> curp f \<le> q \<Longrightarrow> grows f (f\<lparr>curp := q\<rparr>)"
  by (simp add: grows_def keeps_def)

lemma grows_seq:
  assumes "grows f g" "grows g h"
  shows "grows f h"
proof -
  have k: "keeps f g" "keeps g h" using assms by (simp_all add: grows_def)
  have n: "nat (num_tokens f) \<le> nat (num_tokens g)" "nat (num_tokens g) \<le> nat (num_tokens h)"
    using k by (auto simp: keeps_def intro: nat_mono)
  have c: "curp f \<le> curp g" "curp g \<le> curp h" using assms by (simp_all add: grows_def)
  have s1: "seg (toks h) (nat (num_tokens f)) (nat (num_tokens g)) (curp f) (curp g)"
  proof (rule seg_same [of "toks g"])
    show "seg (toks g) (nat (num_tokens f)) (nat (num_tokens g)) (curp f) (curp g)"
      using assms(1) by (simp add: grows_def)
    fix j assume "j < nat (num_tokens g)"
    then show "toks h ! j = toks g ! j" using k(2) by (simp add: keeps_def)
  qed
  have s2: "seg (toks h) (nat (num_tokens g)) (nat (num_tokens h)) (curp g) (curp h)"
    using assms(2) by (simp add: grows_def)
  have "seg (toks h) (nat (num_tokens f)) (nat (num_tokens h)) (curp f) (curp h)"
    by (rule seg_append [OF s1 s2]) (use n c in auto)
  then show ?thesis using keeps_trans [OF k] c by (simp add: grows_def)
qed

lemma capture_ptr_on:
  assumes "on f" "capture_ptr f p ty = (Inr (), g)"
  shows "num_tokens f < max_tokens f \<and>
         g = f\<lparr>tokens := Some ((toks f)[nat (num_tokens f) :=
                  (toks f ! nat (num_tokens f))\<lparr>ptr := p, type := ty\<rparr>]),
               num_tokens := num_tokens f + 1\<rparr>"
  using assms by (auto simp: on_def capture_ptr_def toks_def split: option.splits if_splits)

lemma capture_len_on:
  assumes "on f" "0 \<le> i" "i < max_tokens f"
  shows "snd (capture_len f i p) =
         f\<lparr>tokens := Some ((toks f)[nat i :=
              (toks f ! nat i)\<lparr>num_children := num_tokens f - 1 - i,
                                len := p - ptr (toks f ! nat i)\<rparr>])\<rparr>"
  using assms by (auto simp: on_def capture_len_def toks_def split: option.splits if_splits)

lemma grows_leaf:
  assumes "on f" "exec_plan f pl = (Inr (), g)" "plan_wf (curp f) pl"
  shows "grows f g"
proof (cases pl)
  case (Fail e q)
  then show ?thesis using assms(2) by simp
next
  case (Move q)
  then show ?thesis using assms grows_move [of f q] by (auto simp: plan_wf_def)
next
  case (Token q p ty rest)
  obtain r1 f2 where c: "capture_ptr (f\<lparr>curp := q\<rparr>) p ty = (r1, f2)"
    by (cases "capture_ptr (f\<lparr>curp := q\<rparr>) p ty")
  from assms(2) Token c obtain p2 q3 where rest: "rest = Inr (p2, q3)" and r1: "r1 = Inr ()"
    and g: "g = (snd (capture_len f2 (num_tokens f2 - 1) p2))\<lparr>curp := q3\<rparr>"
    by (cases r1; cases rest) auto
  define m where "m = nat (num_tokens f)"
  define ts where "ts = toks f"
  have wf: "int (curp f) \<le> p" "p \<le> p2" "p2 \<le> int q3"
    using assms(3) Token rest by (simp_all add: plan_wf_def)
  have onq: "on (f\<lparr>curp := q\<rparr>)" using assms(1) by simp
  note cp = capture_ptr_on [OF onq c [unfolded r1]]
  have lt: "num_tokens f < max_tokens f" using cp by simp
  have f2: "f2 = f\<lparr>curp := q, tokens := Some (ts[m := (ts ! m)\<lparr>ptr := p, type := ty\<rparr>]),
               num_tokens := num_tokens f + 1\<rparr>"
    using cp by (simp add: m_def ts_def)
  have ml: "m < length ts" "0 \<le> num_tokens f"
    using assms(1) lt by (auto simp: on_def m_def ts_def)
  have on2: "on f2" using assms(1) lt ml by (simp add: f2 on_def toks_def ts_def)
  have n2: "num_tokens f2 - 1 = num_tokens f" "num_tokens f2 = num_tokens f + 1"
    "max_tokens f2 = max_tokens f" "toks f2 = ts[m := (ts ! m)\<lparr>ptr := p, type := ty\<rparr>]"
    by (simp_all add: f2 toks_def)
  have cl: "snd (capture_len f2 (num_tokens f) p2) =
      f2\<lparr>tokens := Some ((toks f2)[m := (toks f2 ! m)\<lparr>num_children := 0,
                                len := p2 - ptr (toks f2 ! m)\<rparr>])\<rparr>"
    using capture_len_on [OF on2, of "num_tokens f" p2] ml lt n2(2,3) by (simp add: m_def)
  define t where "t = (ts ! m)\<lparr>ptr := p, type := ty, num_children := 0, len := p2 - p\<rparr>"
  have tg: "toks g = ts[m := t]" "num_tokens g = num_tokens f + 1" "max_tokens g = max_tokens f"
    "curp g = q3" "tokens g \<noteq> None"
    using ml by (simp_all add: g cl n2 t_def)
  have k: "keeps f g"
    using assms(1) lt ml tg by (auto simp: keeps_def on_def ts_def [symmetric] m_def [symmetric])
  have "seg (toks g) m (Suc m) (curp f) (curp g)"
    by (rule seg_leaf) (use tg ml wf in \<open>simp_all add: t_def\<close>)
  moreover have "nat (num_tokens g) = Suc m" using tg ml by (simp add: m_def)
  ultimately show ?thesis using k wf tg by (simp add: grows_def m_def)
qed

lemma grows_wrap:
  assumes "on f" "capture_ptr (f\<lparr>curp := Suc (curp f)\<rparr>) (int (curp f)) ty = (Inr (), f2)"
    and "grows f2 f3" "curp f3 < q"
    and "g = snd (capture_len (f3\<lparr>curp := q\<rparr>) (num_tokens f2 - 1) (int q))"
    and "ty = JSON_TYPE_OBJECT \<or> ty = JSON_TYPE_ARRAY"
  shows "grows f g"
proof -
  define m where "m = nat (num_tokens f)"
  define m' where "m' = nat (num_tokens f3)"
  define ts where "ts = toks f"
  define p where "p = int (curp f)"
  have on1: "on (f\<lparr>curp := Suc (curp f)\<rparr>)" using assms(1) by simp
  note cp = capture_ptr_on [OF on1 assms(2)]
  have lt: "num_tokens f < max_tokens f" using cp by simp
  have f2: "f2 = f\<lparr>curp := Suc (curp f),
               tokens := Some (ts[m := (ts ! m)\<lparr>ptr := p, type := ty\<rparr>]),
               num_tokens := num_tokens f + 1\<rparr>"
    using cp by (simp add: m_def ts_def p_def)
  have ml: "m < length ts" "0 \<le> num_tokens f"
    using assms(1) lt by (auto simp: on_def m_def ts_def)
  have n2: "num_tokens f2 - 1 = num_tokens f" "num_tokens f2 = num_tokens f + 1"
    "max_tokens f2 = max_tokens f" "toks f2 = ts[m := (ts ! m)\<lparr>ptr := p, type := ty\<rparr>]"
    "curp f2 = Suc (curp f)" "nat (num_tokens f2) = Suc m"
    using ml by (simp_all add: f2 toks_def m_def)
  have k23: "keeps f2 f3" and c23: "curp f2 \<le> curp f3"
    and s23: "seg (toks f3) (Suc m) m' (curp f2) (curp f3)"
    using assms(3) n2 by (simp_all add: grows_def m'_def)
  have on3: "on (f3\<lparr>curp := q\<rparr>)" using k23 by (simp add: keeps_def)
  have n3: "max_tokens f3 = max_tokens f" "num_tokens f2 \<le> num_tokens f3"
    "length (toks f3) = length ts" "toks f3 ! m = (ts ! m)\<lparr>ptr := p, type := ty\<rparr>"
    "\<And>i. i < m \<Longrightarrow> toks f3 ! i = ts ! i"
    using k23 n2 ml by (simp_all add: keeps_def)
  have mm: "m < m'" "int m' = num_tokens f3" "int m = num_tokens f"
    using n3(2) n2 ml by (simp_all add: m'_def m_def)
  define t where "t = (ts ! m)\<lparr>ptr := p, type := ty, num_children := int m' - 1 - int m,
      len := int q - p\<rparr>"
  have cl: "g = f3\<lparr>curp := q, tokens := Some ((toks f3)[m := t])\<rparr>"
    using capture_len_on [OF on3, of "num_tokens f2 - 1" "int q"] ml lt n2 n3 mm assms(5)
    by (simp add: m_def t_def)
  have tg: "toks g = (toks f3)[m := t]" "num_tokens g = num_tokens f3" "max_tokens g = max_tokens f"
    "curp g = q" "tokens g \<noteq> None"
    using n3 by (simp_all add: cl toks_def)
  have tm: "toks g ! m = t" using tg n3 ml by simp
  have k: "keeps f g"
    unfolding keeps_def
  proof (intro conjI allI impI)
    show "on g" using on3 tg n3 by (simp add: on_def)
    show "max_tokens g = max_tokens f" by (rule tg)
    show "num_tokens f \<le> num_tokens g" using tg n3 n2 by simp
    show "length (toks g) = length (toks f)" using tg n3 by (simp add: ts_def)
    fix i assume "i < nat (num_tokens f)"
    then show "toks g ! i = toks f ! i" using tg n3(5) [of i] by (simp add: m_def ts_def)
  qed
  have s: "seg (toks g) (Suc m) m' (curp f2) (curp f3)"
    by (rule seg_same [OF s23]) (simp add: tg)
  have "seg (toks g) m m' (curp f) (curp g)"
  proof (rule seg_wrap [OF s mm(1)])
    show "int (curp f) \<le> ptr (toks g ! m)" by (simp add: tm t_def p_def)
    show "ptr (toks g ! m) < int (curp f2)" by (simp add: tm t_def p_def n2)
    show "int (curp f3) < ptr (toks g ! m) + len (toks g ! m)"
      using assms(4) by (simp add: tm t_def)
    show "ptr (toks g ! m) + len (toks g ! m) \<le> int (curp g)" by (simp add: tm t_def tg(4))
    show "0 \<le> len (toks g ! m)" using assms(4) c23 n2 by (simp add: tm t_def p_def)
    show "num_children (toks g ! m) = int m' - 1 - int m" by (simp add: tm t_def)
    show "type (toks g ! m) = JSON_TYPE_OBJECT \<or> type (toks g ! m) = JSON_TYPE_ARRAY \<or> m' = Suc m"
      using assms(6) by (auto simp: tm t_def)
  qed
  then show ?thesis using k assms(4) c23 n2 tg by (simp add: grows_def m_def m'_def)
qed

lemma plan_wf_tas: "plan_wf i (tas_plan b e i c)"
  using ws_ge [of i b e] by (simp add: plan_wf_def tas_plan_def)

lemma plan_wf_ident: "plan_wf i (ident_plan b e i)"
  using ws_ge [of i b e] scan_while_ge [of "ws b e i" is_ident b e]
  by (simp add: plan_wf_def ident_plan_def)

lemma plan_wf_string: "plan_wf i (string_plan b e i)"
proof (cases "string_scan b e 0 (ws b e i + 1)")
  case (Quote q)
  then show ?thesis using ws_ge [of i b e] string_scan_Quote_ge [OF Quote]
    by (simp add: plan_wf_def string_plan_def)
qed (simp_all add: plan_wf_def string_plan_def)

lemma plan_wf_number: "plan_wf i (number_plan b e i)"
  using ws_ge [of i b e] scan_while_ge [of "ws b e i + 1" is_digit b e]
    scan_while_ge [of "ws b e i" is_digit b e]
  by (simp add: plan_wf_def number_plan_def Let_def)

lemma plan_wf_lit: "i \<le> q \<Longrightarrow> plan_wf i (lit_plan q ty n)"
  by (simp add: plan_wf_def lit_plan_def)

lemma plan_wf_Fail [simp]: "plan_wf i (Fail err q)"
  by (simp add: plan_wf_def)

lemma plan_wf_key: "plan_wf i (key_plan b e i)"
  by (simp add: key_plan_def plan_wf_ident plan_wf_string)

lemma plan_wf_value: "value_plan b e i = Leaf pl \<Longrightarrow> plan_wf i pl"
  using ws_ge [of i b e]
  by (cases "vkind b e i")
     (auto simp: value_plan_def plan_wf_string plan_wf_number plan_wf_lit)

lemma value_plan_pos: "value_plan b e i = Obj q \<or> value_plan b e i = Arr q \<Longrightarrow> i \<le> q"
  using ws_ge [of i b e]
  by (cases "vkind b e i") (auto simp: value_plan_def)

lemma capture_ptr_keeps_on: "on f \<Longrightarrow> capture_ptr f p ty = (Inr (), g) \<Longrightarrow> on g"
  by (auto simp: on_def capture_ptr_def toks_def split: option.splits if_splits)

lemma tas_move:
  assumes "test_and_skip f c = (Inr (), f1)"
  shows "f1 = f\<lparr>curp := Suc (ws (buf f) (endp f) (curp f))\<rparr>"
  using assms by (auto simp: test_and_skip_plan tas_plan_def split: if_splits)

lemma grows_container:
  assumes "on f" "test_and_skip f c = (Inr (), f1)"
    and "capture_ptr f1 (int (curp f1) - 1) ty = (Inr (), f2)"
    and "grows f2 f3" "test_and_skip f3 d = (Inr (), f4)"
    and "g = snd (capture_len f4 (num_tokens f2 - 1) (int (curp f4)))"
    and "ty = JSON_TYPE_OBJECT \<or> ty = JSON_TYPE_ARRAY"
  shows "grows f g"
proof -
  define w where "w = ws (buf f) (endp f) (curp f)"
  define f0 where "f0 = f\<lparr>curp := w\<rparr>"
  have f1: "f1 = f0\<lparr>curp := Suc (curp f0)\<rparr>"
    using tas_move [OF assms(2)] by (simp add: f0_def w_def)
  have g0: "grows f f0" unfolding f0_def
    by (rule grows_move [OF assms(1)]) (simp add: w_def ws_ge)
  have on0: "on f0" using assms(1) by (simp add: f0_def)
  have cp: "capture_ptr (f0\<lparr>curp := Suc (curp f0)\<rparr>) (int (curp f0)) ty = (Inr (), f2)"
    using assms(3) by (simp add: f1)
  define q where "q = Suc (ws (buf f3) (endp f3) (curp f3))"
  have f4: "f4 = f3\<lparr>curp := q\<rparr>" using tas_move [OF assms(5)] by (simp add: q_def)
  have lt: "curp f3 < q" using ws_ge [of "curp f3" "buf f3" "endp f3"] by (simp add: q_def)
  have g: "g = snd (capture_len (f3\<lparr>curp := q\<rparr>) (num_tokens f2 - 1) (int q))"
    using assms(6) by (simp add: f4)
  show ?thesis
    by (rule grows_seq [OF g0]) (rule grows_wrap [OF on0 cp assms(4) lt g assms(7)])
qed

lemma seg_okD: "seg_ok X n \<Longrightarrow> X n f = Some (Inr (), g) \<Longrightarrow> on f \<Longrightarrow> grows f g"
  by (simp add: seg_ok_def)

lemma grows_cur: "on f \<Longrightarrow> cur f = (ch, f1) \<Longrightarrow> grows f f1"
  using grows_move [of f "ws (buf f) (endp f) (curp f)"] ws_ge [of "curp f" "buf f" "endp f"]
  by (auto simp: cur_pure)

lemma grows_separator: "on f \<Longrightarrow> grows f (separator f)"
  using grows_move [of f "sep_pos (buf f) (endp f) (curp f)"] ws_ge [of "curp f" "buf f" "endp f"]
  by (auto simp: separator_pure sep_pos_def)

lemma grows_tas: "on f \<Longrightarrow> test_and_skip f c = (Inr (), f1) \<Longrightarrow> grows f f1"
  using grows_leaf [of f "tas_plan (buf f) (endp f) (curp f) c" f1] plan_wf_tas
  by (simp add: test_and_skip_plan)

lemma grows_key: "on f \<Longrightarrow> parse_key f = (Inr (), f1) \<Longrightarrow> grows f f1"
  using grows_leaf [of f "key_plan (buf f) (endp f) (curp f)" f1] plan_wf_key
  by (simp add: parse_key_plan)

lemma seg_composite:
  "seg_ok parse_value n \<and> seg_ok parse_array n \<and> seg_ok array_loop n \<and>
   seg_ok parse_pair n \<and> seg_ok parse_object n \<and> seg_ok object_loop n"
proof (induction n)
  case 0
  show ?case
    by (simp add: seg_ok_def parse_value.simps parse_array.simps array_loop.simps
        parse_pair.simps parse_object.simps object_loop.simps)
next
  case (Suc n)
  then have IH: "seg_ok parse_value n" "seg_ok parse_array n"
    "seg_ok array_loop n" "seg_ok parse_pair n" "seg_ok parse_object n"
    "seg_ok object_loop n"
    by auto
  have v: "seg_ok parse_value (Suc n)"
    unfolding seg_ok_def
  proof (intro allI impI)
    fix f g :: frozen
    assume a: "parse_value (Suc n) f = Some (Inr (), g)" and on: "on f"
    show "grows f g"
    proof (cases "value_plan (buf f) (endp f) (curp f)")
      case (Leaf pl)
      then have e: "exec_plan f pl = (Inr (), g)" using a by (simp add: parse_value_plan)
      show ?thesis by (rule grows_leaf [OF on e plan_wf_value [OF Leaf]])
    next
      case (Obj q)
      then have e: "parse_object n (f\<lparr>curp := q\<rparr>) = Some (Inr (), g)"
        using a by (simp add: parse_value_plan)
      have "curp f \<le> q" using value_plan_pos [of "buf f" "endp f" "curp f" q] Obj by simp
      from grows_move [OF on this] seg_okD [OF IH(5) e] on show ?thesis
        by (auto intro: grows_seq)
    next
      case (Arr q)
      then have e: "parse_array n (f\<lparr>curp := q\<rparr>) = Some (Inr (), g)"
        using a by (simp add: parse_value_plan)
      have "curp f \<le> q" using value_plan_pos [of "buf f" "endp f" "curp f" q] Arr by simp
      from grows_move [OF on this] seg_okD [OF IH(2) e] on show ?thesis
        by (auto intro: grows_seq)
    qed
  qed
  have a: "seg_ok parse_array (Suc n)"
    unfolding seg_ok_def
  proof (intro allI impI)
    fix f g :: frozen
    assume a: "parse_array (Suc n) f = Some (Inr (), g)" and on: "on f"
    from a show "grows f g"
    proof (cases rule: parse_array_cases)
      case (ok f1 f2 f3 f4)
      have "on f1" using grows_tas [OF on ok(1)] by (rule grows_on)
      then have "on f2" using ok(2) by (rule capture_ptr_keeps_on)
      then have "grows f2 f3" by (rule seg_okD [OF IH(3) ok(3)])
      then show ?thesis using grows_container [OF on ok(1,2) _ ok(4,5)] by simp
    qed simp_all
  qed
  have ob: "seg_ok parse_object (Suc n)"
    unfolding seg_ok_def
  proof (intro allI impI)
    fix f g :: frozen
    assume a: "parse_object (Suc n) f = Some (Inr (), g)" and on: "on f"
    from a show "grows f g"
    proof (cases rule: parse_object_cases)
      case (ok f1 f2 f3 f4)
      have "on f1" using grows_tas [OF on ok(1)] by (rule grows_on)
      then have "on f2" using ok(2) by (rule capture_ptr_keeps_on)
      then have "grows f2 f3" by (rule seg_okD [OF IH(6) ok(3)])
      then show ?thesis using grows_container [OF on ok(1,2) _ ok(4,5)] by simp
    qed simp_all
  qed
  have al: "seg_ok array_loop (Suc n)"
    unfolding seg_ok_def
  proof (intro allI impI)
    fix f g :: frozen
    assume a: "array_loop (Suc n) f = Some (Inr (), g)" and on: "on f"
    from a show "grows f g"
    proof (cases rule: array_loop_cases)
      case stop
      then show ?thesis using grows_cur [OF on] by simp
    next
      case (iter ch f1 f2)
      have g1: "grows f f1" by (rule grows_cur [OF on iter(1)])
      have g2: "grows f1 f2" by (rule seg_okD [OF IH(1) iter(3) grows_on [OF g1]])
      have g3: "grows f2 (separator f2)" by (rule grows_separator [OF grows_on [OF g2]])
      have g4: "grows (separator f2) g" by (rule seg_okD [OF IH(3) iter(4) grows_on [OF g3]])
      show ?thesis by (rule grows_seq [OF g1 grows_seq [OF g2 grows_seq [OF g3 g4]]])
    qed simp
  qed
  have ol: "seg_ok object_loop (Suc n)"
    unfolding seg_ok_def
  proof (intro allI impI)
    fix f g :: frozen
    assume a: "object_loop (Suc n) f = Some (Inr (), g)" and on: "on f"
    from a show "grows f g"
    proof (cases rule: object_loop_cases)
      case stop
      then show ?thesis using grows_cur [OF on] by simp
    next
      case (iter ch f1 f2)
      have g1: "grows f f1" by (rule grows_cur [OF on iter(1)])
      have g2: "grows f1 f2" by (rule seg_okD [OF IH(4) iter(3) grows_on [OF g1]])
      have g3: "grows f2 (separator f2)" by (rule grows_separator [OF grows_on [OF g2]])
      have g4: "grows (separator f2) g" by (rule seg_okD [OF IH(6) iter(4) grows_on [OF g3]])
      show ?thesis by (rule grows_seq [OF g1 grows_seq [OF g2 grows_seq [OF g3 g4]]])
    qed simp
  qed
  have pr: "seg_ok parse_pair (Suc n)"
    unfolding seg_ok_def
  proof (intro allI impI)
    fix f g :: frozen
    assume a: "parse_pair (Suc n) f = Some (Inr (), g)" and on: "on f"
    from a show "grows f g"
    proof (cases rule: parse_pair_cases)
      case (val f1 f2)
      have g1: "grows f f1" by (rule grows_key [OF on val(1)])
      have g2: "grows f1 f2" by (rule grows_tas [OF grows_on [OF g1] val(2)])
      have g3: "grows f2 g" by (rule seg_okD [OF IH(1) val(3) grows_on [OF g2]])
      show ?thesis by (rule grows_seq [OF g1 grows_seq [OF g2 g3]])
    qed simp_all
  qed
  show ?case using v a ob al ol pr by simp
qed

lemmas parse_object_grows =
  seg_composite [THEN conjunct2, THEN conjunct2, THEN conjunct2, THEN conjunct2, THEN conjunct1, THEN seg_okD]

lemma capture_len_other:
  "0 \<le> i \<Longrightarrow> nat i \<noteq> j \<Longrightarrow> toks (snd (capture_len f i p)) ! j = toks f ! j"
  by (auto simp: capture_len_def toks_def split: option.splits)

lemma capture_len_num: "num_tokens (snd (capture_len f i p)) = num_tokens f"
  by (auto simp: capture_len_def split: option.splits)

lemma capture_len_some: "tokens f \<noteq> None \<Longrightarrow> tokens (snd (capture_len f i p)) \<noteq> None"
  by (auto simp: capture_len_def split: option.splits)

lemma filter_upto_threshold:
  assumes "\<And>j. a \<le> j \<Longrightarrow> j < N \<Longrightarrow> P j = (j < a + k)" "a + k \<le> N"
  shows "length (filter P [a..<N]) = k"
proof -
  obtain d where d: "N = a + k + d" using assms(2) by (auto simp: le_iff_add)
  have "[a..<N] = [a..<a + k] @ [a + k..<N]"
    unfolding d by (rule upt_add_eq_append) simp
  moreover have "filter P [a..<a + k] = [a..<a + k]"
    using assms by (intro filter_True) auto
  moreover have "filter P [a + k..<N] = []"
    using assms by (intro filter_False) auto
  ultimately show ?thesis by simp
qed

lemma finish_tokens:
  assumes "fst (finish (Inr (), g)) = Inr c" "on g"
  shows "num_tokens (snd (finish (Inr (), g))) = num_tokens g + 1 \<and>
         tokens (snd (finish (Inr (), g))) \<noteq> None \<and>
         (\<forall>j < nat (num_tokens g). toks (snd (finish (Inr (), g))) ! j = toks g ! j) \<and>
         ptr (toks (snd (finish (Inr (), g))) ! nat (num_tokens g)) = int (curp g)"
proof -
  obtain r2 g2 where c: "capture_ptr g (int (curp g)) JSON_TYPE_EOF = (r2, g2)"
    by (cases "capture_ptr g (int (curp g)) JSON_TYPE_EOF")
  have r2: "r2 = Inr ()" using assms(1) c by (cases r2) (auto simp: finish_def)
  note cp = capture_ptr_on [OF assms(2) c [unfolded r2]]
  define m where "m = nat (num_tokens g)"
  have ml: "m < length (toks g)" "0 \<le> num_tokens g" "int m = num_tokens g"
    using assms(2) cp by (auto simp: on_def m_def)
  have g2: "toks g2 = (toks g)[m := (toks g ! m)\<lparr>ptr := int (curp g), type := JSON_TYPE_EOF\<rparr>]"
    "num_tokens g2 = num_tokens g + 1" "tokens g2 \<noteq> None"
    using cp by (simp_all add: m_def toks_def)
  define st where "st = snd (capture_len g2 (num_tokens g2) (int (curp g2)))"
  have st: "snd (finish (Inr (), g)) = st"
    using c r2 by (simp add: finish_def Let_def st_def)
  have o: "toks st ! j = toks g2 ! j" if "j \<le> m" for j
    unfolding st_def using that ml g2(2) by (intro capture_len_other) auto
  have "num_tokens st = num_tokens g + 1" by (simp add: st_def capture_len_num g2)
  moreover have "tokens st \<noteq> None" unfolding st_def using g2(3) by (rule capture_len_some)
  moreover have "toks st ! j = toks g ! j" if "j < m" for j
    using o [of j] that by (simp add: g2)
  moreover have "ptr (toks st ! m) = int (curp g)"
    using o [of m] ml by (simp add: g2)
  ultimately show ?thesis unfolding st m_def by simp
qed

text \<open>
  The recorded spans nest. Say that token \<open>j\<close> lies inside token \<open>i\<close> when its span
  \<open>[ptr, ptr + len)\<close> is strictly within that of \<open>i\<close>. After a successful call that records
  tokens, for every token \<open>i\<close> before the end-of-input marker, with \<open>k\<close> its \<open>num_children\<close>:
  the \<open>k\<close> tokens after \<open>i\<close> lie inside \<open>i\<close>, and every later token, the marker included,
  starts at or after the end of \<open>i\<close>.
\<close>

lemma token_spans_nested:
  assumes "fst (parse_json (Some b) s_len (Some ts) K) = Inr c" "0 < K" "K \<le> int (length ts)"
    and "tokens (snd (parse_json (Some b) s_len (Some ts) K)) = Some ts'"
    and "num_tokens (snd (parse_json (Some b) s_len (Some ts) K)) = n"
    and "int i < n - 1"
  shows "0 \<le> num_children (ts' ! i) \<and> int i + num_children (ts' ! i) < n - 1 \<and>
         (\<forall>j. i < j \<and> int j < n \<longrightarrow>
            (if int j \<le> int i + num_children (ts' ! i)
             then ptr (ts' ! i) < ptr (ts' ! j) \<and>
                  ptr (ts' ! j) + len (ts' ! j) < ptr (ts' ! i) + len (ts' ! i)
             else ptr (ts' ! i) + len (ts' ! i) \<le> ptr (ts' ! j))) \<and>
         num_children (ts' ! i) =
           int (length (filter (\<lambda>j. inside (ts' ! j) (ts' ! i)) [Suc i..<nat (n - 1)])) \<and>
         (type (ts' ! i) \<noteq> JSON_TYPE_OBJECT \<and> type (ts' ! i) \<noteq> JSON_TYPE_ARRAY \<longrightarrow>
            num_children (ts' ! i) = 0)"
proof -
  define f0 where "f0 = init_frozen b s_len (Some ts) K"
  from assms(1) obtain g where
    f: "parse_object (4 * nat s_len + 2) f0 = Some (Inr (), g)"
    and pf: "parse_json (Some b) s_len (Some ts) K = finish (Inr (), g)"
    unfolding f0_def by (rule parse_json_success) auto
  have on0: "on f0" using assms(2,3) by (simp add: on_def f0_def toks_def)
  note gr = parse_object_grows [OF f on0]
  have ong: "on g" using gr by (rule grows_on)
  define m where "m = nat (num_tokens g)"
  have sg: "seg (toks g) 0 m 0 (curp g)" using gr by (simp add: grows_def f0_def m_def)
  have m0: "0 \<le> num_tokens g" using ong by (simp add: on_def)
  note ft = finish_tokens [OF assms(1) [unfolded pf] ong]
  have ts': "toks (snd (finish (Inr (), g))) = ts'" using assms(4) by (simp add: pf toks_def)
  have n: "n = int (Suc m)" using ft assms(5) m0 by (simp add: pf m_def)
  have im: "i < m" using assms(6) n by simp
  have same: "ts' ! j = toks g ! j" if "j < m" for j using ft that by (simp add: ts' m_def)
  have mk: "ptr (ts' ! m) = int (curp g)" using ft by (simp add: ts' m_def)
  note d = segD [OF sg, of i, simplified]
  have t1: "tok_ok ts' m i"
    by (rule tok_ok_same [of "toks g"]) (use d im same in auto)
  have t2: "tok_ok ts' (Suc m) i"
  proof (rule tok_ok_extend [OF t1])
    fix j assume "m \<le> j" "j < Suc m"
    then have "j = m" by simp
    then show "ptr (ts' ! i) + len (ts' ! i) \<le> ptr (ts' ! j)"
      using d im same [of i] mk by simp
  qed simp
  define k where "k = nat (num_children (ts' ! i))"
  have k: "num_children (ts' ! i) = int k" "i + k < m"
    using t1 by (auto simp: tok_ok_def k_def)
  have cnt: "length (filter (\<lambda>j. inside (ts' ! j) (ts' ! i)) [Suc i..<m]) = k"
  proof (rule filter_upto_threshold)
    show "Suc i + k \<le> m" using k by simp
    fix j assume j: "Suc i \<le> j" "j < m"
    have "if int j \<le> int i + int k then inside (ts' ! j) (ts' ! i)
         else ptr (ts' ! i) + len (ts' ! i) \<le> ptr (ts' ! j)"
      using t1 j k(1) by (simp add: tok_ok_def)
    moreover have "0 \<le> len (ts' ! j)"
      using segD [OF sg, of j] j same [of j] by (simp add: tok_ok_def)
    ultimately show "inside (ts' ! j) (ts' ! i) = (j < Suc i + k)"
      using j k(2) by (auto simp: inside_def split: if_splits)
  qed
  have "\<forall>j. i < j \<and> int j < n \<longrightarrow>
            (if int j \<le> int i + num_children (ts' ! i)
             then ptr (ts' ! i) < ptr (ts' ! j) \<and>
                  ptr (ts' ! j) + len (ts' ! j) < ptr (ts' ! i) + len (ts' ! i)
             else ptr (ts' ! i) + len (ts' ! i) \<le> ptr (ts' ! j))"
    using t2 unfolding tok_ok_def inside_def n by simp
  moreover have "0 \<le> num_children (ts' ! i)" "int i + num_children (ts' ! i) < n - 1"
    "type (ts' ! i) \<noteq> JSON_TYPE_OBJECT \<and> type (ts' ! i) \<noteq> JSON_TYPE_ARRAY \<longrightarrow>
            num_children (ts' ! i) = 0"
    using t1 n by (simp_all add: tok_ok_def)
  moreover have "num_children (ts' ! i) =
           int (length (filter (\<lambda>j. inside (ts' ! j) (ts' ! i)) [Suc i..<nat (n - 1)]))"
    using cnt k(1) n by simp
  ultimately show ?thesis by blast
qed

section \<open>Subtree sizes and nesting levels\<close>

lemma lex_neutral:
  assumes "lex_at b i = (LOut, d)" "i \<le> j" "\<And>k. i \<le> k \<Longrightarrow> k < j \<Longrightarrow> neutral (byte b k)"
  shows "lex_at b j = (LOut, d)"
  using assms(2,3)
proof (induction j)
  case 0
  then show ?case using assms(1) by simp
next
  case (Suc j)
  show ?case
  proof (cases "i = Suc j")
    case True
    then show ?thesis using assms(1) by simp
  next
    case False
    then have ij: "i \<le> j" using Suc.prems(1) by simp
    have "lex_at b j = (LOut, d)" using Suc.IH [OF ij] Suc.prems(2) by simp
    moreover have "neutral (byte b j)" using Suc.prems(2) [of j] ij by simp
    ultimately show ?thesis by (simp add: neutral_def)
  qed
qed

lemma lex_scan_while:
  assumes "lex_at b i = (LOut, d)" "\<And>c. P c \<Longrightarrow> neutral c"
  shows "lex_at b (scan_while P b e i) = (LOut, d)"
proof (rule lex_neutral [OF assms(1) scan_while_ge])
  fix k assume "i \<le> k" "k < scan_while P b e i"
  then have "P (byte b k)" using scan_while_spec [of i P b e] by auto
  then show "neutral (byte b k)" by (rule assms(2))
qed

lemma neutral_classes:
  "is_space c \<Longrightarrow> neutral c" "is_ident c \<Longrightarrow> neutral c" "is_digit c \<Longrightarrow> neutral c"
  by (auto simp: is_space_def is_ident_def is_alpha_def is_digit_def neutral_def)

lemma lex_ws: "lex_at b i = (LOut, d) \<Longrightarrow> lex_at b (ws b e i) = (LOut, d)"
  unfolding ws_def by (rule lex_scan_while) (auto intro: neutral_classes)

lemma peek_byte: "peek b e i \<noteq> END_OF_STRING \<Longrightarrow> byte b (ws b e i) = peek b e i"
  by (auto simp: peek_def)

lemma lex_string:
  "lex_at b i = (LIn, d) \<Longrightarrow> string_scan b e ch0 i = Quote q \<Longrightarrow> lex_at b (Suc q) = (LOut, d)"
proof (induction "e - i" arbitrary: i ch0 rule: less_induct)
  case less
  have iq: "i \<le> q" "q < e" using string_scan_Quote_ge [OF less.prems(2)] by auto
  then have ie: "i < e" by simp
  have IH: "lex_at b (Suc q) = (LOut, d)"
    if "lex_at b j = (LIn, d)" "string_scan b e c j = Quote q" "i < j" for c j
    using less.hyps [of j c] that ie by auto
  consider (esc) "byte b i = 92" | (quote) "byte b i = 34" | (other) "byte b i \<noteq> 92" "byte b i \<noteq> 34"
    by blast
  then show ?case
  proof cases
    case esc
    then obtain n where n: "get_escape_len \<lparr>buf = b, endp = e, curp = i, tokens = None,
           max_tokens = 0, num_tokens = 0\<rparr> (i + 1) (int e - int i) = Inr n"
      and r: "string_scan b e 92 (i + n + 1) = Quote q"
      using less.prems(2) ie
      by (subst (asm) string_scan.simps) (auto simp: Let_def split: if_splits sum.splits)
    have n1: "n = 1" using get_escape_len_Inr [OF n] by simp
    have "lex_at b (Suc (Suc i)) = (LIn, d)" using less.prems(1) esc by simp
    then show ?thesis using IH [of "i + n + 1" 92] r n1 by simp
  next
    case quote
    then have "q = i" using less.prems(2) ie
      by (subst (asm) string_scan.simps) (auto simp: Let_def split: if_splits)
    then show ?thesis using quote less.prems(1) by simp
  next
    case other
    then have r: "string_scan b e (byte b i) (i + 1) = Quote q"
      using less.prems(2) ie
      by (subst (asm) string_scan.simps, auto simp: Let_def split: if_splits)
    have "lex_at b (Suc i) = (LIn, d)" using less.prems(1) other by simp
    then show ?thesis using IH [of "i + 1" "byte b i"] r by simp
  qed
qed

lemma lex_cmp:
  assumes "lex_at b i = (LOut, d)" "cmp b e i str n"
    "\<And>j. j < n \<Longrightarrow> neutral (of_char (str ! j))"
  shows "lex_at b (i + n) = (LOut, d)"
proof (rule lex_neutral [OF assms(1)])
  fix k assume k: "i \<le> k" "k < i + n"
  then obtain j where j: "k = i + j" "j < n" by (metis add_less_cancel_left le_Suc_ex)
  then have "byte b k = of_char (str ! j)" using assms(2) by (simp add: cmp_def)
  then show "neutral (byte b k)" using assms(3) [OF j(2)] by simp
qed simp

lemma lseg_empty [simp]: "lseg b ts m m d"
  by (auto simp: lseg_def)

lemma tok_level_same: "ptr (ts' ! j) = ptr (ts ! j) \<Longrightarrow> tok_level b ts' j = tok_level b ts j"
  by (simp add: tok_level_def)

lemma tok_lvl_same:
  assumes "tok_lvl b ts m' i" "i < m'" "ts' ! i = ts ! i"
    "\<And>j. i \<le> j \<Longrightarrow> j < m' \<Longrightarrow> ptr (ts' ! j) = ptr (ts ! j)"
  shows "tok_lvl b ts' m' i"
proof -
  have l: "tok_level b ts' j = tok_level b ts j" if "i \<le> j" "j < m'" for j
    using assms(4) [OF that] by (rule tok_level_same)
  define k where "k = nat (num_children (ts ! i))"
  have k: "num_children (ts ! i) = int k" "i + k < m'"
    using assms(1) by (auto simp: tok_lvl_def k_def)
  have a: "\<forall>j. i < j \<and> j \<le> i + k \<longrightarrow> tok_level b ts i < tok_level b ts j"
    "i + k + 1 < m' \<longrightarrow> tok_level b ts (i + k + 1) \<le> tok_level b ts i"
    using assms(1) k(1) by (auto simp: tok_lvl_def nat_add_distrib)
  have "\<forall>j. i < j \<and> j \<le> i + k \<longrightarrow> tok_level b ts' i < tok_level b ts' j"
    using a(1) k(2) l by auto
  moreover have "i + k + 1 < m' \<longrightarrow> tok_level b ts' (i + k + 1) \<le> tok_level b ts' i"
    using a(2) k(2) l [of i] l [of "i + k + 1"] assms(2) by auto
  ultimately show ?thesis
    using assms(1,3) k(1) by (auto simp: tok_lvl_def nat_add_distrib)
qed

lemma lsegD:
  "lseg b ts m m' d \<Longrightarrow> m \<le> i \<Longrightarrow> i < m' \<Longrightarrow> d \<le> tok_level b ts i \<and> tok_lvl b ts m' i"
  by (simp add: lseg_def)

lemma lseg_first: "lseg b ts m m' d \<Longrightarrow> m < m' \<Longrightarrow> tok_level b ts m = d"
  by (simp add: lseg_def)

lemma lseg_same:
  assumes "lseg b ts m m' d" "\<And>j. m \<le> j \<Longrightarrow> j < m' \<Longrightarrow> ts' ! j = ts ! j"
  shows "lseg b ts' m m' d"
  unfolding lseg_def
proof (intro conjI allI impI)
  assume "m < m'"
  then show "tok_level b ts' m = d"
    using lseg_first [OF assms(1)] assms(2) [of m] by (simp add: tok_level_def)
next
  fix i assume i: "m \<le> i \<and> i < m'"
  note d = lsegD [OF assms(1), of i]
  show "d \<le> tok_level b ts' i" using d i assms(2) [of i] by (simp add: tok_level_def)
  show "tok_lvl b ts' m' i"
    by (rule tok_lvl_same [of b ts]) (use d i assms(2) in auto)
qed

lemma tok_lvl_extend:
  assumes "tok_lvl b ts m1 i" "m1 \<le> m2"
    and "m1 < m2 \<Longrightarrow> tok_level b ts m1 \<le> tok_level b ts i"
  shows "tok_lvl b ts m2 i"
proof -
  define k where "k = nat (num_children (ts ! i))"
  have k: "num_children (ts ! i) = int k" "i + k < m1"
    using assms(1) by (auto simp: tok_lvl_def k_def)
  have a: "i + k + 1 < m1 \<longrightarrow> tok_level b ts (i + k + 1) \<le> tok_level b ts i"
    using assms(1) k(1) by (auto simp: tok_lvl_def nat_add_distrib)
  have "i + k + 1 < m2 \<longrightarrow> tok_level b ts (i + k + 1) \<le> tok_level b ts i"
  proof
    assume lt: "i + k + 1 < m2"
    show "tok_level b ts (i + k + 1) \<le> tok_level b ts i"
    proof (cases "i + k + 1 < m1")
      case True
      then show ?thesis using a by simp
    next
      case False
      then have "i + k + 1 = m1" using k(2) by simp
      then show ?thesis using assms(3) lt by simp
    qed
  qed
  then show ?thesis using assms(1,2) k by (auto simp: tok_lvl_def nat_add_distrib)
qed

lemma lseg_append:
  assumes "lseg b ts m m1 d" "lseg b ts m1 m2 d" "m \<le> m1" "m1 \<le> m2"
  shows "lseg b ts m m2 d"
  unfolding lseg_def
proof (intro conjI allI impI)
  assume "m < m2"
  then show "tok_level b ts m = d"
    using lseg_first [OF assms(1)] lseg_first [OF assms(2)] assms(3) by (cases "m < m1") auto
next
  fix i assume i: "m \<le> i \<and> i < m2"
  show "d \<le> tok_level b ts i"
    using lsegD [OF assms(1), of i] lsegD [OF assms(2), of i] i by (cases "i < m1") auto
  show "tok_lvl b ts m2 i"
  proof (cases "i < m1")
    case True
    note d = lsegD [OF assms(1), of i]
    show ?thesis
    proof (rule tok_lvl_extend [of b ts m1])
      show "tok_lvl b ts m1 i" using d i True by simp
      show "m1 \<le> m2" by (rule assms(4))
      assume "m1 < m2"
      then show "tok_level b ts m1 \<le> tok_level b ts i"
        using lseg_first [OF assms(2)] d i True by simp
    qed
  next
    case False
    then show ?thesis using lsegD [OF assms(2), of i] i by simp
  qed
qed

lemma lseg_wrap:
  assumes "lseg b ts (Suc m) m' (d + 1)" "m < m'" "tok_level b ts m = d"
    and "num_children (ts ! m) = int m' - 1 - int m"
    and "type (ts ! m) = JSON_TYPE_OBJECT \<or> type (ts ! m) = JSON_TYPE_ARRAY \<or> m' = Suc m"
  shows "lseg b ts m m' d"
  unfolding lseg_def
proof (intro conjI allI impI)
  show "tok_level b ts m = d" by (rule assms(3))
next
  fix i assume i: "m \<le> i \<and> i < m'"
  show "d \<le> tok_level b ts i"
    using lsegD [OF assms(1), of i] i assms(3) by (cases "i = m") auto
  show "tok_lvl b ts m' i"
  proof (cases "i = m")
    case True
    have "tok_level b ts m < tok_level b ts j" if "m < j" "j < m'" for j
      using lsegD [OF assms(1), of j] that assms(3) by simp
    then show ?thesis using True assms(2,4,5) by (auto simp: tok_lvl_def)
  next
    case False
    then show ?thesis using lsegD [OF assms(1), of i] i by simp
  qed
qed

lemma lgrows_on: "lgrows d f g \<Longrightarrow> on g"
  by (simp add: lgrows_def keeps_def)

lemma lgrows_lex: "lgrows d f g \<Longrightarrow> lex_at (buf g) (curp g) = (LOut, d)"
  by (simp add: lgrows_def)

lemma lgrows_move: "on f \<Longrightarrow> lex_at (buf f) q = (LOut, d) \<Longrightarrow> lgrows d f (f\<lparr>curp := q\<rparr>)"
  by (simp add: lgrows_def keeps_def)

lemma lgrows_seq:
  assumes "lgrows d f g" "lgrows d g h"
  shows "lgrows d f h"
proof -
  have k: "keeps f g" "keeps g h" using assms by (simp_all add: lgrows_def)
  have bf: "buf g = buf f" "buf h = buf f" using assms by (simp_all add: lgrows_def)
  have n: "nat (num_tokens f) \<le> nat (num_tokens g)" "nat (num_tokens g) \<le> nat (num_tokens h)"
    using k by (auto simp: keeps_def intro: nat_mono)
  have s1: "lseg (buf f) (toks h) (nat (num_tokens f)) (nat (num_tokens g)) d"
  proof (rule lseg_same [of _ "toks g"])
    show "lseg (buf f) (toks g) (nat (num_tokens f)) (nat (num_tokens g)) d"
      using assms(1) by (simp add: lgrows_def)
    fix j assume "j < nat (num_tokens g)"
    then show "toks h ! j = toks g ! j" using k(2) by (simp add: keeps_def)
  qed
  have s2: "lseg (buf f) (toks h) (nat (num_tokens g)) (nat (num_tokens h)) d"
    using assms(2) bf by (simp add: lgrows_def)
  have "lseg (buf f) (toks h) (nat (num_tokens f)) (nat (num_tokens h)) d"
    by (rule lseg_append [OF s1 s2 n])
  then show ?thesis using keeps_trans [OF k] assms(2) bf by (simp add: lgrows_def)
qed

lemma lgrows_leaf:
  assumes "on f" "exec_plan f pl = (Inr (), g)" "plan_lex (buf f) d pl"
  shows "lgrows d f g"
proof (cases pl)
  case (Fail e q)
  then show ?thesis using assms(2) by simp
next
  case (Move q)
  then show ?thesis using assms lgrows_move [of f q d] by (auto simp: plan_lex_def)
next
  case (Token q p ty rest)
  obtain r1 f2 where c: "capture_ptr (f\<lparr>curp := q\<rparr>) p ty = (r1, f2)"
    by (cases "capture_ptr (f\<lparr>curp := q\<rparr>) p ty")
  from assms(2) Token c obtain p2 q3 where rest: "rest = Inr (p2, q3)" and r1: "r1 = Inr ()"
    and g: "g = (snd (capture_len f2 (num_tokens f2 - 1) p2))\<lparr>curp := q3\<rparr>"
    by (cases r1; cases rest) auto
  define m where "m = nat (num_tokens f)"
  define ts where "ts = toks f"
  have wf: "level (buf f) (nat p) = d" "lex_at (buf f) q3 = (LOut, d)"
    using assms(3) Token rest by (simp_all add: plan_lex_def)
  have onq: "on (f\<lparr>curp := q\<rparr>)" using assms(1) by simp
  note cp = capture_ptr_on [OF onq c [unfolded r1]]
  have lt: "num_tokens f < max_tokens f" using cp by simp
  have f2: "f2 = f\<lparr>curp := q, tokens := Some (ts[m := (ts ! m)\<lparr>ptr := p, type := ty\<rparr>]),
               num_tokens := num_tokens f + 1\<rparr>"
    using cp by (simp add: m_def ts_def)
  have ml: "m < length ts" "0 \<le> num_tokens f"
    using assms(1) lt by (auto simp: on_def m_def ts_def)
  have on2: "on f2" using assms(1) lt ml by (simp add: f2 on_def toks_def ts_def)
  have n2: "num_tokens f2 - 1 = num_tokens f" "num_tokens f2 = num_tokens f + 1"
    "max_tokens f2 = max_tokens f" "toks f2 = ts[m := (ts ! m)\<lparr>ptr := p, type := ty\<rparr>]"
    "buf f2 = buf f"
    by (simp_all add: f2 toks_def)
  have cl: "snd (capture_len f2 (num_tokens f) p2) =
      f2\<lparr>tokens := Some ((toks f2)[m := (toks f2 ! m)\<lparr>num_children := 0,
                                len := p2 - ptr (toks f2 ! m)\<rparr>])\<rparr>"
    using capture_len_on [OF on2, of "num_tokens f" p2] ml lt n2(2,3) by (simp add: m_def)
  define t where "t = (ts ! m)\<lparr>ptr := p, type := ty, num_children := 0, len := p2 - p\<rparr>"
  have tg: "toks g = ts[m := t]" "num_tokens g = num_tokens f + 1" "max_tokens g = max_tokens f"
    "curp g = q3" "tokens g \<noteq> None" "buf g = buf f"
    using ml by (simp_all add: g cl n2 t_def)
  have tm: "toks g ! m = t" using tg ml by simp
  have k: "keeps f g"
    using assms(1) lt ml tg by (auto simp: keeps_def on_def ts_def [symmetric] m_def [symmetric])
  have "lseg (buf f) (toks g) m (Suc m) d"
  proof (rule lseg_wrap)
    show "lseg (buf f) (toks g) (Suc m) (Suc m) (d + 1)" by simp
    show "tok_level (buf f) (toks g) m = d" using wf by (simp add: tok_level_def tm t_def)
    show "num_children (toks g ! m) = int (Suc m) - 1 - int m" by (simp add: tm t_def)
  qed simp_all
  moreover have "nat (num_tokens g) = Suc m" using tg ml by (simp add: m_def)
  ultimately show ?thesis using k wf tg by (simp add: lgrows_def m_def)
qed

lemma lgrows_wrap:
  assumes "on f" "lex_at (buf f) (curp f) = (LOut, d)"
    and "capture_ptr (f\<lparr>curp := Suc (curp f)\<rparr>) (int (curp f)) ty = (Inr (), f2)"
    and "lgrows (d + 1) f2 f3" "lex_at (buf f) q = (LOut, d)"
    and "g = snd (capture_len (f3\<lparr>curp := q\<rparr>) (num_tokens f2 - 1) (int q))"
    and "ty = JSON_TYPE_OBJECT \<or> ty = JSON_TYPE_ARRAY"
  shows "lgrows d f g"
proof -
  define m where "m = nat (num_tokens f)"
  define m' where "m' = nat (num_tokens f3)"
  define ts where "ts = toks f"
  define p where "p = int (curp f)"
  have on1: "on (f\<lparr>curp := Suc (curp f)\<rparr>)" using assms(1) by simp
  note cp = capture_ptr_on [OF on1 assms(3)]
  have lt: "num_tokens f < max_tokens f" using cp by simp
  have f2: "f2 = f\<lparr>curp := Suc (curp f),
               tokens := Some (ts[m := (ts ! m)\<lparr>ptr := p, type := ty\<rparr>]),
               num_tokens := num_tokens f + 1\<rparr>"
    using cp by (simp add: m_def ts_def p_def)
  have ml: "m < length ts" "0 \<le> num_tokens f"
    using assms(1) lt by (auto simp: on_def m_def ts_def)
  have n2: "num_tokens f2 - 1 = num_tokens f" "num_tokens f2 = num_tokens f + 1"
    "max_tokens f2 = max_tokens f" "toks f2 = ts[m := (ts ! m)\<lparr>ptr := p, type := ty\<rparr>]"
    "curp f2 = Suc (curp f)" "nat (num_tokens f2) = Suc m" "buf f2 = buf f"
    using ml by (simp_all add: f2 toks_def m_def)
  have k23: "keeps f2 f3" and b3: "buf f3 = buf f"
    and s23: "lseg (buf f) (toks f3) (Suc m) m' (d + 1)"
    using assms(4) n2 by (simp_all add: lgrows_def m'_def)
  have on3: "on (f3\<lparr>curp := q\<rparr>)" using k23 by (simp add: keeps_def)
  have n3: "max_tokens f3 = max_tokens f" "num_tokens f2 \<le> num_tokens f3"
    "length (toks f3) = length ts" "toks f3 ! m = (ts ! m)\<lparr>ptr := p, type := ty\<rparr>"
    "\<And>i. i < m \<Longrightarrow> toks f3 ! i = ts ! i"
    using k23 n2 ml by (simp_all add: keeps_def)
  have mm: "m < m'" "int m' = num_tokens f3" "int m = num_tokens f"
    using n3(2) n2 ml by (simp_all add: m'_def m_def)
  define t where "t = (ts ! m)\<lparr>ptr := p, type := ty, num_children := int m' - 1 - int m,
      len := int q - p\<rparr>"
  have cl: "g = f3\<lparr>curp := q, tokens := Some ((toks f3)[m := t])\<rparr>"
    using capture_len_on [OF on3, of "num_tokens f2 - 1" "int q"] ml lt n2 n3 mm assms(6)
    by (simp add: m_def t_def)
  have tg: "toks g = (toks f3)[m := t]" "num_tokens g = num_tokens f3" "max_tokens g = max_tokens f"
    "curp g = q" "tokens g \<noteq> None" "buf g = buf f"
    using n3 b3 by (simp_all add: cl toks_def)
  have tm: "toks g ! m = t" using tg n3 ml by simp
  have k: "keeps f g"
    unfolding keeps_def
  proof (intro conjI allI impI)
    show "on g" using on3 tg n3 by (simp add: on_def)
    show "max_tokens g = max_tokens f" by (rule tg)
    show "num_tokens f \<le> num_tokens g" using tg n3 n2 by simp
    show "length (toks g) = length (toks f)" using tg n3 by (simp add: ts_def)
    fix i assume "i < nat (num_tokens f)"
    then show "toks g ! i = toks f ! i" using tg n3(5) [of i] by (simp add: m_def ts_def)
  qed
  have s: "lseg (buf f) (toks g) (Suc m) m' (d + 1)"
    by (rule lseg_same [OF s23]) (simp add: tg)
  have "lseg (buf f) (toks g) m m' d"
  proof (rule lseg_wrap [OF s mm(1)])
    show "tok_level (buf f) (toks g) m = d"
      using assms(2) by (simp add: tok_level_def tm t_def p_def level_def)
    show "num_children (toks g ! m) = int m' - 1 - int m" by (simp add: tm t_def)
    show "type (toks g ! m) = JSON_TYPE_OBJECT \<or> type (toks g ! m) = JSON_TYPE_ARRAY \<or> m' = Suc m"
      using assms(7) by (auto simp: tm t_def)
  qed
  then show ?thesis using k assms(5) tg by (simp add: lgrows_def m_def m'_def)
qed

lemma tas_peek:
  assumes "test_and_skip f c = (Inr (), f1)"
  shows "peek (buf f) (endp f) (curp f) = c"
  using assms by (auto simp: test_and_skip_plan tas_plan_def split: if_splits)

lemma lex_tas:
  assumes "test_and_skip f c = (Inr (), f1)" "lex_at (buf f) (curp f) = (LOut, d)"
    "c \<noteq> END_OF_STRING"
  shows "lex_at (buf f) (curp f1) = lex_step (LOut, d) c"
proof -
  have "byte (buf f) (ws (buf f) (endp f) (curp f)) = c"
    using peek_byte [of "buf f" "endp f" "curp f"] tas_peek [OF assms(1)] assms(3) by simp
  then show ?thesis
    using tas_move [OF assms(1)] lex_ws [OF assms(2), of "endp f"] by simp
qed

lemma lgrows_container:
  assumes "on f" "lex_at (buf f) (curp f) = (LOut, d)"
    and "test_and_skip f c = (Inr (), f1)" "c = 91 \<or> c = 123"
    and "capture_ptr f1 (int (curp f1) - 1) ty = (Inr (), f2)"
    and "on f2 \<Longrightarrow> lex_at (buf f2) (curp f2) = (LOut, d + 1) \<Longrightarrow> lgrows (d + 1) f2 f3"
    and "test_and_skip f3 c' = (Inr (), f4)" "c' = 93 \<or> c' = 125"
    and "g = snd (capture_len f4 (num_tokens f2 - 1) (int (curp f4)))"
    and "ty = JSON_TYPE_OBJECT \<or> ty = JSON_TYPE_ARRAY"
  shows "lgrows d f g"
proof -
  define w where "w = ws (buf f) (endp f) (curp f)"
  define f0 where "f0 = f\<lparr>curp := w\<rparr>"
  have f1: "f1 = f0\<lparr>curp := Suc (curp f0)\<rparr>"
    using tas_move [OF assms(3)] by (simp add: f0_def w_def)
  have lw: "lex_at (buf f) w = (LOut, d)" unfolding w_def by (rule lex_ws [OF assms(2)])
  have g0: "lgrows d f f0" unfolding f0_def by (rule lgrows_move [OF assms(1) lw])
  have on0: "on f0" using assms(1) by (simp add: f0_def)
  have l0: "lex_at (buf f0) (curp f0) = (LOut, d)" using lw by (simp add: f0_def)
  have cp: "capture_ptr (f0\<lparr>curp := Suc (curp f0)\<rparr>) (int (curp f0)) ty = (Inr (), f2)"
    using assms(5) by (simp add: f1)
  have l1: "lex_at (buf f) (curp f1) = (LOut, d + 1)"
    using lex_tas [OF assms(3,2)] assms(4) by (auto simp: END_OF_STRING_def)
  have on2: "on f2" using on0 cp by (intro capture_ptr_keeps_on [OF _ cp]) simp
  have s2: "buf f2 = buf f" "curp f2 = curp f1"
    using capture_ptr_scan [OF assms(5)] by (simp_all add: f1 f0_def)
  have g23: "lgrows (d + 1) f2 f3" using assms(6) [OF on2] l1 s2 by simp
  have l3: "lex_at (buf f3) (curp f3) = (LOut, d + 1)" using g23 by (rule lgrows_lex)
  have b3: "buf f3 = buf f" using g23 s2 by (simp add: lgrows_def)
  define q where "q = Suc (ws (buf f3) (endp f3) (curp f3))"
  have f4: "f4 = f3\<lparr>curp := q\<rparr>" using tas_move [OF assms(7)] by (simp add: q_def)
  have l4: "lex_at (buf f0) q = (LOut, d)"
    using lex_tas [OF assms(7) l3] assms(8) b3 by (auto simp: END_OF_STRING_def f4 f0_def)
  have g: "g = snd (capture_len (f3\<lparr>curp := q\<rparr>) (num_tokens f2 - 1) (int q))"
    using assms(9) by (simp add: f4)
  have "lgrows (d + 1) f2 f3" by (rule g23)
  then have "lgrows d f0 g"
    by (rule lgrows_wrap [OF on0 l0 cp _ l4 g assms(10)])
  then show ?thesis by (rule lgrows_seq [OF g0])
qed

lemma neutral_simps [simp]: "neutral 58" "neutral 44" "neutral 45"
  by (simp_all add: neutral_def)

lemma lex_next_neutral:
  assumes "lex_at b i = (LOut, d)" "peek b e i = c" "neutral c" "c \<noteq> END_OF_STRING"
  shows "lex_at b (Suc (ws b e i)) = (LOut, d)"
proof -
  have "byte b (ws b e i) = c" using peek_byte [of b e i] assms(2,4) by simp
  then show ?thesis using lex_ws [OF assms(1), of e] assms(3) by (simp add: neutral_def)
qed

lemma plan_lex_Fail [simp]: "plan_lex b d (Fail err q)"
  by (simp add: plan_lex_def)

lemma plan_lex_tas:
  assumes "lex_at b i = (LOut, d)" "neutral c" "c \<noteq> END_OF_STRING"
  shows "plan_lex b d (tas_plan b e i c)"
  using lex_next_neutral [OF assms(1) _ assms(2,3), of e]
  by (simp add: tas_plan_def plan_lex_def del: lex_at.simps)

lemma plan_lex_ident:
  assumes "lex_at b i = (LOut, d)"
  shows "plan_lex b d (ident_plan b e i)"
proof -
  note w = lex_ws [OF assms, of e]
  have "lex_at b (scan_while is_ident b e (ws b e i)) = (LOut, d)"
    by (rule lex_scan_while [OF w]) (rule neutral_classes)
  then show ?thesis using w by (simp add: ident_plan_def plan_lex_def level_def)
qed

lemma plan_lex_string:
  assumes "lex_at b i = (LOut, d)"
  shows "plan_lex b d (string_plan b e i)"
proof (cases "peek b e i = 34")
  case False
  then show ?thesis by (simp add: string_plan_def)
next
  case True
  then have "byte b (ws b e i) = 34" using peek_byte [of b e i] by (simp add: END_OF_STRING_def)
  then have l: "lex_at b (Suc (ws b e i)) = (LIn, d)" using lex_ws [OF assms, of e] by simp
  show ?thesis
  proof (cases "string_scan b e 0 (ws b e i + 1)")
    case (Quote q)
    have lv: "level b (Suc (ws b e i)) = d" using l by (simp add: level_def del: lex_at.simps)
    have "lex_at b (Suc q) = (LOut, d)"
      using lex_string [of b "Suc (ws b e i)" d e 0 q] l Quote by (simp del: lex_at.simps)
    moreover have "nat (1 + int (ws b e i)) = Suc (ws b e i)" by simp
    ultimately show ?thesis using True Quote lv
      by (simp add: string_plan_def plan_lex_def del: lex_at.simps)
  qed (use True in \<open>simp_all add: string_plan_def plan_lex_def\<close>)
qed

lemma plan_lex_number:
  assumes "lex_at b i = (LOut, d)"
  shows "plan_lex b d (number_plan b e i)"
proof -
  note w = lex_ws [OF assms, of e]
  define st where "st = (if peek b e i = 45 then ws b e i + 1 else ws b e i)"
  have "lex_at b st = (LOut, d)"
    using w lex_next_neutral [OF assms, of e 45]
    by (simp add: st_def END_OF_STRING_def del: lex_at.simps)
  then have "lex_at b (scan_while is_digit b e st) = (LOut, d)"
    by (rule lex_scan_while) (rule neutral_classes)
  then show ?thesis using w
    by (simp add: number_plan_def plan_lex_def level_def st_def Let_def del: lex_at.simps)
qed

lemma plan_lex_key: "lex_at b i = (LOut, d) \<Longrightarrow> plan_lex b d (key_plan b e i)"
  by (simp add: key_plan_def plan_lex_ident plan_lex_string)

lemma vkind_lit:
  assumes "vkind b e i = KLit ty k"
  shows "\<exists>str. cmp b e (ws b e i) str k \<and> str \<in> {''null'', ''true'', ''false''} \<and> k = length str"
  using assms by (auto simp: vkind_def Let_def split: if_splits)

lemma lit_neutral:
  assumes "str \<in> {''null'', ''true'', ''false''}" "j < length str"
  shows "neutral (of_char (str ! j))"
  using assms by (auto simp: neutral_def less_Suc_eq)

lemma plan_lex_lit:
  assumes "lex_at b i = (LOut, d)" "vkind b e i = KLit ty k"
  shows "plan_lex b d (lit_plan (ws b e i) ty k)"
proof -
  note w = lex_ws [OF assms(1), of e]
  from vkind_lit [OF assms(2)] obtain str where s: "cmp b e (ws b e i) str k"
    "str \<in> {''null'', ''true'', ''false''}" "k = length str" by blast
  have "lex_at b (ws b e i + k) = (LOut, d)"
    by (rule lex_cmp [OF w s(1)]) (use s(2,3) lit_neutral in blast)
  then show ?thesis using w by (simp add: lit_plan_def plan_lex_def level_def)
qed

lemma plan_lex_value:
  assumes "lex_at b i = (LOut, d)" "value_plan b e i = Leaf pl"
  shows "plan_lex b d pl"
  using assms(2) plan_lex_string [OF assms(1), of e] plan_lex_number [OF assms(1), of e]
    plan_lex_lit [OF assms(1), of e]
  by (cases "vkind b e i") (auto simp: value_plan_def)

lemma value_plan_ws: "value_plan b e i = Obj q \<or> value_plan b e i = Arr q \<Longrightarrow> q = ws b e i"
  by (cases "vkind b e i") (auto simp: value_plan_def)

lemma lvl_okD:
  "lvl_ok X n \<Longrightarrow> X n f = Some (Inr (), g) \<Longrightarrow> on f \<Longrightarrow> lex_at (buf f) (curp f) = (LOut, d) \<Longrightarrow>
   lgrows d f g"
  by (simp add: lvl_ok_def)

lemma lgrows_cur:
  "on f \<Longrightarrow> lex_at (buf f) (curp f) = (LOut, d) \<Longrightarrow> cur f = (ch, f1) \<Longrightarrow> lgrows d f f1"
  using lgrows_move [of f "ws (buf f) (endp f) (curp f)" d] lex_ws [of "buf f" "curp f" d "endp f"]
  by (auto simp: cur_pure)

lemma lgrows_separator:
  assumes "on f" "lex_at (buf f) (curp f) = (LOut, d)"
  shows "lgrows d f (separator f)"
proof -
  have "lex_at (buf f) (sep_pos (buf f) (endp f) (curp f)) = (LOut, d)"
    using lex_ws [OF assms(2), of "endp f"] lex_next_neutral [OF assms(2), of "endp f" 44]
    by (simp add: sep_pos_def END_OF_STRING_def del: lex_at.simps)
  then show ?thesis using lgrows_move [OF assms(1)] by (simp add: separator_pure)
qed

lemma lgrows_colon:
  assumes "on f" "lex_at (buf f) (curp f) = (LOut, d)" "test_and_skip f 58 = (Inr (), f1)"
  shows "lgrows d f f1"
proof (rule lgrows_leaf [OF assms(1)])
  show "exec_plan f (tas_plan (buf f) (endp f) (curp f) 58) = (Inr (), f1)"
    using assms(3) by (simp add: test_and_skip_plan)
  show "plan_lex (buf f) d (tas_plan (buf f) (endp f) (curp f) 58)"
    by (rule plan_lex_tas [OF assms(2)]) (simp_all add: END_OF_STRING_def)
qed

lemma lgrows_key:
  assumes "on f" "lex_at (buf f) (curp f) = (LOut, d)" "parse_key f = (Inr (), f1)"
  shows "lgrows d f f1"
proof (rule lgrows_leaf [OF assms(1)])
  show "exec_plan f (key_plan (buf f) (endp f) (curp f)) = (Inr (), f1)"
    using assms(3) by (simp add: parse_key_plan)
  show "plan_lex (buf f) d (key_plan (buf f) (endp f) (curp f))"
    by (rule plan_lex_key [OF assms(2)])
qed

lemma lvl_composite:
  "lvl_ok parse_value n \<and> lvl_ok parse_array n \<and> lvl_ok array_loop n \<and>
   lvl_ok parse_pair n \<and> lvl_ok parse_object n \<and> lvl_ok object_loop n"
proof (induction n)
  case 0
  show ?case
    by (simp add: lvl_ok_def parse_value.simps parse_array.simps array_loop.simps
        parse_pair.simps parse_object.simps object_loop.simps)
next
  case (Suc n)
  then have IH: "lvl_ok parse_value n" "lvl_ok parse_array n"
    "lvl_ok array_loop n" "lvl_ok parse_pair n" "lvl_ok parse_object n"
    "lvl_ok object_loop n"
    by auto
  have v: "lvl_ok parse_value (Suc n)"
    unfolding lvl_ok_def
  proof (intro allI impI)
    fix f g :: frozen and d
    assume a: "parse_value (Suc n) f = Some (Inr (), g)" and on: "on f"
      and lx: "lex_at (buf f) (curp f) = (LOut, d)"
    note lw = lex_ws [OF lx, of "endp f"]
    show "lgrows d f g"
    proof (cases "value_plan (buf f) (endp f) (curp f)")
      case (Leaf pl)
      then have e: "exec_plan f pl = (Inr (), g)" using a by (simp add: parse_value_plan)
      show ?thesis by (rule lgrows_leaf [OF on e plan_lex_value [OF lx Leaf]])
    next
      case (Obj q)
      then have e: "parse_object n (f\<lparr>curp := q\<rparr>) = Some (Inr (), g)"
        using a by (simp add: parse_value_plan)
      have q: "lex_at (buf f) q = (LOut, d)"
        using value_plan_ws [of "buf f" "endp f" "curp f" q] Obj lw by simp
      have "lgrows d (f\<lparr>curp := q\<rparr>) g" by (rule lvl_okD [OF IH(5) e]) (use on q in simp_all)
      then show ?thesis by (rule lgrows_seq [OF lgrows_move [OF on q]])
    next
      case (Arr q)
      then have e: "parse_array n (f\<lparr>curp := q\<rparr>) = Some (Inr (), g)"
        using a by (simp add: parse_value_plan)
      have q: "lex_at (buf f) q = (LOut, d)"
        using value_plan_ws [of "buf f" "endp f" "curp f" q] Arr lw by simp
      have "lgrows d (f\<lparr>curp := q\<rparr>) g" by (rule lvl_okD [OF IH(2) e]) (use on q in simp_all)
      then show ?thesis by (rule lgrows_seq [OF lgrows_move [OF on q]])
    qed
  qed
  have a: "lvl_ok parse_array (Suc n)"
    unfolding lvl_ok_def
  proof (intro allI impI)
    fix f g :: frozen and d
    assume a: "parse_array (Suc n) f = Some (Inr (), g)" and on: "on f"
      and lx: "lex_at (buf f) (curp f) = (LOut, d)"
    from a show "lgrows d f g"
    proof (cases rule: parse_array_cases)
      case (ok f1 f2 f3 f4)
      show ?thesis
        by (rule lgrows_container [OF on lx ok(1) _ ok(2) lvl_okD [OF IH(3) ok(3)] ok(4) _ ok(5)])
          simp_all
    qed simp_all
  qed
  have ob: "lvl_ok parse_object (Suc n)"
    unfolding lvl_ok_def
  proof (intro allI impI)
    fix f g :: frozen and d
    assume a: "parse_object (Suc n) f = Some (Inr (), g)" and on: "on f"
      and lx: "lex_at (buf f) (curp f) = (LOut, d)"
    from a show "lgrows d f g"
    proof (cases rule: parse_object_cases)
      case (ok f1 f2 f3 f4)
      show ?thesis
        by (rule lgrows_container [OF on lx ok(1) _ ok(2) lvl_okD [OF IH(6) ok(3)] ok(4) _ ok(5)])
          simp_all
    qed simp_all
  qed
  have al: "lvl_ok array_loop (Suc n)"
    unfolding lvl_ok_def
  proof (intro allI impI)
    fix f g :: frozen and d
    assume a: "array_loop (Suc n) f = Some (Inr (), g)" and on: "on f"
      and lx: "lex_at (buf f) (curp f) = (LOut, d)"
    from a show "lgrows d f g"
    proof (cases rule: array_loop_cases)
      case stop
      then show ?thesis using lgrows_cur [OF on lx] by simp
    next
      case (iter ch f1 f2)
      have g1: "lgrows d f f1" by (rule lgrows_cur [OF on lx iter(1)])
      have g2: "lgrows d f1 f2"
        by (rule lvl_okD [OF IH(1) iter(3) lgrows_on [OF g1] lgrows_lex [OF g1]])
      have g3: "lgrows d f2 (separator f2)"
        by (rule lgrows_separator [OF lgrows_on [OF g2] lgrows_lex [OF g2]])
      have g4: "lgrows d (separator f2) g"
        by (rule lvl_okD [OF IH(3) iter(4) lgrows_on [OF g3] lgrows_lex [OF g3]])
      show ?thesis by (rule lgrows_seq [OF g1 lgrows_seq [OF g2 lgrows_seq [OF g3 g4]]])
    qed simp
  qed
  have ol: "lvl_ok object_loop (Suc n)"
    unfolding lvl_ok_def
  proof (intro allI impI)
    fix f g :: frozen and d
    assume a: "object_loop (Suc n) f = Some (Inr (), g)" and on: "on f"
      and lx: "lex_at (buf f) (curp f) = (LOut, d)"
    from a show "lgrows d f g"
    proof (cases rule: object_loop_cases)
      case stop
      then show ?thesis using lgrows_cur [OF on lx] by simp
    next
      case (iter ch f1 f2)
      have g1: "lgrows d f f1" by (rule lgrows_cur [OF on lx iter(1)])
      have g2: "lgrows d f1 f2"
        by (rule lvl_okD [OF IH(4) iter(3) lgrows_on [OF g1] lgrows_lex [OF g1]])
      have g3: "lgrows d f2 (separator f2)"
        by (rule lgrows_separator [OF lgrows_on [OF g2] lgrows_lex [OF g2]])
      have g4: "lgrows d (separator f2) g"
        by (rule lvl_okD [OF IH(6) iter(4) lgrows_on [OF g3] lgrows_lex [OF g3]])
      show ?thesis by (rule lgrows_seq [OF g1 lgrows_seq [OF g2 lgrows_seq [OF g3 g4]]])
    qed simp
  qed
  have pr: "lvl_ok parse_pair (Suc n)"
    unfolding lvl_ok_def
  proof (intro allI impI)
    fix f g :: frozen and d
    assume a: "parse_pair (Suc n) f = Some (Inr (), g)" and on: "on f"
      and lx: "lex_at (buf f) (curp f) = (LOut, d)"
    from a show "lgrows d f g"
    proof (cases rule: parse_pair_cases)
      case (val f1 f2)
      have g1: "lgrows d f f1" by (rule lgrows_key [OF on lx val(1)])
      have g2: "lgrows d f1 f2"
        by (rule lgrows_colon [OF lgrows_on [OF g1] lgrows_lex [OF g1] val(2)])
      have g3: "lgrows d f2 g"
        by (rule lvl_okD [OF IH(1) val(3) lgrows_on [OF g2] lgrows_lex [OF g2]])
      show ?thesis by (rule lgrows_seq [OF g1 lgrows_seq [OF g2 g3]])
    qed simp_all
  qed
  show ?case using v a ob al ol pr by simp
qed

lemmas parse_object_lgrows =
  lvl_composite [THEN conjunct2, THEN conjunct2, THEN conjunct2, THEN conjunct2, THEN conjunct1, THEN lvl_okD]

lemma takeWhile_threshold:
  assumes "\<And>j. a \<le> j \<Longrightarrow> j < a + k \<Longrightarrow> P j" "a + k < N" "\<not> P (a + k)"
  shows "length (takeWhile P [a..<N]) = k"
proof -
  obtain d where d: "N = a + k + d" using assms(2) by (auto simp: less_iff_Suc_add)
  have u1: "[a..<N] = [a..<a + k] @ [a + k..<N]"
    unfolding d by (rule upt_add_eq_append) simp
  have u2: "[a + k..<N] = (a + k) # [Suc (a + k)..<N]"
    using assms(2) by (rule upt_conv_Cons)
  have "takeWhile P ([a..<a + k] @ [a + k..<N]) = [a..<a + k] @ takeWhile P [a + k..<N]"
    by (rule takeWhile_append2) (use assms(1) in auto)
  also have "takeWhile P [a + k..<N] = []"
    by (subst u2) (simp add: assms(3))
  finally have "takeWhile P [a..<N] = [a..<a + k]"
    by (subst u1) simp
  then show ?thesis by simp
qed

text \<open>
  C7: subtree sizes. The nesting level of a byte position is computed from the input bytes
  alone (\<open>level\<close>): the number of brackets and braces opened and not yet closed before it,
  those inside strings not counted. The level of a token is the level of the position where
  it starts, and \<open>subtree_size_spec\<close> is the claim's count: the number of tokens recorded
  after token \<open>i\<close> and before the next token at the level of \<open>i\<close> or shallower. Let the call
  succeed with a non-null token array of \<open>K > 0\<close> slots (and at least \<open>K\<close> long), leaving
  \<open>n\<close> tokens \<open>ts'\<close>, the last of which is the end-of-input marker. Then for every token \<open>i\<close>
  before the marker, \<open>num_children\<close> is that count, and it is zero when \<open>i\<close> is neither an
  object nor an array; and no recorded token starts before the input. The \<open>num_children\<close>
  of the marker itself is not covered here: it is the subject of C2.
\<close>

theorem C7_subtree_size:
  assumes "fst (parse_json (Some b) s_len (Some ts) K) = Inr c" "0 < K" "K \<le> int (length ts)"
    and "tokens (snd (parse_json (Some b) s_len (Some ts) K)) = Some ts'"
    and "num_tokens (snd (parse_json (Some b) s_len (Some ts) K)) = n"
    and "int i < n - 1"
  shows "num_children (ts' ! i) = subtree_size_spec b ts' (nat n) i \<and>
         (type (ts' ! i) \<noteq> JSON_TYPE_OBJECT \<and> type (ts' ! i) \<noteq> JSON_TYPE_ARRAY \<longrightarrow>
            num_children (ts' ! i) = 0) \<and>
         (\<forall>j. int j < n \<longrightarrow> 0 \<le> ptr (ts' ! j))"
proof -
  define f0 where "f0 = init_frozen b s_len (Some ts) K"
  from assms(1) obtain g where
    f: "parse_object (4 * nat s_len + 2) f0 = Some (Inr (), g)"
    and pf: "parse_json (Some b) s_len (Some ts) K = finish (Inr (), g)"
    unfolding f0_def by (rule parse_json_success) auto
  have on0: "on f0" using assms(2,3) by (simp add: on_def f0_def toks_def)
  have l0: "lex_at (buf f0) (curp f0) = (LOut, 0)" by (simp add: f0_def)
  note gr = parse_object_lgrows [OF f on0 l0]
  have ong: "on g" using gr by (rule lgrows_on)
  define m where "m = nat (num_tokens g)"
  have sg: "lseg b (toks g) 0 m 0" using gr by (simp add: lgrows_def f0_def m_def)
  have le: "level b (curp g) = 0" using gr by (simp add: lgrows_def f0_def level_def)
  have sp: "seg (toks g) 0 m 0 (curp g)"
    using parse_object_grows [OF f on0] by (simp add: grows_def f0_def m_def)
  have m0: "0 \<le> num_tokens g" using ong by (simp add: on_def)
  note ft = finish_tokens [OF assms(1) [unfolded pf] ong]
  have ts': "toks (snd (finish (Inr (), g))) = ts'" using assms(4) by (simp add: pf toks_def)
  have n: "n = int (Suc m)" using ft assms(5) m0 by (simp add: pf m_def)
  have im: "i < m" using assms(6) n by simp
  have same: "ts' ! j = toks g ! j" if "j < m" for j using ft that by (simp add: ts' m_def)
  have mk: "ptr (ts' ! m) = int (curp g)" using ft by (simp add: ts' m_def)
  have lm: "tok_level b ts' m = 0" using mk le by (simp add: tok_level_def)
  note d = lsegD [OF sg, of i, simplified]
  have li: "0 \<le> tok_level b ts' i" using d im same [of i] by (simp add: tok_level_def)
  have t1: "tok_lvl b ts' m i"
    by (rule tok_lvl_same [of b "toks g"]) (use d im same in auto)
  have t2: "tok_lvl b ts' (Suc m) i"
    by (rule tok_lvl_extend [OF t1]) (use lm li in simp_all)
  define k where "k = nat (num_children (ts' ! i))"
  have k: "num_children (ts' ! i) = int k" "i + k < m"
    using t1 by (auto simp: tok_lvl_def k_def)
  have deeper: "tok_level b ts' i < tok_level b ts' j" if "Suc i \<le> j" "j < Suc i + k" for j
    using t2 k(1) that by (simp add: tok_lvl_def)
  have stop: "\<not> tok_level b ts' i < tok_level b ts' (Suc i + k)"
    using t2 k by (simp add: tok_lvl_def nat_add_distrib)
  have "length (takeWhile (\<lambda>j. tok_level b ts' i < tok_level b ts' j) [Suc i..<Suc m]) = k"
  proof (rule takeWhile_threshold)
    show "Suc i + k < Suc m" using k by simp
    show "\<not> tok_level b ts' i < tok_level b ts' (Suc i + k)" by (rule stop)
  qed (rule deeper)
  moreover have "nat n = Suc m" using n by simp
  ultimately have c1: "num_children (ts' ! i) = subtree_size_spec b ts' (nat n) i"
    using k(1) by (simp add: subtree_size_spec_def del: upt_Suc)
  have c2: "type (ts' ! i) \<noteq> JSON_TYPE_OBJECT \<and> type (ts' ! i) \<noteq> JSON_TYPE_ARRAY \<longrightarrow>
            num_children (ts' ! i) = 0"
    using t1 by (simp add: tok_lvl_def)
  have c3: "\<forall>j. int j < n \<longrightarrow> 0 \<le> ptr (ts' ! j)"
  proof (intro allI impI)
    fix j assume "int j < n"
    then consider "j < m" | "j = m" using n by force
    then show "0 \<le> ptr (ts' ! j)"
    proof cases
      case 1
      then show ?thesis using segD [OF sp, of j] same [of j] by simp
    next
      case 2
      then show ?thesis using mk by simp
    qed
  qed
  show ?thesis using c1 c2 c3 by blast
qed

theorem C7_subtree_size_witness:
  "fst (parse_json (Some ''{a:[1,2]}'') 9 (Some (replicate 6 tok0)) 6) = Inr 9 \<and>
   num_tokens (snd (parse_json (Some ''{a:[1,2]}'') 9 (Some (replicate 6 tok0)) 6)) = 6 \<and>
   num_children (toks (snd (parse_json (Some ''{a:[1,2]}'') 9 (Some (replicate 6 tok0)) 6)) ! 2) = 2 \<and>
   num_children (toks (snd (parse_json (Some ''{a:[1,2]}'') 9 (Some (replicate 6 tok0)) 6)) ! 0) = 4"
proof -
  have e1: "fst (parse_json (Some ''{a:[1,2]}'') 9 (Some (replicate 6 tok0)) 6) = Inr 9"
    by code_simp
  have e4: "tokens (snd (parse_json (Some ''{a:[1,2]}'') 9 (Some (replicate 6 tok0)) 6)) =
      Some (toks (snd (parse_json (Some ''{a:[1,2]}'') 9 (Some (replicate 6 tok0)) 6)))"
    by code_simp
  have e5: "num_tokens (snd (parse_json (Some ''{a:[1,2]}'') 9 (Some (replicate 6 tok0)) 6)) = 6"
    by code_simp
  have s2: "subtree_size_spec ''{a:[1,2]}''
      (toks (snd (parse_json (Some ''{a:[1,2]}'') 9 (Some (replicate 6 tok0)) 6))) 6 2 = 2"
    by code_simp
  have s0: "subtree_size_spec ''{a:[1,2]}''
      (toks (snd (parse_json (Some ''{a:[1,2]}'') 9 (Some (replicate 6 tok0)) 6))) 6 0 = 4"
    by code_simp
  show ?thesis
    using C7_subtree_size [OF e1 _ _ e4 e5, of 2] C7_subtree_size [OF e1 _ _ e4 e5, of 0]
      e1 e5 s2 s0 by simp
qed

end
